(* ===== verification/Prelude.thy ===== *)
theory Prelude
  imports Main "HOL-Library.Word" "HOL-Library.Monad_Syntax"
begin

text \<open>
  Shared vocabulary of the development: the machine integer types, the lemma collections of the
  components, fixed-size C character arrays and the generic facts on lists, characters, words and
  options that the component theories rely on.

  Conventions used throughout:
  \<^item> a C object of array type is a list whose length is the declared size;
  \<^item> a \<^verbatim>\<open>const char *\<close> is a \<open>string option\<close>: \<open>None\<close> is the null pointer and \<open>Some s\<close> points at
    the characters \<open>s\<close> followed by a NUL, so the literal \<open>''abc''\<close> is the C literal;
  \<^item> a C operation that may never return (a busy-wait on a device register) has its result in
    \<open>option\<close>, with \<open>None\<close> for the run that never returns.
\<close>

section \<open>Machine integers and lemma collections\<close>

type_synonym u8 = "8 word"
type_synonym u16 = "16 word"
type_synonym u32 = "32 word"

named_theorems cstr_simps \<open>C strings and character arrays\<close>
named_theorems mem_simps \<open>reads of physical memory after writes\<close>
named_theorems ring_simps \<open>circular buffers\<close>
named_theorems state_defs \<open>definitions of straight-line operations\<close>

section \<open>C strings\<close>

abbreviation NUL :: char where
  "NUL \<equiv> CHR 0x00"

definition c_at :: "string \<Rightarrow> nat \<Rightarrow> char" where
  "c_at s i = (if i < length s then s ! i else NUL)"

text \<open>The string a reader of the characters \<open>s\<close> sees: everything before the first NUL.\<close>

definition cstr :: "string \<Rightarrow> string" where
  "cstr s = takeWhile (\<lambda>c. c \<noteq> NUL) s"

lemma cstr_Nil [simp]: "cstr [] = []"
  by (simp add: cstr_def)

lemma cstr_Cons: "cstr (c # s) = (if c = NUL then [] else c # cstr s)"
  by (simp add: cstr_def)

lemma cstr_id [cstr_simps]: "NUL \<notin> set s \<Longrightarrow> cstr s = s"
  by (auto simp: cstr_def)

lemma cstr_idem [simp]: "cstr (cstr s) = cstr s"
  by (induction s) (simp_all add: cstr_Cons)

lemma NUL_notin_cstr [simp]: "NUL \<notin> set (cstr s)"
  using set_takeWhileD by (fastforce simp: cstr_def)

lemma length_cstr_le: "length (cstr s) \<le> length s"
  by (simp add: cstr_def length_takeWhile_le)

lemma cstr_append_NUL [cstr_simps]: "NUL \<notin> set s \<Longrightarrow> cstr (s @ NUL # t) = s"
  by (subst cstr_def, subst takeWhile_append2) auto

lemma c_at_Cons_0 [simp]: "c_at (c # s) 0 = c"
  by (simp add: c_at_def)

lemma c_at_Cons_Suc [simp]: "c_at (c # s) (Suc i) = c_at s i"
  by (simp add: c_at_def)

lemma c_at_Nil [simp]: "c_at [] i = NUL"
  by (simp add: c_at_def)

lemma c_at_drop: "c_at s (i + j) = c_at (drop i s) j"
  by (auto simp: c_at_def add.commute)

lemma c_at_length_cstr: "c_at s (length (cstr s)) = NUL"
  by (induction s) (simp_all add: cstr_Cons)

lemma c_at_cstr_nth: "i < length (cstr s) \<Longrightarrow> c_at s i = cstr s ! i"
proof (induction s arbitrary: i)
  case Nil
  then show ?case by simp
next
  case (Cons c s)
  then show ?case by (cases i) (auto simp: cstr_Cons split: if_splits)
qed

lemma c_at_less_cstr: "i < length (cstr s) \<Longrightarrow> c_at s i = cstr s ! i \<and> c_at s i \<noteq> NUL"
  by (metis NUL_notin_cstr c_at_cstr_nth nth_mem)

lemma cstr_drop: "i \<le> length (cstr s) \<Longrightarrow> cstr (drop i s) = drop i (cstr s)"
proof (induction i arbitrary: s)
  case 0
  then show ?case by simp
next
  case (Suc i)
  then show ?case by (cases s) (auto simp: cstr_Cons split: if_splits)
qed

lemma cstr_step:
  "cstr (drop i s) = (if c_at s i = NUL then [] else c_at s i # cstr (drop (Suc i) s))"
proof (cases "i < length s")
  case True
  then have "drop i s = s ! i # drop (Suc i) s" by (simp add: Cons_nth_drop_Suc)
  with True show ?thesis by (simp add: cstr_Cons c_at_def)
next
  case False
  then show ?thesis by (simp add: c_at_def)
qed

text \<open>A property of all entries of a table survives the update of one.\<close>

lemma ball_list_update: "\<forall>x \<in> set xs. P x \<Longrightarrow> P e \<Longrightarrow> \<forall>x \<in> set (xs[i := e]). P x"
  using set_update_subset_insert [of xs i e] by blast

section \<open>Characters and bytes\<close>

text \<open>The casts \<^verbatim>\<open>(uint8_t)c\<close> and \<^verbatim>\<open>(char)b\<close>.\<close>

definition byte_of :: "char \<Rightarrow> u8" where
  "byte_of c = of_nat (of_char c)"

definition char_of_byte :: "u8 \<Rightarrow> char" where
  "char_of_byte w = char_of (unat w)"

lemma of_char_nat_less [simp]: "(of_char c :: nat) < 256"
  by (metis mod_less_divisor of_char_mod_256 zero_less_numeral)

lemma unat_byte_of: "unat (byte_of c) = of_char c"
  by (simp add: byte_of_def unat_of_nat)

lemma char_of_byte_of [simp]: "char_of_byte (byte_of c) = c"
  by (simp add: char_of_byte_def unat_byte_of)

lemma byte_of_char_of_byte [simp]: "byte_of (char_of_byte w) = w"
  using unsigned_less [of w, where ?'a = nat] by (simp add: byte_of_def char_of_byte_def)

lemma byte_of_inject [simp]: "byte_of c = byte_of d \<longleftrightarrow> c = d"
  by (metis char_of_byte_of)

section \<open>Lists\<close>

lemma nth_append_first: "i < length xs \<Longrightarrow> (xs @ ys) ! i = xs ! i"
  by (simp add: nth_append)

lemma list_update_split: "i < length xs \<Longrightarrow> xs[i := x] = take i xs @ x # drop (Suc i) xs"
  by (rule upd_conv_take_nth_drop)

lemma take_update_swap: "i < n \<Longrightarrow> take n (xs[i := x]) = (take n xs)[i := x]"
  by (simp add: take_update_swap)

end
