(* ===== verification/Kernel_Types.thy ===== *)
theory Kernel_Types
  imports Prelude
begin

text \<open>
  The core types of \<^verbatim>\<open>kernel/kernel.h\<close>: the status codes every subsystem returns, with the
  integer each enumerator stands for, and the four states of the kernel. \<open>run_result\<close> tells a
  call that returns from one that stops the processor (\<^verbatim>\<open>cli; hlt\<close>), and \<open>and_then\<close> runs a
  continuation only after a call that returns.
\<close>

datatype aura_status_t =
    AURA_OK | AURA_ERR | AURA_NOMEM | AURA_NOSLOT | AURA_NOTFOUND | AURA_BUSY

fun status_code :: "aura_status_t \<Rightarrow> int" where
  "status_code AURA_OK = 0"
| "status_code AURA_ERR = -1"
| "status_code AURA_NOMEM = -2"
| "status_code AURA_NOSLOT = -3"
| "status_code AURA_NOTFOUND = -4"
| "status_code AURA_BUSY = -5"

datatype kernel_state_t =
    KERNEL_STATE_BOOT | KERNEL_STATE_INIT | KERNEL_STATE_RUN | KERNEL_STATE_PANIC

datatype 's run_result = Ret 's | Halt 's

fun result_state :: "'s run_result \<Rightarrow> 's" where
  "result_state (Ret s) = s"
| "result_state (Halt s) = s"

fun and_then :: "'s run_result option \<Rightarrow> ('s \<Rightarrow> 's run_result option) \<Rightarrow> 's run_result option" where
  "and_then None k = None"
| "and_then (Some (Halt s)) k = Some (Halt s)"
| "and_then (Some (Ret s)) k = k s"

lemma and_then_Ret [simp]: "and_then m (\<lambda>s. Some (Ret s)) = m"
proof (cases m)
  case (Some r)
  then show ?thesis by (cases r) simp_all
qed simp

lemma and_then_assoc: "and_then (and_then m k) l = and_then m (\<lambda>s. and_then (k s) l)"
  by (cases "(m, k)" rule: and_then.cases) simp_all

lemma status_code_inj: "status_code r = status_code r' \<longleftrightarrow> r = r'"
  by (cases r; cases r') simp_all

lemma status_code_ok_iff [simp]: "status_code r = 0 \<longleftrightarrow> r = AURA_OK"
  by (cases r) simp_all

end
