(* ===== verification/Machine.thy ===== *)
theory Machine
  imports Kernel_Types
begin

unbundle bit_operations_syntax

text \<open>
  The machine below the C code: byte-addressed physical memory with little-endian 16- and 32-bit
  accesses, the x86 I/O ports of \<^verbatim>\<open>kernel/io.h\<close>, the control registers the kernel writes, and
  the two globals of \<^verbatim>\<open>kernel/kernel.c\<close>. The byte loops \<^verbatim>\<open>memset_k\<close> and \<^verbatim>\<open>memcpy_k\<close> of
  \<^verbatim>\<open>kernel/memory.c\<close> work on this memory.

  The hardware behind the ports is not part of the repository. It is a parameter of the model: an
  \<open>'d io_dev\<close> says how a device state of type \<open>'d\<close> answers a port read and changes on a port
  access. Every operation that touches a port takes it as its first argument.

  The kernel state is an extensible record: \<open>'d machine\<close> is its lowest layer and each component
  theory extends it with the component's static variables, so that an operation is defined on the
  layers it can see and leaves the fields of later layers alone by construction.
\<close>

section \<open>State\<close>

record 'd io_dev =
  in8 :: "u16 \<Rightarrow> 'd \<Rightarrow> u8 \<times> 'd"
  out8 :: "u16 \<Rightarrow> u8 \<Rightarrow> 'd \<Rightarrow> 'd"
  in16 :: "u16 \<Rightarrow> 'd \<Rightarrow> u16 \<times> 'd"
  out16 :: "u16 \<Rightarrow> u16 \<Rightarrow> 'd \<Rightarrow> 'd"

type_synonym memory = "nat \<Rightarrow> u8"

record 'd machine =
  dev :: 'd
  mem :: memory
  cr0 :: u32
  cr2 :: u32
  cr3 :: u32
  cr4 :: u32
  idtr :: "u16 \<times> u32"
  int_flag :: bool
  g_kernel_state :: kernel_state_t
  g_tick_count :: u32

section \<open>Ports\<close>

definition outb :: "'d io_dev \<Rightarrow> u16 \<Rightarrow> u8 \<Rightarrow> ('d, 'z) machine_scheme \<Rightarrow> ('d, 'z) machine_scheme" where
  "outb D port v s = s\<lparr>dev := out8 D port v (dev s)\<rparr>"

definition inb :: "'d io_dev \<Rightarrow> u16 \<Rightarrow> ('d, 'z) machine_scheme \<Rightarrow> u8 \<times> ('d, 'z) machine_scheme" where
  "inb D port s = (let (v, d) = in8 D port (dev s) in (v, s\<lparr>dev := d\<rparr>))"

definition outw :: "'d io_dev \<Rightarrow> u16 \<Rightarrow> u16 \<Rightarrow> ('d, 'z) machine_scheme \<Rightarrow> ('d, 'z) machine_scheme" where
  "outw D port v s = s\<lparr>dev := out16 D port v (dev s)\<rparr>"

definition inw :: "'d io_dev \<Rightarrow> u16 \<Rightarrow> ('d, 'z) machine_scheme \<Rightarrow> u16 \<times> ('d, 'z) machine_scheme" where
  "inw D port s = (let (v, d) = in16 D port (dev s) in (v, s\<lparr>dev := d\<rparr>))"

definition io_wait :: "'d io_dev \<Rightarrow> ('d, 'z) machine_scheme \<Rightarrow> ('d, 'z) machine_scheme" where
  "io_wait D s = outb D 0x80 0x00 s"

section \<open>Memory accesses\<close>

definition rd16 :: "memory \<Rightarrow> nat \<Rightarrow> u16" where
  "rd16 m a = ucast (m a) OR push_bit 8 (ucast (m (a + 1)))"

definition wr16 :: "memory \<Rightarrow> nat \<Rightarrow> u16 \<Rightarrow> memory" where
  "wr16 m a v = m(a := ucast v, a + 1 := ucast (drop_bit 8 v))"

definition rd32 :: "memory \<Rightarrow> nat \<Rightarrow> u32" where
  "rd32 m a = ucast (m a) OR push_bit 8 (ucast (m (a + 1))) OR
     push_bit 16 (ucast (m (a + 2))) OR push_bit 24 (ucast (m (a + 3)))"

definition wr32 :: "memory \<Rightarrow> nat \<Rightarrow> u32 \<Rightarrow> memory" where
  "wr32 m a v = m(a := ucast v, a + 1 := ucast (drop_bit 8 v),
     a + 2 := ucast (drop_bit 16 v), a + 3 := ucast (drop_bit 24 v))"

fun memset_loop :: "memory \<Rightarrow> u32 \<Rightarrow> u8 \<Rightarrow> nat \<Rightarrow> memory" where
  "memset_loop m p val 0 = m"
| "memset_loop m p val (Suc len) = memset_loop (m(unat p := val)) (p + 1) val len"

definition memset_k :: "u32 \<Rightarrow> u8 \<Rightarrow> u32 \<Rightarrow> ('d, 'z) machine_scheme \<Rightarrow> ('d, 'z) machine_scheme" where
  "memset_k p val len s = s\<lparr>mem := memset_loop (mem s) p val (unat len)\<rparr>"

fun memcpy_loop :: "memory \<Rightarrow> u32 \<Rightarrow> u32 \<Rightarrow> nat \<Rightarrow> memory" where
  "memcpy_loop m d s 0 = m"
| "memcpy_loop m d s (Suc len) = memcpy_loop (m(unat d := m (unat s))) (d + 1) (s + 1) len"

definition memcpy_k :: "u32 \<Rightarrow> u32 \<Rightarrow> u32 \<Rightarrow> ('d, 'z) machine_scheme \<Rightarrow> ('d, 'z) machine_scheme" where
  "memcpy_k d src len s = s\<lparr>mem := memcpy_loop (mem s) d src (unat len)\<rparr>"

section \<open>Reads after writes\<close>

lemma rd32_wr32_same [mem_simps]: "rd32 (wr32 m a v) a = v"
proof (rule bit_word_eqI)
  fix n
  assume "n < LENGTH(32)"
  then consider "n < 8" | "8 \<le> n" "n < 16" | "16 \<le> n" "n < 24" | "24 \<le> n" "n < 32"
    by fastforce
  then show "bit (rd32 (wr32 m a v) a) n \<longleftrightarrow> bit v n"
    by cases (auto simp: rd32_def wr32_def bit_simps)
qed

lemma rd16_wr16_same [mem_simps]: "rd16 (wr16 m a v) a = v"
  by (rule bit_word_eqI) (auto simp: rd16_def wr16_def bit_simps)

lemma wr32_apply_other [mem_simps]: "k < a \<or> a + 4 \<le> k \<Longrightarrow> wr32 m a v k = m k"
  by (auto simp: wr32_def)

lemma wr16_apply_other [mem_simps]: "k < a \<or> a + 2 \<le> k \<Longrightarrow> wr16 m a v k = m k"
  by (auto simp: wr16_def)

lemma rd32_wr32_other [mem_simps]: "b + 4 \<le> a \<or> a + 4 \<le> b \<Longrightarrow> rd32 (wr32 m a v) b = rd32 m b"
  by (auto simp: rd32_def wr32_apply_other)

lemma rd16_wr16_other [mem_simps]: "b + 2 \<le> a \<or> a + 2 \<le> b \<Longrightarrow> rd16 (wr16 m a v) b = rd16 m b"
  by (auto simp: rd16_def wr16_apply_other)

lemma rd32_upd_other [mem_simps]: "k < b \<or> b + 4 \<le> k \<Longrightarrow> rd32 (m(k := v)) b = rd32 m b"
  by (auto simp: rd32_def)

lemma rd32_cong: "(\<And>k. a \<le> k \<Longrightarrow> k < a + 4 \<Longrightarrow> m' k = m k) \<Longrightarrow> rd32 m' a = rd32 m a"
  by (simp add: rd32_def)

section \<open>The byte loops\<close>

lemma unat_Suc_less: "unat p + 1 < 2 ^ 32 \<Longrightarrow> unat (p + 1 :: u32) = unat p + 1"
  by (simp add: unat_word_ariths)

lemma memset_loop_apply:
  assumes "unat p + n \<le> 2 ^ 32"
  shows "memset_loop m p v n k = (if unat p \<le> k \<and> k < unat p + n then v else m k)"
  using assms
proof (induction n arbitrary: m p)
  case 0
  then show ?case by auto
next
  case (Suc n)
  show ?case
  proof (cases "n = 0")
    case True
    then show ?thesis by auto
  next
    case False
    with Suc.prems have p: "unat (p + 1) = unat p + 1" by (intro unat_Suc_less) linarith
    have "memset_loop m p v (Suc n) k =
        (if unat p + 1 \<le> k \<and> k < unat p + 1 + n then v else (m(unat p := v)) k)"
      unfolding memset_loop.simps
      by (rule Suc.IH [of "p + 1", unfolded p]) (use Suc.prems in simp)
    also have "\<dots> = (if unat p \<le> k \<and> k < unat p + Suc n then v else m k)" by auto
    finally show ?thesis .
  qed
qed

text \<open>Copying between disjoint ranges.\<close>

lemma memcpy_loop_apply:
  assumes "unat d + n \<le> 2 ^ 32" "unat s + n \<le> 2 ^ 32"
    "unat d + n \<le> unat s \<or> unat s + n \<le> unat d"
  shows "memcpy_loop m d s n k =
    (if unat d \<le> k \<and> k < unat d + n then m (unat s + (k - unat d)) else m k)"
  using assms
proof (induction n arbitrary: m d s)
  case 0
  then show ?case by auto
next
  case (Suc n)
  show ?case
  proof (cases "n = 0")
    case True
    with Suc.prems show ?thesis by auto
  next
    case False
    with Suc.prems have p: "unat (d + 1) = unat d + 1" "unat (s + 1) = unat s + 1"
      by (intro unat_Suc_less; linarith)+
    let ?m = "m(unat d := m (unat s))"
    have disj: "unat (d + 1) + n \<le> unat (s + 1) \<or> unat (s + 1) + n \<le> unat (d + 1)"
      using Suc.prems(3) unfolding p by linarith
    have "memcpy_loop m d s (Suc n) k =
        (if unat d + 1 \<le> k \<and> k < unat d + 1 + n
         then ?m (unat s + 1 + (k - (unat d + 1))) else ?m k)"
      unfolding memcpy_loop.simps
      by (rule Suc.IH [of "d + 1" "s + 1", unfolded p])
        (use Suc.prems disj [unfolded p] in linarith)+
    also have "\<dots> = (if unat d \<le> k \<and> k < unat d + Suc n then m (unat s + (k - unat d)) else m k)"
    proof (cases "unat d + 1 \<le> k \<and> k < unat d + 1 + n")
      case True
      then have "unat s + 1 + (k - (unat d + 1)) = unat s + (k - unat d)" by linarith
      moreover have "unat s + (k - unat d) \<noteq> unat d" using True Suc.prems(3) by linarith
      ultimately show ?thesis using True by simp
    next
      case False
      then show ?thesis by auto
    qed
    finally show ?thesis .
  qed
qed

end
