(* ===== verification/Memory_Manager.thy ===== *)
theory Memory_Manager
  imports Machine
begin

unbundle bit_operations_syntax

text \<open>
  \<^verbatim>\<open>kernel/memory.c\<close>: the free-list allocator of the kernel heap. The blocks are a doubly linked
  list of headers inside the heap itself, so the model works on the bytes of physical memory: a
  field access is a little-endian read or write at the field's offset in \<^verbatim>\<open>struct block_hdr\<close>
  (\<open>magic\<close> 0, \<open>size\<close> 4, \<open>used\<close> 8, \<open>next\<close> 12, \<open>prev\<close> 16, 20 bytes on i386), and pointer and
  size arithmetic is 32-bit. A walk of the list ends only if the list does, so the loops are
  \<open>partial_function (option)\<close>.

  The specification is a list of blocks \<open>(payload size, used)\<close> in address order. \<open>seg\<close> says that
  such a list is laid out in memory; \<open>alloc_spec\<close> is first fit with splitting and \<open>free_spec\<close>
  releases a block and merges it with its free neighbours. The refinement lemmas say that
  \<open>kmalloc\<close>, \<open>kfree\<close> and \<open>memory_stats\<close> return and implement the list operations.
\<close>

section \<open>Constants and state\<close>

abbreviation HEAP_START :: nat where "HEAP_START \<equiv> 0x00200000"
abbreviation HEAP_SIZE :: nat where "HEAP_SIZE \<equiv> 0x00080000"
abbreviation HEAP_END :: nat where "HEAP_END \<equiv> HEAP_START + HEAP_SIZE"

abbreviation MEM_FREE :: u8 where "MEM_FREE \<equiv> 0"
abbreviation MEM_USED :: u8 where "MEM_USED \<equiv> 1"

abbreviation BLOCK_MAGIC :: u32 where "BLOCK_MAGIC \<equiv> 0xA3A30000"
abbreviation HDR_SIZE :: u32 where "HDR_SIZE \<equiv> 20"

record 'd heap_st = "'d machine" +
  heap_head :: u32

text \<open>The fields of the header at pointer \<open>p\<close>.\<close>

definition blk_magic :: "memory \<Rightarrow> u32 \<Rightarrow> u32" where "blk_magic m p = rd32 m (unat p)"
definition blk_size :: "memory \<Rightarrow> u32 \<Rightarrow> u32" where "blk_size m p = rd32 m (unat p + 4)"
definition blk_used :: "memory \<Rightarrow> u32 \<Rightarrow> u8" where "blk_used m p = m (unat p + 8)"
definition blk_next :: "memory \<Rightarrow> u32 \<Rightarrow> u32" where "blk_next m p = rd32 m (unat p + 12)"
definition blk_prev :: "memory \<Rightarrow> u32 \<Rightarrow> u32" where "blk_prev m p = rd32 m (unat p + 16)"

definition set_magic :: "u32 \<Rightarrow> u32 \<Rightarrow> memory \<Rightarrow> memory" where "set_magic p v m = wr32 m (unat p) v"
definition set_size :: "u32 \<Rightarrow> u32 \<Rightarrow> memory \<Rightarrow> memory" where "set_size p v m = wr32 m (unat p + 4) v"
definition set_used :: "u32 \<Rightarrow> u8 \<Rightarrow> memory \<Rightarrow> memory" where "set_used p v m = m(unat p + 8 := v)"
definition set_next :: "u32 \<Rightarrow> u32 \<Rightarrow> memory \<Rightarrow> memory" where "set_next p v m = wr32 m (unat p + 12) v"
definition set_prev :: "u32 \<Rightarrow> u32 \<Rightarrow> memory \<Rightarrow> memory" where "set_prev p v m = wr32 m (unat p + 16) v"

lemmas blk_defs = blk_magic_def blk_size_def blk_used_def blk_next_def blk_prev_def
  set_magic_def set_size_def set_used_def set_next_def set_prev_def

section \<open>Operations\<close>

definition memory_init :: "('d, 'z) heap_st_scheme \<Rightarrow> ('d, 'z) heap_st_scheme" where
  "memory_init s =
     (let head = of_nat HEAP_START;
          s = s\<lparr>heap_head := head\<rparr>;
          m = set_magic head BLOCK_MAGIC (mem s);
          m = set_size head (of_nat HEAP_SIZE - HDR_SIZE) m;
          m = set_used head MEM_FREE m;
          m = set_next head 0 m;
          m = set_prev head 0 m
      in memset_k (head + HDR_SIZE) 0 (blk_size m head) (s\<lparr>mem := m\<rparr>))"

text \<open>Splitting the block \<open>cur\<close> so that its payload is \<open>req\<close> bytes.\<close>

definition split_block :: "u32 \<Rightarrow> u32 \<Rightarrow> memory \<Rightarrow> memory" where
  "split_block req cur m =
     (let next_blk = cur + HDR_SIZE + req;
          m = set_magic next_blk BLOCK_MAGIC m;
          m = set_size next_blk (blk_size m cur - req - HDR_SIZE) m;
          m = set_used next_blk MEM_FREE m;
          m = set_next next_blk (blk_next m cur) m;
          m = set_prev next_blk cur m;
          m = (if blk_next m cur \<noteq> 0 then set_prev (blk_next m cur) next_blk m else m);
          m = set_next cur next_blk m
      in set_size cur req m)"

partial_function (option) kmalloc_loop :: "u32 \<Rightarrow> memory \<Rightarrow> u32 \<Rightarrow> (u32 \<times> memory) option" where
  "kmalloc_loop req m cur =
     (if cur = 0 then Some (0, m)
      else if blk_used m cur = 0 \<and> req \<le> blk_size m cur then
        (let m' = (if req + HDR_SIZE + 8 \<le> blk_size m cur then split_block req cur m else m)
         in Some (cur + HDR_SIZE, set_used cur MEM_USED m'))
      else kmalloc_loop req m (blk_next m cur))"

definition align8 :: "u32 \<Rightarrow> u32" where
  "align8 req = (req + 7) AND NOT 7"

definition kmalloc :: "u32 \<Rightarrow> ('d, 'z) heap_st_scheme \<Rightarrow> (u32 \<times> ('d, 'z) heap_st_scheme) option" where
  "kmalloc req s =
     (if req = 0 then Some (0, s)
      else map_option (\<lambda>(p, m). (p, s\<lparr>mem := m\<rparr>)) (kmalloc_loop (align8 req) (mem s) (heap_head s)))"

definition kfree_mem :: "u32 \<Rightarrow> memory \<Rightarrow> memory" where
  "kfree_mem ptr m =
     (if ptr = 0 then m
      else let blk = ptr - HDR_SIZE in
      if blk_magic m blk \<noteq> BLOCK_MAGIC then m
      else
       (let m = set_used blk MEM_FREE m;
            m = (if blk_next m blk \<noteq> 0 \<and> blk_used m (blk_next m blk) = 0 then
                   (let m = set_size blk (blk_size m blk + (HDR_SIZE + blk_size m (blk_next m blk))) m;
                        m = set_next blk (blk_next m (blk_next m blk)) m
                    in if blk_next m blk \<noteq> 0 then set_prev (blk_next m blk) blk m else m)
                 else m)
        in if blk_prev m blk \<noteq> 0 \<and> blk_used m (blk_prev m blk) = 0 then
             (let m = set_size (blk_prev m blk)
                        (blk_size m (blk_prev m blk) + (HDR_SIZE + blk_size m blk)) m;
                  m = set_next (blk_prev m blk) (blk_next m blk) m
              in if blk_next m blk \<noteq> 0 then set_prev (blk_next m blk) (blk_prev m blk) m else m)
           else m))"

definition kfree :: "u32 \<Rightarrow> ('d, 'z) heap_st_scheme \<Rightarrow> ('d, 'z) heap_st_scheme" where
  "kfree ptr s = s\<lparr>mem := kfree_mem ptr (mem s)\<rparr>"

partial_function (option) memory_stats_loop :: "memory \<Rightarrow> u32 \<Rightarrow> u32 \<Rightarrow> u32 \<Rightarrow> (u32 \<times> u32) option" where
  "memory_stats_loop m cur used free_bytes =
     (if cur = 0 then Some (used, free_bytes)
      else if blk_used m cur \<noteq> 0
        then memory_stats_loop m (blk_next m cur) (used + blk_size m cur) free_bytes
        else memory_stats_loop m (blk_next m cur) used (free_bytes + blk_size m cur))"

definition memory_stats :: "('d, 'z) heap_st_scheme \<Rightarrow> (u32 \<times> u32) option" where
  "memory_stats s = memory_stats_loop (mem s) (heap_head s) 0 0"

section \<open>The specification: a list of blocks\<close>

type_synonym blk = "nat \<times> bool"

fun blocks_end :: "nat \<Rightarrow> blk list \<Rightarrow> nat" where
  "blocks_end a [] = a"
| "blocks_end a ((sz, u) # bs) = blocks_end (a + 20 + sz) bs"

fun last_hdr :: "nat \<Rightarrow> nat \<Rightarrow> blk list \<Rightarrow> nat" where
  "last_hdr a p [] = p"
| "last_hdr a p ((sz, u) # bs) = last_hdr (a + 20 + sz) a bs"

fun hdr_bytes :: "nat \<Rightarrow> blk list \<Rightarrow> nat set" where
  "hdr_bytes a [] = {}"
| "hdr_bytes a ((sz, u) # bs) = {a..<a + 20} \<union> hdr_bytes (a + 20 + sz) bs"

definition hdr_at :: "memory \<Rightarrow> nat \<Rightarrow> nat \<Rightarrow> bool \<Rightarrow> nat \<Rightarrow> nat \<Rightarrow> bool" where
  "hdr_at m a sz u nx pv \<longleftrightarrow>
     rd32 m a = BLOCK_MAGIC \<and> rd32 m (a + 4) = of_nat sz \<and> m (a + 8) = (if u then 1 else 0) \<and>
     rd32 m (a + 12) = of_nat nx \<and> rd32 m (a + 16) = of_nat pv"

text \<open>
  \<open>seg m a p bs n\<close>: the blocks \<open>bs\<close> lie back to back from address \<open>a\<close>, the first one's \<open>prev\<close> is
  \<open>p\<close> and the last one's \<open>next\<close> is \<open>n\<close>.
\<close>

fun seg :: "memory \<Rightarrow> nat \<Rightarrow> nat \<Rightarrow> blk list \<Rightarrow> nat \<Rightarrow> bool" where
  "seg m a p [] n \<longleftrightarrow> True"
| "seg m a p ((sz, u) # bs) n \<longleftrightarrow>
     hdr_at m a sz u (if bs = [] then n else a + 20 + sz) p \<and> seg m (a + 20 + sz) a bs n"

text \<open>The heap of state \<open>s\<close> consists of the blocks \<open>bs\<close>, which fill the heap region exactly.\<close>

definition heap_rep :: "('d, 'z) heap_st_scheme \<Rightarrow> blk list \<Rightarrow> bool" where
  "heap_rep s bs \<longleftrightarrow>
     heap_head s = of_nat HEAP_START \<and> bs \<noteq> [] \<and> seg (mem s) HEAP_START 0 bs 0 \<and>
     blocks_end HEAP_START bs = HEAP_END"

fun alloc_spec :: "nat \<Rightarrow> nat \<Rightarrow> blk list \<Rightarrow> (nat \<times> blk list) option" where
  "alloc_spec n a [] = None"
| "alloc_spec n a ((sz, u) # bs) =
     (if \<not> u \<and> n \<le> sz
      then Some (a + 20, if n + 28 \<le> sz then (n, True) # (sz - n - 20, False) # bs else (sz, True) # bs)
      else map_option (\<lambda>(q, bs'). (q, (sz, u) # bs')) (alloc_spec n (a + 20 + sz) bs))"

fun merge_right :: "nat \<Rightarrow> blk list \<Rightarrow> blk list" where
  "merge_right sz [] = [(sz, False)]"
| "merge_right sz ((sz', u') # bs) =
     (if u' then (sz, False) # (sz', u') # bs else (sz + 20 + sz', False) # bs)"

text \<open>Releasing the block of size \<open>sz\<close> between \<open>pre\<close> and \<open>post\<close>.\<close>

definition free_spec :: "blk list \<Rightarrow> nat \<Rightarrow> blk list \<Rightarrow> blk list" where
  "free_spec pre sz post =
     (let r = merge_right sz post
      in if pre \<noteq> [] \<and> \<not> snd (last pre)
         then butlast pre @ (fst (last pre) + 20 + fst (hd r), False) # tl r
         else pre @ r)"

definition used_bytes :: "blk list \<Rightarrow> nat" where
  "used_bytes bs = sum_list (map fst (filter snd bs))"

definition free_bytes :: "blk list \<Rightarrow> nat" where
  "free_bytes bs = sum_list (map fst (filter (\<lambda>b. \<not> snd b) bs))"

fun coalesced :: "blk list \<Rightarrow> bool" where
  "coalesced (b # b' # bs) \<longleftrightarrow> (snd b \<or> snd b') \<and> coalesced (b' # bs)"
| "coalesced bs \<longleftrightarrow> True"

section \<open>Layout lemmas\<close>

lemma blocks_end_eq: "blocks_end a bs = a + sum_list (map (\<lambda>b. 20 + fst b) bs)"
  by (induction a bs rule: blocks_end.induct) simp_all

lemma blocks_end_append [simp]: "blocks_end a (xs @ ys) = blocks_end (blocks_end a xs) ys"
  by (induction a xs rule: blocks_end.induct) simp_all

lemma blocks_end_ge: "a \<le> blocks_end a bs"
  by (simp add: blocks_end_eq)

lemma last_hdr_append [simp]:
  "last_hdr a p (xs @ ys) = last_hdr (blocks_end a xs) (last_hdr a p xs) ys"
  by (induction a p xs rule: last_hdr.induct) simp_all

lemma hdr_bytes_append [simp]: "hdr_bytes a (xs @ ys) = hdr_bytes a xs \<union> hdr_bytes (blocks_end a xs) ys"
  by (induction a xs rule: hdr_bytes.induct) auto

lemma hdr_bytes_bounds: "hdr_bytes a bs \<subseteq> {a..<blocks_end a bs}"
proof (induction a bs rule: hdr_bytes.induct)
  case (1 a)
  then show ?case by simp
next
  case (2 a sz u bs)
  have "a + 20 \<le> blocks_end (a + 20 + sz) bs"
    using blocks_end_ge [of "a + 20 + sz" bs] by linarith
  with 2 show ?case by auto
qed

lemma hdr_bytes_below: "k \<in> hdr_bytes a xs \<Longrightarrow> blocks_end a xs \<le> b \<Longrightarrow> k \<notin> hdr_bytes b ys"
  using hdr_bytes_bounds [of a xs] hdr_bytes_bounds [of b ys] by fastforce

lemma hdr_at_cong: "(\<And>k. k \<in> {a..<a + 20} \<Longrightarrow> m' k = m k) \<Longrightarrow> hdr_at m' a sz u nx pv = hdr_at m a sz u nx pv"
  by (simp add: hdr_at_def rd32_def)

lemma seg_cong: "(\<And>k. k \<in> hdr_bytes a bs \<Longrightarrow> m' k = m k) \<Longrightarrow> seg m' a p bs n = seg m a p bs n"
proof (induction m a p bs n rule: seg.induct)
  case (1 m a p n)
  then show ?case by simp
next
  case (2 m a p sz u bs n)
  then have "hdr_at m' a sz u nx p = hdr_at m a sz u nx p" for nx
    by (intro hdr_at_cong) simp
  with 2 show ?case by simp
qed

lemma seg_append:
  "seg m a p (xs @ ys) n \<longleftrightarrow>
     seg m a p xs (if ys = [] then n else blocks_end a xs) \<and>
     seg m (blocks_end a xs) (last_hdr a p xs) ys n"
  by (induction m a p xs n rule: seg.induct) auto

text \<open>Redirecting the \<open>prev\<close> field of the first block.\<close>

lemma seg_set_prev:
  "seg m a p bs n \<Longrightarrow> bs \<noteq> [] \<Longrightarrow> seg (wr32 m (a + 16) (of_nat q)) a q bs n"
proof (cases bs)
  case (Cons b bs')
  obtain sz u where b: "b = (sz, u)" by (cases b)
  assume s: "seg m a p bs n"
  have "seg (wr32 m (a + 16) (of_nat q)) (a + 20 + sz) a bs' n = seg m (a + 20 + sz) a bs' n"
    using hdr_bytes_bounds [of "a + 20 + sz" bs'] by (intro seg_cong wr32_apply_other) auto
  then show ?thesis using s Cons b by (simp add: hdr_at_def mem_simps)
qed simp


section \<open>Pointers into the heap\<close>

lemma unat_of_nat_u32 [simp]: "a < 2 ^ 32 \<Longrightarrow> unat (of_nat a :: u32) = a"
  by (simp add: unat_of_nat)

lemma of_nat_u32_eq_0: "a < 2 ^ 32 \<Longrightarrow> (of_nat a :: u32) = 0 \<longleftrightarrow> a = 0"
  by (simp only: word_unat_eq_iff [of "of_nat a"] unat_of_nat_u32 unat_0)

lemma wr32_cong_at: "m' k = m k \<Longrightarrow> wr32 m' a v k = wr32 m a v k"
  by (simp add: wr32_def)

text \<open>Writing a field of the header at \<open>b\<close> does not touch a byte outside that header.\<close>

definition outside :: "nat \<Rightarrow> nat \<Rightarrow> bool" where
  "outside k b \<longleftrightarrow> k < b \<or> b + 20 \<le> k"

lemma outside_writes:
  assumes "outside k b"
  shows "wr32 m b v k = m k" "wr32 m (b + 4) v k = m k" "(m(b + 8 := w)) k = m k"
    "wr32 m (b + 12) v k = m k" "wr32 m (b + 16) v k = m k"
  using assms by (auto simp: outside_def wr32_def)

section \<open>Allocation\<close>

text \<open>The memory after splitting and marking the block at \<open>a\<close>, with the field reads done; the
  new header is at \<open>nb\<close> and \<open>nx\<close> is the block after it, or 0.\<close>

definition split_mem :: "memory \<Rightarrow> nat \<Rightarrow> nat \<Rightarrow> nat \<Rightarrow> nat \<Rightarrow> nat \<Rightarrow> memory" where
  "split_mem m a n nb rest nx =
     (let m = wr32 m nb BLOCK_MAGIC;
          m = wr32 m (nb + 4) (of_nat rest);
          m = m(nb + 8 := 0);
          m = wr32 m (nb + 12) (of_nat nx);
          m = wr32 m (nb + 16) (of_nat a);
          m = (if nx \<noteq> 0 then wr32 m (nx + 16) (of_nat nb) else m);
          m = wr32 m (a + 12) (of_nat nb)
      in (wr32 m (a + 4) (of_nat n))(a + 8 := 1))"

lemma split_block_eq:
  assumes h: "hdr_at m a sz u nx pv" and fit: "n + 28 \<le> sz" and top: "a + 20 + sz < 2 ^ 32"
    and nx: "nx = 0 \<or> nx = a + 20 + sz" and nb: "nb = a + 20 + n"
  shows "set_used (of_nat a) MEM_USED (split_block (of_nat n) (of_nat a) m) =
    split_mem m a n nb (sz - n - 20) nx"
proof -
  have a: "unat (of_nat a :: u32) = a" using top by simp
  have nbw: "(of_nat a + 20 + of_nat n :: u32) = of_nat nb" by (simp add: nb)
  have unb: "unat (of_nat nb :: u32) = nb" using fit top nb by (intro unat_of_nat_u32) simp
  have unx: "unat (of_nat nx :: u32) = nx" using nx top by (intro unat_of_nat_u32) auto
  have nx0: "(of_nat nx :: u32) = 0 \<longleftrightarrow> nx = 0" using nx top by (intro of_nat_u32_eq_0) auto
  have rest: "(of_nat sz - of_nat n - 20 :: u32) = of_nat (sz - n - 20)" using fit by simp
  have below: "a + 20 \<le> nb" using nb by simp
  have f: "rd32 m (a + 4) = of_nat sz" "rd32 m (a + 12) = of_nat nx"
    using h by (auto simp: hdr_at_def)
  have r1: "rd32 (wr32 m nb v) (a + 4) = of_nat sz" for v
    using below f by (simp add: mem_simps)
  have r2: "rd32 ((wr32 (wr32 m nb v) (nb + 4) v1)(nb + 8 := w)) (a + 12) = of_nat nx" for v v1 w
    using below f by (simp add: mem_simps)
  have r3: "rd32 (wr32 (wr32 ((wr32 (wr32 m nb v) (nb + 4) v1)(nb + 8 := w)) (nb + 12) v2)
      (nb + 16) v3) (a + 12) = of_nat nx" for v v1 v2 v3 w
    using below f by (simp add: mem_simps)
  show ?thesis
    unfolding split_block_def split_mem_def Let_def blk_defs nbw a unb r1 r2 r3 unx nx0 rest
    by simp
qed

lemma split_mem_frame:
  assumes "outside k a" "outside k nb" "nx \<noteq> 0 \<Longrightarrow> outside k nx"
  shows "split_mem m a n nb rest nx k = m k"
  using assms by (cases "nx = 0") (simp_all add: split_mem_def Let_def outside_writes del: fun_upd_apply)

lemma split_mem_seg:
  assumes s: "seg m a p ((sz, False) # post) 0" and fit: "n + 28 \<le> sz" and "0 < a"
    and nx: "nx = (if post = [] then 0 else a + 20 + sz)" and nb: "nb = a + 20 + n"
    and rest: "rest = sz - n - 20"
  shows "seg (split_mem m a n nb rest nx) a p ((n, True) # (rest, False) # post) 0"
proof -
  let ?m = "split_mem m a n nb rest nx"
  have nxt: "nb + 20 + rest = a + 20 + sz" using fit nb rest by simp
  have ord: "a + 20 \<le> nb" "nx \<noteq> 0 \<Longrightarrow> nb + 20 \<le> nx" using nb nx fit by auto
  from s have h: "hdr_at m a sz False nx p" using nx by (auto split: if_splits)
  have "hdr_at ?m a n True nb p"
    using h ord by (cases "nx = 0") (simp_all add: hdr_at_def split_mem_def Let_def mem_simps)
  moreover have "hdr_at ?m nb rest False nx a"
    using ord by (cases "nx = 0") (simp_all add: hdr_at_def split_mem_def Let_def mem_simps)
  moreover have "seg ?m (a + 20 + sz) nb post 0"
  proof (cases "post = []")
    case False
    then have nx': "nx = a + 20 + sz" "nx \<noteq> 0" using nx by auto
    let ?w = "wr32 m (nx + 16) (of_nat nb)"
    have "seg ?w nx nb post 0"
      using s False nx' by (intro seg_set_prev [where p = a]) auto
    moreover have "?m k = ?w k" if "k \<in> hdr_bytes nx post" for k
    proof -
      have "nx \<le> k" using that hdr_bytes_bounds by fastforce
      with ord nx' have o: "outside k a" "outside k nb" by (auto simp: outside_def)
      then show ?thesis using nx'
        by (simp add: split_mem_def Let_def outside_writes del: fun_upd_apply)
          (intro wr32_cong_at, simp add: outside_writes del: fun_upd_apply)
    qed
    ultimately show ?thesis using seg_cong [of nx post ?m ?w nb 0] nx' by simp
  qed simp
  ultimately show ?thesis
    unfolding seg.simps nb [symmetric] nxt nx by simp
qed

lemma mark_used_seg:
  assumes "seg m a p ((sz, u) # post) n"
  shows "seg (m(a + 8 := 1)) a p ((sz, True) # post) n"
proof -
  have "seg (m(a + 8 := 1)) (a + 20 + sz) a post n = seg m (a + 20 + sz) a post n"
    using hdr_bytes_bounds [of "a + 20 + sz" post] by (intro seg_cong) auto
  then show ?thesis using assms by (simp add: hdr_at_def mem_simps)
qed

text \<open>One step of the search, at a block of the list.\<close>

lemma kmalloc_step:
  assumes s: "seg m a p ((sz, u) # bs) 0" "28 \<le> a" "blocks_end a ((sz, u) # bs) < 2 ^ 32" and n: "n < 2 ^ 32"
  shows "kmalloc_loop (of_nat n) m (of_nat a) =
    (if u \<or> \<not> n \<le> sz then kmalloc_loop (of_nat n) m (of_nat (if bs = [] then 0 else a + 20 + sz))
     else Some (of_nat (a + 20), if n + 28 \<le> sz then split_mem m a n (a + 20 + n) (sz - n - 20) (if bs = [] then 0 else a + 20 + sz)
                                 else m(a + 8 := 1)))"
proof -
  let ?nx = "if bs = [] then 0 else a + 20 + sz"
  have top: "a + 20 + sz < 2 ^ 32" using s(3) blocks_end_ge [of "a + 20 + sz" bs] by simp
  then have a: "unat (of_nat a :: u32) = a" and a0: "(of_nat a :: u32) \<noteq> 0"
    using s(2) of_nat_u32_eq_0 [of a] by auto
  have szw: "unat (of_nat sz :: u32) = sz" and nw: "unat (of_nat n :: u32) = n"
    using top n by (auto intro: unat_of_nat_u32)
  have nle: "(of_nat n :: u32) \<le> of_nat sz \<longleftrightarrow> n \<le> sz"
    by (simp add: word_le_nat_alt szw nw)
  have nle28: "(of_nat n + HDR_SIZE + 8 :: u32) \<le> of_nat sz \<longleftrightarrow> n + 28 \<le> sz" if "n \<le> sz"
  proof -
    have "(of_nat n + HDR_SIZE + 8 :: u32) = of_nat (n + 28)" by simp
    moreover have "unat (of_nat (n + 28) :: u32) = n + 28" using that top s(2) by (intro unat_of_nat_u32) simp
    ultimately show ?thesis by (simp only: word_le_nat_alt szw)
  qed
  from s(1) have h: "hdr_at m a sz u ?nx p" by auto
  then have fields: "blk_size m (of_nat a) = of_nat sz" "blk_next m (of_nat a) = of_nat ?nx" "blk_used m (of_nat a) = 0 \<longleftrightarrow> \<not> u"
    by (auto simp: hdr_at_def blk_defs a)
  have split: "set_used (of_nat a) MEM_USED (split_block (of_nat n) (of_nat a) m) = split_mem m a n (a + 20 + n) (sz - n - 20) ?nx"
    if "n + 28 \<le> sz" "\<not> u" using h that top by (intro split_block_eq) auto
  show ?thesis
  proof (cases "u \<or> \<not> n \<le> sz")
    case True
    then show ?thesis using a0 fields nle by (subst kmalloc_loop.simps) auto
  next
    case False
    then show ?thesis using a0 fields nle nle28 split by (simp add: kmalloc_loop.simps set_used_def a)
  qed
qed

text \<open>The block before a suffix that was allocated from stays as it is.\<close>

lemma alloc_spec_before:
  assumes s: "seg m a p ((sz, u) # bs) 0" and r: "alloc_spec n (a + 20 + sz) bs = Some (q, bs')" and s': "seg m' (a + 20 + sz) a bs' 0"
    and f: "\<And>k. k \<notin> hdr_bytes (a + 20 + sz) bs' \<Longrightarrow> m' k = m k"
  shows "seg m' a p ((sz, u) # bs') 0"
proof -
  let ?nx = "if bs = [] then 0 else a + 20 + sz"
  have same: "m' k = m k" if "k < a + 20 + sz" for k
    using f that hdr_bytes_bounds [of "a + 20 + sz" bs'] by fastforce
  have "hdr_at m' a sz u ?nx p = hdr_at m a sz u ?nx p" by (intro hdr_at_cong same) simp
  moreover have "bs' = [] \<longleftrightarrow> bs = []"
    using r by (cases "(n, a + 20 + sz, bs)" rule: alloc_spec.cases) (auto split: if_splits)
  ultimately show ?thesis using s s' by auto
qed

text \<open>What the search does to the suffix of the block list it starts at.\<close>

lemma kmalloc_loop_refines:
  assumes "seg m a p bs 0" "28 \<le> a" "blocks_end a bs < 2 ^ 32" and n: "n < 2 ^ 32"
  shows "\<exists>ptr m'. kmalloc_loop (of_nat n) m (of_nat (if bs = [] then 0 else a)) = Some (ptr, m') \<and>
    (case alloc_spec n a bs of
       None \<Rightarrow> ptr = 0 \<and> m' = m
     | Some (q, bs') \<Rightarrow> ptr = of_nat q \<and> seg m' a p bs' 0 \<and>
         (\<forall>k. k \<notin> hdr_bytes a bs' \<longrightarrow> m' k = m k))"
  using assms(1-3)
proof (induction bs arbitrary: a p)
  case Nil
  then show ?case by (simp add: kmalloc_loop.simps)
next
  case (Cons b bs)
  obtain sz u where b: "b = (sz, u)" by (cases b)
  let ?nx = "if bs = [] then 0 else a + 20 + sz"
  note step = kmalloc_step [OF Cons.prems [unfolded b] n]
  consider (split) "\<not> u" "n + 28 \<le> sz" | (whole) "\<not> u" "n \<le> sz" "\<not> n + 28 \<le> sz" | (walk) "u \<or> \<not> n \<le> sz" by linarith
  then show ?case
  proof cases
    case split
    let ?m = "split_mem m a n (a + 20 + n) (sz - n - 20) ?nx"
    have "seg ?m a p ((n, True) # (sz - n - 20, False) # bs) 0"
      using Cons.prems b split by (intro split_mem_seg) auto
    moreover have "?m k = m k" if "k \<notin> hdr_bytes a ((n, True) # (sz - n - 20, False) # bs)" for k
      using that split by (intro split_mem_frame) (cases bs; auto simp: outside_def)+
    ultimately show ?thesis using split b step by simp
  next
    case whole
    have "seg (m(a + 8 := 1)) a p ((sz, True) # bs) 0" using Cons.prems(1) b by (intro mark_used_seg [where u = u]) simp
    then show ?thesis using whole b step by simp
  next
    case walk
    obtain ptr m' where IH: "kmalloc_loop (of_nat n) m (of_nat ?nx) = Some (ptr, m')"
      "case alloc_spec n (a + 20 + sz) bs of
         None \<Rightarrow> ptr = 0 \<and> m' = m
       | Some (q, bs') \<Rightarrow> ptr = of_nat q \<and> seg m' (a + 20 + sz) a bs' 0 \<and>
           (\<forall>k. k \<notin> hdr_bytes (a + 20 + sz) bs' \<longrightarrow> m' k = m k)"
      using Cons.IH [of "a + 20 + sz" a] Cons.prems b by auto
    then show ?thesis using step walk b alloc_spec_before [OF Cons.prems(1) [unfolded b], of n _ _ m']
      by (cases "alloc_spec n (a + 20 + sz) bs") auto
  qed
qed

lemma alloc_spec_blocks_end:
  "alloc_spec n a bs = Some (q, bs') \<Longrightarrow> blocks_end a bs' = blocks_end a bs \<and> bs' \<noteq> []"
proof (induction n a bs arbitrary: bs' rule: alloc_spec.induct)
  case (1 n a)
  then show ?case by simp
next
  case (2 n a sz u bs)
  then show ?case by (auto simp: ac_simps split: if_splits)
qed

text \<open>The payload ranges \<open>(start, size)\<close> of the blocks in use.\<close>

fun used_at :: "nat \<Rightarrow> blk list \<Rightarrow> (nat \<times> nat) set" where
  "used_at a [] = {}"
| "used_at a ((sz, u) # bs) = (if u then {(a + 20, sz)} else {}) \<union> used_at (a + 20 + sz) bs"

lemma used_at_append [simp]: "used_at a (xs @ ys) = used_at a xs \<union> used_at (blocks_end a xs) ys"
  by (induction a xs rule: used_at.induct) auto

lemma used_at_bounds: "(q, sz) \<in> used_at a bs \<Longrightarrow> a + 20 \<le> q \<and> q + sz \<le> blocks_end a bs"
proof (induction a bs rule: used_at.induct)
  case (1 a)
  then show ?case by simp
next
  case (2 a sz' u bs)
  then show ?case using blocks_end_ge [of "a + 20 + sz'" bs] by (auto split: if_splits)
qed

lemma used_at_not_hdr: "(q, sz) \<in> used_at a bs \<Longrightarrow> k \<in> {q..<q + sz} \<Longrightarrow> k \<notin> hdr_bytes a bs"
proof (induction a bs rule: used_at.induct)
  case (1 a)
  then show ?case by simp
next
  case (2 a sz' u bs)
  show ?case
  proof (cases "(q, sz) \<in> used_at (a + 20 + sz') bs")
    case True
    then have "k \<notin> hdr_bytes (a + 20 + sz') bs" using "2.IH" "2.prems" by blast
    with used_at_bounds [OF True] "2.prems" show ?thesis by auto
  next
    case False
    with "2.prems" have "q = a + 20" "sz = sz'" by (auto split: if_splits)
    with "2.prems" hdr_bytes_bounds [of "a + 20 + sz'" bs] show ?thesis by auto
  qed
qed

text \<open>Two ranges of blocks in use never overlap.\<close>

lemma used_at_disjoint:
  "(q, sz) \<in> used_at a bs \<Longrightarrow> (q', sz') \<in> used_at a bs \<Longrightarrow> (q, sz) \<noteq> (q', sz') \<Longrightarrow>
   {q..<q + sz} \<inter> {q'..<q' + sz'} = {}"
proof (induction a bs rule: used_at.induct)
  case (1 a)
  then show ?case by simp
next
  case (2 a s u bs)
  have lo: "a + 20 + s \<le> r" if "(r, t) \<in> used_at (a + 20 + s) bs" for r t
    using used_at_bounds [OF that] by simp
  show ?case
    using 2 lo [of q sz] lo [of q' sz'] by (auto split: if_splits)
qed

lemma alloc_spec_used_at:
  "alloc_spec n a bs = Some (q, bs') \<Longrightarrow>
   \<exists>sz \<ge> n. used_at a bs' = insert (q, sz) (used_at a bs) \<and> (q, sz) \<notin> used_at a bs"
proof (induction n a bs arbitrary: bs' rule: alloc_spec.induct)
  case (1 n a)
  then show ?case by simp
next
  case (2 n a sz u bs)
  have fresh: "(a + 20, t) \<notin> used_at (a + 20 + sz) bs" for t
    using used_at_bounds [of "a + 20" t "a + 20 + sz" bs] by auto
  show ?case
  proof (cases "\<not> u \<and> n \<le> sz")
    case True
    then show ?thesis
      using "2.prems" fresh
      by (cases "n + 28 \<le> sz") (auto simp: ac_simps intro: exI [of _ n] exI [of _ sz])
  next
    case False
    with "2.prems" obtain bs1 where r: "alloc_spec n (a + 20 + sz) bs = Some (q, bs1)"
      "bs' = (sz, u) # bs1"
      by (auto split: if_splits)
    obtain t where t: "n \<le> t" "used_at (a + 20 + sz) bs1 = insert (q, t) (used_at (a + 20 + sz) bs)"
      "(q, t) \<notin> used_at (a + 20 + sz) bs"
      using "2.IH" False r by blast
    have "(q, t) \<in> used_at (a + 20 + sz) bs1" using t by simp
    then have "a + 20 + sz + 20 \<le> q" using used_at_bounds by blast
    then show ?thesis using t r by (auto intro: exI [of _ t])
  qed
qed

lemma alloc_spec_None: "alloc_spec n a bs = None \<longleftrightarrow> (\<forall>(sz, u) \<in> set bs. u \<or> sz < n)"
  by (induction n a bs rule: alloc_spec.induct) (auto split: if_splits)

section \<open>Release\<close>

text \<open>Merging the block at \<open>a\<close> with its successor: the size, the \<open>next\<close> field and the back
  pointer of the block after both.\<close>

definition merge_mem :: "memory \<Rightarrow> nat \<Rightarrow> nat \<Rightarrow> nat \<Rightarrow> memory" where
  "merge_mem m a sz nx =
     (let m = wr32 m (a + 4) (of_nat sz);
          m = wr32 m (a + 12) (of_nat nx)
      in if nx \<noteq> 0 then wr32 m (nx + 16) (of_nat a) else m)"

lemma merge_mem_frame:
  assumes "outside k a" "nx \<noteq> 0 \<Longrightarrow> outside k nx"
  shows "merge_mem m a sz nx k = m k"
  using assms by (cases "nx = 0") (simp_all add: merge_mem_def Let_def outside_writes)

lemma merge_mem_seg:
  assumes s: "seg m a p ((sz, u) # (sz', u') # post) 0"
    and nx: "nx = (if post = [] then 0 else a + 20 + sz + 20 + sz')"
  shows "seg (merge_mem m a (sz + 20 + sz') nx) a p ((sz + 20 + sz', u) # post) 0"
proof -
  let ?m = "merge_mem m a (sz + 20 + sz') nx"
  have ord: "nx \<noteq> 0 \<Longrightarrow> a + 40 \<le> nx" using nx by auto
  from s have "hdr_at m a sz u (a + 20 + sz) p" by simp
  then have "hdr_at ?m a (sz + 20 + sz') u nx p"
    using ord by (cases "nx = 0") (simp_all add: hdr_at_def merge_mem_def Let_def mem_simps)
  moreover have "seg ?m (a + 20 + (sz + 20 + sz')) a post 0"
  proof (cases "post = []")
    case False
    then have nx': "nx = a + 20 + sz + 20 + sz'" "nx \<noteq> 0" using nx by auto
    let ?w = "wr32 m (nx + 16) (of_nat a)"
    have "seg ?w nx a post 0"
      using s False nx' by (intro seg_set_prev [where p = "a + 20 + sz"]) (auto split: if_splits)
    moreover have "?m k = ?w k" if "k \<in> hdr_bytes nx post" for k
    proof -
      have "nx \<le> k" using that hdr_bytes_bounds by fastforce
      with ord nx' have o: "outside k a" by (auto simp: outside_def)
      then show ?thesis using nx'
        by (simp add: merge_mem_def Let_def) (intro wr32_cong_at, simp add: outside_writes)
    qed
    ultimately show ?thesis using seg_cong [of nx post ?m ?w a 0] nx' by (simp add: ac_simps)
  qed simp
  moreover have "(if post = [] then 0 else a + 20 + (sz + 20 + sz')) = nx" using nx by simp
  ultimately show ?thesis by (simp only: seg.simps)
qed

lemma mark_free_seg:
  assumes "seg m a p ((sz, u) # post) n"
  shows "seg (m(a + 8 := 0)) a p ((sz, False) # post) n"
proof -
  have "seg (m(a + 8 := 0)) (a + 20 + sz) a post n = seg m (a + 20 + sz) a post n"
    using hdr_bytes_bounds [of "a + 20 + sz" post] by (intro seg_cong) auto
  then show ?thesis using assms by (simp add: hdr_at_def mem_simps)
qed

text \<open>The two halves of \<open>kfree\<close>: merging the block at \<open>blk\<close> with its successor, then its
  predecessor with it.\<close>

definition merge_next :: "u32 \<Rightarrow> memory \<Rightarrow> memory" where
  "merge_next blk m =
     (if blk_next m blk \<noteq> 0 \<and> blk_used m (blk_next m blk) = 0 then
        (let m = set_size blk (blk_size m blk + (HDR_SIZE + blk_size m (blk_next m blk))) m;
             m = set_next blk (blk_next m (blk_next m blk)) m
         in if blk_next m blk \<noteq> 0 then set_prev (blk_next m blk) blk m else m)
      else m)"

definition merge_prev :: "u32 \<Rightarrow> memory \<Rightarrow> memory" where
  "merge_prev blk m =
     (if blk_prev m blk \<noteq> 0 \<and> blk_used m (blk_prev m blk) = 0 then
        (let m = set_size (blk_prev m blk) (blk_size m (blk_prev m blk) + (HDR_SIZE + blk_size m blk)) m;
             m = set_next (blk_prev m blk) (blk_next m blk) m
         in if blk_next m blk \<noteq> 0 then set_prev (blk_next m blk) (blk_prev m blk) m else m)
      else m)"

lemma kfree_mem_eq:
  "kfree_mem ptr m =
     (if ptr = 0 \<or> blk_magic m (ptr - HDR_SIZE) \<noteq> BLOCK_MAGIC then m
      else merge_prev (ptr - HDR_SIZE) (merge_next (ptr - HDR_SIZE) (set_used (ptr - HDR_SIZE) MEM_FREE m)))"
  by (cases "ptr = 0"; cases "blk_magic m (ptr - HDR_SIZE) = BLOCK_MAGIC")
    (simp_all only: kfree_mem_def merge_next_def merge_prev_def Let_def if_True if_False simp_thms)

lemma merge_next_eq:
  assumes s: "seg m a p ((sz, False) # post) 0" and top: "blocks_end a ((sz, False) # post) < 2 ^ 32"
  shows "merge_next (of_nat a) m =
    (case post of
       (sz', False) # post' \<Rightarrow>
         merge_mem m a (sz + 20 + sz') (if post' = [] then 0 else a + 20 + sz + 20 + sz')
     | _ \<Rightarrow> m)"
proof (cases post)
  case Nil
  have "a < 2 ^ 32" using top blocks_end_ge [of "a + 20 + sz" post] by simp
  then show ?thesis using s Nil by (simp add: merge_next_def hdr_at_def blk_defs)
next
  case (Cons b post')
  obtain sz' u' where b: "b = (sz', u')" by (cases b)
  define nb where "nb = a + 20 + sz"
  define nx where "nx = (if post' = [] then 0 else nb + 20 + sz')"
  have hi: "nb + 20 + sz' < 2 ^ 32"
    using top Cons b blocks_end_ge [of "a + 20 + sz + 20 + sz'" post'] by (simp add: nb_def)
  have lt: "a < 2 ^ 32" "nb < 2 ^ 32" "nx < 2 ^ 32" "0 < nb" using hi by (auto simp: nb_def nx_def)
  then have w: "unat (of_nat a :: u32) = a" "unat (of_nat nb :: u32) = nb" "unat (of_nat nx :: u32) = nx"
    "(of_nat nb :: u32) \<noteq> 0" "(of_nat nx :: u32) = 0 \<longleftrightarrow> nx = 0"
    using of_nat_u32_eq_0 [of nb] of_nat_u32_eq_0 [of nx] by simp_all
  have h: "hdr_at m a sz False nb p" "hdr_at m nb sz' u' nx a"
    using s Cons b by (auto simp: nb_def nx_def)
  have f: "rd32 m (a + 4) = of_nat sz" "rd32 m (a + 12) = of_nat nb" "rd32 m (nb + 4) = of_nat sz'"
    "rd32 m (nb + 12) = of_nat nx" "m (nb + 8) = (if u' then 1 else 0)"
    using h by (auto simp: hdr_at_def)
  have ord: "a + 20 \<le> nb" by (simp add: nb_def)
  have r: "rd32 (wr32 m (a + 4) v) (a + 12) = of_nat nb" "rd32 (wr32 m (a + 4) v) (nb + 12) = of_nat nx" for v
    using f ord by (simp_all add: mem_simps)
  have sum: "of_nat sz + (20 + of_nat sz') = (of_nat (sz + 20 + sz') :: u32)" by simp
  show ?thesis
  proof (cases u')
    case True
    then show ?thesis
      unfolding merge_next_def blk_defs Let_def w f Cons b by simp
  next
    case False
    have "merge_next (of_nat a) m = merge_mem m a (sz + 20 + sz') nx"
      unfolding merge_next_def merge_mem_def blk_defs Let_def w f r sum rd32_wr32_same
      using False w by simp
    then show ?thesis using Cons b False by (simp add: nx_def nb_def)
  qed
qed

lemma merge_prev_eq:
  assumes s: "seg m a p ((sz, u) # (sz', False) # post) 0" and pos: "0 < a"
    and top: "blocks_end a ((sz, u) # (sz', False) # post) < 2 ^ 32"
    and blk: "blk = a + 20 + sz"
  shows "merge_prev (of_nat blk) m =
    (if u then m else merge_mem m a (sz + 20 + sz') (if post = [] then 0 else blk + 20 + sz'))"
proof -
  define nx where "nx = (if post = [] then 0 else blk + 20 + sz')"
  have hi: "blk + 20 + sz' < 2 ^ 32"
    using top blk blocks_end_ge [of "a + 20 + sz + 20 + sz'" post] by simp
  have lt: "a < 2 ^ 32" "blk < 2 ^ 32" "nx < 2 ^ 32" using hi blk by (auto simp: nx_def)
  then have w: "unat (of_nat a :: u32) = a" "unat (of_nat blk :: u32) = blk" "unat (of_nat nx :: u32) = nx"
    "(of_nat a :: u32) \<noteq> 0" "(of_nat nx :: u32) = 0 \<longleftrightarrow> nx = 0"
    using pos of_nat_u32_eq_0 [of a] of_nat_u32_eq_0 [of nx] by simp_all
  have h: "hdr_at m a sz u blk p" "hdr_at m blk sz' False nx a"
    using s by (auto simp: blk nx_def)
  have f: "rd32 m (a + 4) = of_nat sz" "rd32 m (blk + 4) = of_nat sz'" "rd32 m (blk + 12) = of_nat nx"
    "rd32 m (blk + 16) = of_nat a" "m (a + 8) = (if u then 1 else 0)"
    using h by (auto simp: hdr_at_def)
  have ord: "a + 20 \<le> blk" by (simp add: blk)
  have r: "rd32 (wr32 m (a + 4) v) (blk + 16) = of_nat a" "rd32 (wr32 m (a + 4) v) (blk + 12) = of_nat nx"
    "rd32 (wr32 (wr32 m (a + 4) v) (a + 12) v') (blk + 12) = of_nat nx"
    "rd32 (wr32 (wr32 m (a + 4) v) (a + 12) v') (blk + 16) = of_nat a" for v v'
    using f ord by (simp_all add: mem_simps)
  have sum: "of_nat sz + (20 + of_nat sz') = (of_nat (sz + 20 + sz') :: u32)" by simp
  show ?thesis
    unfolding merge_prev_def merge_mem_def blk_defs Let_def nx_def [symmetric] w f r sum
    using w by simp
qed

lemma merge_right_shape: "\<exists>sz1 r. merge_right sz post = (sz1, False) # r"
  by (cases "(sz, post)" rule: merge_right.cases) auto

lemma merge_right_blocks_end: "blocks_end a (merge_right sz post) = blocks_end a ((sz, u) # post)"
  by (cases "(sz, post)" rule: merge_right.cases) (auto simp: ac_simps)

lemma merge_right_hdr_bytes: "hdr_bytes a (merge_right sz post) \<subseteq> hdr_bytes a ((sz, u) # post)"
  by (cases "(sz, post)" rule: merge_right.cases) (auto simp: ac_simps)

lemma merge_next_seg:
  assumes s: "seg m a p ((sz, False) # post) 0" and top: "blocks_end a ((sz, False) # post) < 2 ^ 32"
  shows "seg (merge_next (of_nat a) m) a p (merge_right sz post) 0"
    and "k \<notin> hdr_bytes a ((sz, False) # post) \<Longrightarrow> merge_next (of_nat a) m k = m k"
proof -
  note eq = merge_next_eq [OF s top]
  consider (keep) "post = [] \<or> (\<exists>sz' post'. post = (sz', True) # post')"
    | (merge) sz' post' where "post = (sz', False) # post'"
    by (metis (full_types) list.exhaust surj_pair)
  then have "seg (merge_next (of_nat a) m) a p (merge_right sz post) 0 \<and>
    (k \<notin> hdr_bytes a ((sz, False) # post) \<longrightarrow> merge_next (of_nat a) m k = m k)"
  proof cases
    case keep
    then show ?thesis using s eq by auto
  next
    case merge
    let ?nx = "if post' = [] then 0 else a + 20 + sz + 20 + sz'"
    have eq': "merge_next (of_nat a) m = merge_mem m a (sz + 20 + sz') ?nx" using eq merge by simp
    have "seg (merge_mem m a (sz + 20 + sz') ?nx) a p ((sz + 20 + sz', False) # post') 0"
      using s unfolding merge by (rule merge_mem_seg) simp
    moreover have "merge_mem m a (sz + 20 + sz') ?nx k = m k" if "k \<notin> hdr_bytes a ((sz, False) # post)"
      using that merge by (intro merge_mem_frame) (cases post'; auto simp: outside_def)+
    ultimately show ?thesis unfolding eq' by (simp add: merge)
  qed
  then show "seg (merge_next (of_nat a) m) a p (merge_right sz post) 0"
    and "k \<notin> hdr_bytes a ((sz, False) # post) \<Longrightarrow> merge_next (of_nat a) m k = m k" by auto
qed

definition merge_left :: "nat \<Rightarrow> bool \<Rightarrow> nat \<Rightarrow> blk list \<Rightarrow> blk list" where
  "merge_left sz u sz' post =
     (if u then (sz, u) # (sz', False) # post else (sz + 20 + sz', False) # post)"

lemma merge_prev_seg:
  assumes s: "seg m a p ((sz, u) # (sz', False) # post) 0" and pos: "0 < a"
    and top: "blocks_end a ((sz, u) # (sz', False) # post) < 2 ^ 32"
    and blk: "blk = a + 20 + sz"
  shows "seg (merge_prev (of_nat blk) m) a p (merge_left sz u sz' post) 0"
    and "k \<notin> hdr_bytes a ((sz, u) # (sz', False) # post) \<Longrightarrow> merge_prev (of_nat blk) m k = m k"
proof -
  let ?nx = "if post = [] then 0 else blk + 20 + sz'"
  note eq = merge_prev_eq [OF s pos top blk]
  have mm: "seg (merge_mem m a (sz + 20 + sz') ?nx) a p ((sz + 20 + sz', u) # post) 0"
    unfolding blk using s by (rule merge_mem_seg) simp
  show "seg (merge_prev (of_nat blk) m) a p (merge_left sz u sz' post) 0"
  proof (cases u)
    case True
    with s show ?thesis by (simp only: eq merge_left_def if_True)
  next
    case False
    with mm show ?thesis by (simp only: eq merge_left_def if_False)
  qed
  show "merge_prev (of_nat blk) m k = m k" if "k \<notin> hdr_bytes a ((sz, u) # (sz', False) # post)"
  proof -
    have "merge_mem m a (sz + 20 + sz') ?nx k = m k"
      using that blk by (intro merge_mem_frame) (cases post; auto simp: outside_def)+
    then show ?thesis using eq by simp
  qed
qed

lemma free_spec_snoc:
  "merge_right sz post = (sz1, False) # r \<Longrightarrow>
   free_spec (pre @ [(sz0, u0)]) sz post = pre @ merge_left sz0 u0 sz1 r"
  by (simp add: free_spec_def merge_left_def)

text \<open>Releasing the block at \<open>blk\<close>, on the suffix of the heap that starts there.\<close>

lemma kfree_mem_block:
  assumes sb: "seg m blk p ((sz, u) # post) 0" and top: "blocks_end blk ((sz, u) # post) < 2 ^ 32"
  obtains m2 where "kfree_mem (of_nat (blk + 20)) m = merge_prev (of_nat blk) m2"
    "seg m2 blk p (merge_right sz post) 0"
    "\<And>k. k \<notin> hdr_bytes blk ((sz, u) # post) \<Longrightarrow> m2 k = m k"
proof
  define m1 where "m1 = m(blk + 8 := 0)"
  have lt: "blk + 20 < 2 ^ 32" using top blocks_end_ge [of "blk + 20 + sz" post] by simp
  have top': "blocks_end blk ((sz, False) # post) < 2 ^ 32" using top by simp
  have ptr: "of_nat (blk + 20) - HDR_SIZE = (of_nat blk :: u32)" "(of_nat (blk + 20) :: u32) \<noteq> 0"
    using lt of_nat_u32_eq_0 [of "blk + 20"] by simp_all
  have magic: "blk_magic m (of_nat blk) = BLOCK_MAGIC" and ub: "unat (of_nat blk :: u32) = blk"
    using sb lt by (simp_all add: hdr_at_def blk_magic_def)
  show "kfree_mem (of_nat (blk + 20)) m = merge_prev (of_nat blk) (merge_next (of_nat blk) m1)"
    using magic unfolding kfree_mem_eq ptr(1) m1_def set_used_def ub
    by (simp add: ptr(2) del: of_nat_add)
  have s1: "seg m1 blk p ((sz, False) # post) 0"
    unfolding m1_def by (rule mark_free_seg [OF sb])
  show "seg (merge_next (of_nat blk) m1) blk p (merge_right sz post) 0"
    by (rule merge_next_seg [OF s1 top'])
  show "merge_next (of_nat blk) m1 k = m k" if "k \<notin> hdr_bytes blk ((sz, u) # post)" for k
  proof -
    have "outside k blk" using that by (auto simp: outside_def)
    then show ?thesis
      using merge_next_seg(2) [OF s1 top', of k] that outside_writes(3) [of k blk] by (simp add: m1_def)
  qed
qed

text \<open>Releasing the block after \<open>pre\<close>, on a whole heap.\<close>

lemma kfree_mem_seg:
  assumes s: "seg m a 0 (pre @ (sz, u) # post) 0" and pos: "0 < a"
    and top: "blocks_end a (pre @ (sz, u) # post) < 2 ^ 32"
  shows "seg (kfree_mem (of_nat (blocks_end a pre + 20)) m) a 0 (free_spec pre sz post) 0 \<and>
    (\<forall>k. k \<notin> hdr_bytes a (pre @ (sz, u) # post) \<longrightarrow> kfree_mem (of_nat (blocks_end a pre + 20)) m k = m k)"
proof -
  define blk where "blk = blocks_end a pre"
  have top': "blocks_end blk ((sz, u) # post) < 2 ^ 32" using top by (simp add: blk_def)
  have lt: "blk < 2 ^ 32" using top' blocks_end_ge [of "blk + 20 + sz" post] by simp
  have sb: "seg m blk (last_hdr a 0 pre) ((sz, u) # post) 0" and sp: "seg m a 0 pre blk"
    using s by (simp_all add: seg_append blk_def split: if_splits)
  obtain m2 where free: "kfree_mem (of_nat (blk + 20)) m = merge_prev (of_nat blk) m2"
    and s2: "seg m2 blk (last_hdr a 0 pre) (merge_right sz post) 0"
    and f2: "\<And>k. k \<notin> hdr_bytes blk ((sz, u) # post) \<Longrightarrow> m2 k = m k"
    using kfree_mem_block [OF sb top'] by metis
  obtain sz1 r where r: "merge_right sz post = (sz1, False) # r" using merge_right_shape by blast
  have "m2 k = m k" if "k \<in> hdr_bytes a pre" for k
    using that by (intro f2 hdr_bytes_below [of k a pre]) (simp_all add: blk_def)
  then have sp2: "seg m2 a 0 pre blk" using sp seg_cong [of a pre m2 m 0 blk] by simp
  show ?thesis
  proof (cases pre rule: rev_cases)
    case Nil
    then have "blk_prev m2 (of_nat blk) = 0" using s2 r lt by (simp add: hdr_at_def blk_defs)
    then have "merge_prev (of_nat blk) m2 = m2" by (simp add: merge_prev_def)
    then show ?thesis using free s2 f2 Nil by (simp add: blk_def free_spec_def)
  next
    case (snoc pre0 b)
    obtain sz0 u0 where b: "b = (sz0, u0)" by (cases b)
    define a0 where "a0 = blocks_end a pre0"
    have blk: "blk = a0 + 20 + sz0" by (simp add: blk_def snoc b a0_def)
    have a0: "0 < a0" using pos blocks_end_ge [of a pre0] by (simp add: a0_def)
    have s0: "seg m2 a0 (last_hdr a 0 pre0) ((sz0, u0) # (sz1, False) # r) 0" and spre0: "seg m2 a 0 pre0 a0"
      using sp2 s2 r snoc b by (simp_all add: seg_append blk a0_def)
    have top0: "blocks_end a0 ((sz0, u0) # (sz1, False) # r) < 2 ^ 32"
      using top' merge_right_blocks_end [of blk sz post u] r blk by simp
    note m3 = merge_prev_seg [OF s0 a0 top0 blk]
    let ?m3 = "merge_prev (of_nat blk) m2"
    have hb: "hdr_bytes a0 ((sz0, u0) # (sz1, False) # r) \<subseteq> {a0..<a0 + 20} \<union> hdr_bytes blk ((sz, u) # post)"
      using merge_right_hdr_bytes [of blk sz post u] r blk by auto
    have "?m3 k = m2 k" if "k \<in> hdr_bytes a pre0" for k
      using that by (intro m3(2) hdr_bytes_below [of k a pre0]) (simp_all add: a0_def)
    then have "seg ?m3 a 0 pre0 a0" using spre0 seg_cong [of a pre0 ?m3 m2 0 a0] by simp
    moreover have "merge_left sz0 u0 sz1 r \<noteq> []" by (simp add: merge_left_def)
    ultimately have "seg ?m3 a 0 (free_spec pre sz post) 0"
      using m3(1) by (simp add: snoc b free_spec_snoc [OF r] seg_append a0_def)
    moreover have "?m3 k = m k" if "k \<notin> hdr_bytes a (pre @ (sz, u) # post)" for k
    proof -
      have out: "k \<notin> hdr_bytes blk ((sz, u) # post)" "k \<notin> {a0..<a0 + 20}"
        using that snoc b by (auto simp: blk_def a0_def)
      then have "k \<notin> hdr_bytes a0 ((sz0, u0) # (sz1, False) # r)" using hb by blast
      from m3(2) [OF this] f2 [OF out(1)] show ?thesis by (rule trans)
    qed
    ultimately show ?thesis using free by (simp add: blk_def)
  qed
qed

end
