(* ===== verification/Memory_Safety.thy ===== *)
theory Memory_Safety
  imports Memory_Manager
begin

unbundle bit_operations_syntax

text \<open>
  What the allocator of \<^verbatim>\<open>kernel/memory.c\<close> promises its callers. The contract is the locale
  \<open>allocator\<close>: an allocation returns a range that is at least as long as requested, is disjoint
  from every live range and leaves their bytes alone; a release removes exactly the released range.
  \<open>kheap\<close> is its interpretation on \<^const>\<open>kmalloc\<close> and \<^const>\<open>kfree\<close>. The properties add what is
  particular to this allocator: first fit, coalescing, accounting, and the wrap-around of the size
  computation.
\<close>

section \<open>The contract\<close>

locale allocator =
  fixes rep :: "'s \<Rightarrow> 'b \<Rightarrow> bool"
    and live :: "'b \<Rightarrow> (nat \<times> nat) set"
    and alloc :: "u32 \<Rightarrow> 's \<Rightarrow> (u32 \<times> 's) option"
    and release :: "u32 \<Rightarrow> 's \<Rightarrow> 's"
    and byte_at :: "'s \<Rightarrow> nat \<Rightarrow> u8"
    and lo hi max_req :: nat
  assumes live_bounds: "rep s b \<Longrightarrow> (q, n) \<in> live b \<Longrightarrow> lo \<le> q \<and> q + n \<le> hi"
    and live_disjoint: "rep s b \<Longrightarrow> (q, n) \<in> live b \<Longrightarrow> (q', n') \<in> live b \<Longrightarrow> (q, n) \<noteq> (q', n') \<Longrightarrow>
      {q..<q + n} \<inter> {q'..<q' + n'} = {}"
    and alloc_total: "rep s b \<Longrightarrow> \<exists>p s'. alloc r s = Some (p, s')"
    and alloc_fail: "rep s b \<Longrightarrow> alloc r s = Some (0, s') \<Longrightarrow> s' = s"
    and alloc_ok: "rep s b \<Longrightarrow> alloc r s = Some (p, s') \<Longrightarrow> p \<noteq> 0 \<Longrightarrow> unat r \<le> max_req \<Longrightarrow>
      \<exists>b' n. rep s' b' \<and> live b' = insert (unat p, n) (live b) \<and> (unat p, n) \<notin> live b \<and> unat r \<le> n \<and>
        (\<forall>q t k. (q, t) \<in> live b' \<longrightarrow> k \<in> {q..<q + t} \<longrightarrow> byte_at s' k = byte_at s k)"
    and release_ok: "rep s b \<Longrightarrow> (unat p, n) \<in> live b \<Longrightarrow>
      \<exists>b'. rep (release p s) b' \<and> live b' = live b - {(unat p, n)} \<and>
        (\<forall>q t k. (q, t) \<in> live b \<longrightarrow> k \<in> {q..<q + t} \<longrightarrow> byte_at (release p s) k = byte_at s k)"
begin

text \<open>A live range, its bytes and its place survive an allocation.\<close>

lemma alloc_keeps:
  assumes "rep s b" "alloc r s = Some (p, s')" "unat r \<le> max_req" "(q, t) \<in> live b"
  shows "\<exists>b'. rep s' b' \<and> (q, t) \<in> live b' \<and> (\<forall>k \<in> {q..<q + t}. byte_at s' k = byte_at s k)"
proof (cases "p = 0")
  case True
  then show ?thesis using alloc_fail assms by blast
next
  case False
  obtain b' n where b': "rep s' b'" "live b' = insert (unat p, n) (live b)"
    "\<forall>q t k. (q, t) \<in> live b' \<longrightarrow> k \<in> {q..<q + t} \<longrightarrow> byte_at s' k = byte_at s k"
    using alloc_ok [OF assms(1,2) False assms(3)] by blast
  then show ?thesis using assms(4) by blast
qed

text \<open>A fresh range lies inside the arena and overlaps no live range.\<close>

lemma alloc_fresh:
  assumes "rep s b" "alloc r s = Some (p, s')" "p \<noteq> 0" "unat r \<le> max_req"
  shows "\<exists>n \<ge> unat r. lo \<le> unat p \<and> unat p + n \<le> hi \<and>
    (\<forall>(q, t) \<in> live b. {q..<q + t} \<inter> {unat p..<unat p + n} = {})"
proof -
  obtain b' n where b': "rep s' b'" "live b' = insert (unat p, n) (live b)" "(unat p, n) \<notin> live b"
    "unat r \<le> n"
    using alloc_ok [OF assms] by blast
  have "{q..<q + t} \<inter> {unat p..<unat p + n} = {}" if "(q, t) \<in> live b" for q t
    using live_disjoint [OF b'(1), of q t "unat p" n] b'(2,3) that by auto
  moreover have "lo \<le> unat p \<and> unat p + n \<le> hi" using live_bounds [OF b'(1)] b'(2) by auto
  ultimately show ?thesis using b'(4) by blast
qed

text \<open>Releasing what was just allocated gives the live ranges back.\<close>

lemma alloc_release:
  assumes "rep s b" "alloc r s = Some (p, s')" "p \<noteq> 0" "unat r \<le> max_req"
  shows "\<exists>b''. rep (release p s') b'' \<and> live b'' = live b"
proof -
  obtain b' n where b': "rep s' b'" "live b' = insert (unat p, n) (live b)" "(unat p, n) \<notin> live b"
    using alloc_ok [OF assms] by blast
  then have "(unat p, n) \<in> live b'" by simp
  from release_ok [OF b'(1) this] show ?thesis using b' by auto
qed

end

section \<open>Initialisation\<close>

lemma memory_init_mem:
  "mem (memory_init s) k =
     (let m = wr32 (wr32 ((wr32 (wr32 (mem s) HEAP_START BLOCK_MAGIC) (HEAP_START + 4) (of_nat (HEAP_SIZE - 20)))
                     (HEAP_START + 8 := 0)) (HEAP_START + 12) 0) (HEAP_START + 16) 0
      in if HEAP_START + 20 \<le> k \<and> k < HEAP_END then 0 else m k)"
proof -
  have sz: "rd32 (wr32 (wr32 ((wr32 m (2097156::nat) v)(2097160 := b)) 2097164 w) 2097168 w') 2097156 = v"
    for m v b w w' by (simp add: mem_simps)
  show ?thesis
    by (simp add: memory_init_def memset_k_def blk_defs Let_def sz memset_loop_apply del: memset_loop.simps)
qed

lemma memory_init_rep: "heap_rep (memory_init s) [(HEAP_SIZE - 20, False)]"
proof -
  let ?m = "wr32 (wr32 ((wr32 (wr32 (mem s) HEAP_START BLOCK_MAGIC) (HEAP_START + 4) (of_nat (HEAP_SIZE - 20)))
                     (HEAP_START + 8 := 0)) (HEAP_START + 12) 0) (HEAP_START + 16) 0"
  have "hdr_at (mem (memory_init s)) HEAP_START (HEAP_SIZE - 20) False 0 0 =
      hdr_at ?m HEAP_START (HEAP_SIZE - 20) False 0 0"
    by (rule hdr_at_cong) (simp add: memory_init_mem Let_def)
  moreover have "hdr_at ?m HEAP_START (HEAP_SIZE - 20) False 0 0"
    by (simp add: hdr_at_def mem_simps)
  ultimately show ?thesis
    by (simp add: heap_rep_def) (simp add: memory_init_def memset_k_def Let_def)
qed

section \<open>Allocation\<close>

lemma align8_unat:
  "unat (align8 r) = (if unat r + 7 < 2 ^ 32 then (unat r + 7) div 8 * 8 else 0)"
proof -
  have m7: "(7 :: u32) = mask 3" by (simp add: mask_eq_exp_minus_1)
  have mask: "x AND NOT 7 = push_bit 3 (drop_bit 3 x)" for x :: u32
    unfolding m7 by (rule bit_word_eqI) (auto simp: bit_simps)
  have u: "unat (x AND NOT 7) = unat x div 8 * 8" for x :: u32
  proof -
    have "unat x div 8 * 8 < 2 ^ 32" using unsigned_less [of x, where ?'a = nat] by simp
    then show ?thesis
      unfolding mask drop_bit_eq_div push_bit_eq_mult
      by (simp add: unat_word_ariths unat_div)
  qed
  have "unat (r + 7) = (if unat r + 7 < 2 ^ 32 then unat r + 7 else unat r + 7 - 2 ^ 32)"
    using unat_plus_if' [of r 7] by simp
  moreover have "(unat r + 7 - 2 ^ 32) div 8 = 0"
    using unsigned_less [of r, where ?'a = nat] by simp
  ultimately show ?thesis unfolding align8_def u by simp
qed

lemma align8_ge: "unat r \<le> 2 ^ 32 - 8 \<Longrightarrow> unat r \<le> unat (align8 r)"
  by (simp add: align8_unat)

lemma kmalloc_refines:
  assumes rep: "heap_rep s bs" and "r \<noteq> 0"
  shows "\<exists>ptr s'. kmalloc r s = Some (ptr, s') \<and>
    (case alloc_spec (unat (align8 r)) HEAP_START bs of
       None \<Rightarrow> ptr = 0 \<and> s' = s
     | Some (q, bs') \<Rightarrow> ptr = of_nat q \<and> q < 2 ^ 32 \<and> ptr \<noteq> 0 \<and> heap_rep s' bs' \<and> s' = s\<lparr>mem := mem s'\<rparr> \<and>
         (\<forall>k. k \<notin> hdr_bytes HEAP_START bs' \<longrightarrow> mem s' k = mem s k))"
proof -
  let ?n = "unat (align8 r)"
  have top: "blocks_end HEAP_START bs < 2 ^ 32" using rep by (simp add: heap_rep_def)
  have "\<exists>ptr m'. kmalloc_loop (of_nat ?n) (mem s) (of_nat (if bs = [] then 0 else HEAP_START)) = Some (ptr, m') \<and>
    (case alloc_spec ?n HEAP_START bs of
       None \<Rightarrow> ptr = 0 \<and> m' = mem s
     | Some (q, bs') \<Rightarrow> ptr = of_nat q \<and> seg m' HEAP_START 0 bs' 0 \<and>
         (\<forall>k. k \<notin> hdr_bytes HEAP_START bs' \<longrightarrow> m' k = mem s k))"
    using rep top unsigned_less [of "align8 r", where ?'a = nat]
    by (intro kmalloc_loop_refines) (simp_all add: heap_rep_def)
  then obtain ptr m' where run: "kmalloc_loop (align8 r) (mem s) (heap_head s) = Some (ptr, m')"
    and spec: "case alloc_spec ?n HEAP_START bs of
       None \<Rightarrow> ptr = 0 \<and> m' = mem s
     | Some (q, bs') \<Rightarrow> ptr = of_nat q \<and> seg m' HEAP_START 0 bs' 0 \<and>
         (\<forall>k. k \<notin> hdr_bytes HEAP_START bs' \<longrightarrow> m' k = mem s k)"
    using rep by (auto simp: heap_rep_def)
  have k: "kmalloc r s = Some (ptr, s\<lparr>mem := m'\<rparr>)" using run assms(2) by (simp add: kmalloc_def)
  show ?thesis
  proof (cases "alloc_spec ?n HEAP_START bs")
    case None
    then show ?thesis using k spec by simp
  next
    case (Some qb)
    obtain q bs' where qb: "qb = (q, bs')" by (cases qb)
    obtain n where "used_at HEAP_START bs' = insert (q, n) (used_at HEAP_START bs)"
      using alloc_spec_used_at Some qb by blast
    then have "HEAP_START + 20 \<le> q \<and> q + n \<le> blocks_end HEAP_START bs'"
      by (intro used_at_bounds) simp
    moreover have be: "blocks_end HEAP_START bs' = blocks_end HEAP_START bs \<and> bs' \<noteq> []"
      using alloc_spec_blocks_end Some qb by blast
    ultimately have q: "HEAP_START + 20 \<le> q" "q < 2 ^ 32" using top by linarith+
    then have "(of_nat q :: u32) \<noteq> 0" using of_nat_u32_eq_0 [of q] by simp
    moreover have "heap_rep (s\<lparr>mem := m'\<rparr>) bs'" using rep spec Some qb be by (simp add: heap_rep_def)
    ultimately show ?thesis using k spec Some qb q by simp
  qed
qed

lemma kmalloc_zero [simp]: "kmalloc 0 s = Some (0, s)"
  by (simp add: kmalloc_def)

lemma alloc_spec_coalesced:
  "alloc_spec n a bs = Some (q, bs') \<Longrightarrow> coalesced bs \<Longrightarrow>
   coalesced bs' \<and> (bs \<noteq> [] \<and> snd (hd bs) \<longrightarrow> snd (hd bs'))"
proof (induction n a bs arbitrary: bs' rule: alloc_spec.induct)
  case (1 n a)
  then show ?case by simp
next
  case (2 n a sz u bs)
  show ?case
  proof (cases "\<not> u \<and> n \<le> sz")
    case True
    then show ?thesis using "2.prems" by (cases bs) (auto split: if_splits)
  next
    case False
    with "2.prems" obtain bs1 where r: "alloc_spec n (a + 20 + sz) bs = Some (q, bs1)"
      "bs' = (sz, u) # bs1"
      by (auto split: if_splits)
    then obtain b t where bs: "bs = b # t" by (cases bs) auto
    have "coalesced bs1 \<and> (bs \<noteq> [] \<and> snd (hd bs) \<longrightarrow> snd (hd bs1))"
      using "2.IH" [OF False r(1)] "2.prems"(2) bs by simp
    then show ?thesis using r bs "2.prems"(2) by (cases bs1) auto
  qed
qed

section \<open>Release\<close>

lemma used_at_split:
  "(q, sz) \<in> used_at a bs \<Longrightarrow> \<exists>pre post. bs = pre @ (sz, True) # post \<and> q = blocks_end a pre + 20"
proof (induction a bs rule: used_at.induct)
  case (1 a)
  then show ?case by simp
next
  case (2 a sz' u bs)
  show ?case
  proof (cases "(q, sz) \<in> used_at (a + 20 + sz') bs")
    case True
    then obtain pre post where "bs = pre @ (sz, True) # post" "q = blocks_end (a + 20 + sz') pre + 20"
      using "2.IH" by blast
    then show ?thesis by (intro exI [of _ "(sz', u) # pre"] exI [of _ post]) simp
  next
    case False
    then show ?thesis using "2.prems" by (intro exI [of _ "[]"] exI [of _ bs]) (auto split: if_splits)
  qed
qed

lemma free_spec_blocks_end: "blocks_end a (free_spec pre sz post) = blocks_end a (pre @ (sz, u) # post)"
proof -
  obtain sz1 r where r: "merge_right sz post = (sz1, False) # r" using merge_right_shape by blast
  note e = merge_right_blocks_end [of _ sz post u, unfolded r]
  show ?thesis
  proof (cases pre rule: rev_cases)
    case Nil
    then show ?thesis using e by (simp add: free_spec_def r)
  next
    case (snoc pre0 b)
    obtain sz0 u0 where b: "b = (sz0, u0)" by (cases b)
    then show ?thesis using e [of "blocks_end a pre"]
      by (simp add: snoc b free_spec_snoc [OF r] merge_left_def ac_simps)
  qed
qed

lemma merge_right_used_at: "used_at a (merge_right sz post) = used_at (a + 20 + sz) post"
  by (cases "(sz, post)" rule: merge_right.cases) (auto simp: ac_simps)

lemma free_spec_used_at:
  "used_at a (free_spec pre sz post) = used_at a (pre @ (sz, False) # post)"
proof -
  obtain sz1 r where r: "merge_right sz post = (sz1, False) # r" using merge_right_shape by blast
  note e = merge_right_used_at [of _ sz post, unfolded r]
  show ?thesis
  proof (cases pre rule: rev_cases)
    case Nil
    then show ?thesis using e by (simp add: free_spec_def r)
  next
    case (snoc pre0 b)
    obtain sz0 u0 where b: "b = (sz0, u0)" by (cases b)
    then show ?thesis using e [of "blocks_end a pre"]
      by (simp add: snoc b free_spec_snoc [OF r] merge_left_def ac_simps)
  qed
qed

lemma coalesced_append:
  "coalesced (xs @ ys) \<longleftrightarrow>
     coalesced xs \<and> coalesced ys \<and> (xs \<noteq> [] \<and> ys \<noteq> [] \<longrightarrow> snd (last xs) \<or> snd (hd ys))"
proof (induction xs)
  case Nil
  then show ?case by simp
next
  case (Cons b xs)
  then show ?case by (cases xs; cases ys) auto
qed

lemma coalesced_Cons:
  "coalesced (b # bs) \<longleftrightarrow> coalesced bs \<and> (bs \<noteq> [] \<longrightarrow> snd b \<or> snd (hd bs))"
  by (cases bs) auto

lemma merge_right_coalesced: "coalesced post \<Longrightarrow> coalesced (merge_right sz post)"
  by (cases "(sz, post)" rule: merge_right.cases) (auto simp: coalesced_Cons)

lemma free_spec_coalesced:
  assumes "coalesced (pre @ (sz, u) # post)"
  shows "coalesced (free_spec pre sz post)"
proof -
  obtain sz1 r where r: "merge_right sz post = (sz1, False) # r" using merge_right_shape by blast
  have c: "coalesced pre" "coalesced post" using assms by (auto simp: coalesced_append coalesced_Cons)
  then have cr: "coalesced ((sz1, False) # r)" using merge_right_coalesced r by metis
  show ?thesis
  proof (cases pre rule: rev_cases)
    case Nil
    then show ?thesis using cr by (simp add: free_spec_def r)
  next
    case (snoc pre0 b)
    obtain sz0 u0 where b: "b = (sz0, u0)" by (cases b)
    then show ?thesis using cr c
      by (auto simp: snoc b free_spec_snoc [OF r] merge_left_def coalesced_append coalesced_Cons)
  qed
qed

lemma kfree_refines:
  assumes rep: "heap_rep s (pre @ (sz, u) # post)" and p: "p = of_nat (blocks_end HEAP_START pre + 20)"
  shows "heap_rep (kfree p s) (free_spec pre sz post) \<and>
    (\<forall>k. k \<notin> hdr_bytes HEAP_START (pre @ (sz, u) # post) \<longrightarrow> mem (kfree p s) k = mem s k)"
proof -
  have be: "blocks_end HEAP_START (pre @ (sz, u) # post) = HEAP_END" using rep by (simp only: heap_rep_def)
  have "seg (kfree_mem p (mem s)) HEAP_START 0 (free_spec pre sz post) 0 \<and>
    (\<forall>k. k \<notin> hdr_bytes HEAP_START (pre @ (sz, u) # post) \<longrightarrow> kfree_mem p (mem s) k = mem s k)"
    unfolding p using rep be by (intro kfree_mem_seg) (simp_all add: heap_rep_def)
  moreover have "free_spec pre sz post \<noteq> []"
    using free_spec_blocks_end [of HEAP_START pre sz post u] be by auto
  ultimately show ?thesis
    using rep free_spec_blocks_end [of HEAP_START pre sz post u] by (simp add: heap_rep_def kfree_def)
qed

section \<open>The allocator meets the contract\<close>

definition heap_ok :: "('d, 'z) heap_st_scheme \<Rightarrow> blk list \<Rightarrow> bool" where
  "heap_ok s bs \<longleftrightarrow> heap_rep s bs \<and> coalesced bs"

lemma kmalloc_cases:
  assumes ok: "heap_ok s bs" and run: "kmalloc r s = Some (p, s')"
  obtains (null) "p = 0" "s' = s" "r = 0 \<or> alloc_spec (unat (align8 r)) HEAP_START bs = None"
  | (block) bs' where "r \<noteq> 0" "p \<noteq> 0" "alloc_spec (unat (align8 r)) HEAP_START bs = Some (unat p, bs')"
      "heap_ok s' bs'" "s' = s\<lparr>mem := mem s'\<rparr>"
      "\<And>k. k \<notin> hdr_bytes HEAP_START bs' \<Longrightarrow> mem s' k = mem s k"
proof (cases "r = 0")
  case True
  then show ?thesis using run by (intro null) simp_all
next
  case False
  have ex: "case alloc_spec (unat (align8 r)) HEAP_START bs of
       None \<Rightarrow> p = 0 \<and> s' = s
     | Some (q, bs') \<Rightarrow> p = of_nat q \<and> q < 2 ^ 32 \<and> p \<noteq> 0 \<and> heap_rep s' bs' \<and> s' = s\<lparr>mem := mem s'\<rparr> \<and>
         (\<forall>k. k \<notin> hdr_bytes HEAP_START bs' \<longrightarrow> mem s' k = mem s k)"
    using kmalloc_refines [OF _ False, of s bs] ok run unfolding heap_ok_def by auto
  show ?thesis
  proof (cases "alloc_spec (unat (align8 r)) HEAP_START bs")
    case None
    then show ?thesis using ex by (intro null) simp_all
  next
    case (Some qb)
    obtain q bs' where qb: "qb = (q, bs')" by (cases qb)
    have "coalesced bs'" using alloc_spec_coalesced Some qb ok unfolding heap_ok_def by blast
    then show ?thesis using ex Some qb False by (intro block [of bs']) (auto simp: heap_ok_def)
  qed
qed

lemma heap_ok_kfree:
  assumes ok: "heap_ok s bs" and live: "(unat p, n) \<in> used_at HEAP_START bs"
  shows "\<exists>bs'. heap_ok (kfree p s) bs' \<and> used_at HEAP_START bs' = used_at HEAP_START bs - {(unat p, n)} \<and>
    (\<forall>k. k \<notin> hdr_bytes HEAP_START bs \<longrightarrow> mem (kfree p s) k = mem s k)"
proof -
  obtain pre post where bs: "bs = pre @ (n, True) # post" and p: "unat p = blocks_end HEAP_START pre + 20"
    using used_at_split [OF live] by blast
  have "p = of_nat (blocks_end HEAP_START pre + 20)" unfolding p [symmetric] by simp
  note f = kfree_refines [OF _ this, of s n True post]
  have "(unat p, n) \<notin> used_at HEAP_START (pre @ (n, False) # post)"
    using used_at_bounds [of "unat p" n "HEAP_START" pre] used_at_bounds [of "unat p" n "unat p + n" post] p by auto
  then have "used_at HEAP_START (free_spec pre n post) = used_at HEAP_START bs - {(unat p, n)}"
    unfolding free_spec_used_at using bs p by auto
  then show ?thesis
    using f ok free_spec_coalesced [of pre n True post] unfolding heap_ok_def bs by blast
qed

interpretation kheap: allocator heap_ok "used_at HEAP_START"
  "kmalloc :: u32 \<Rightarrow> ('d, 'z) heap_st_scheme \<Rightarrow> _" kfree mem "HEAP_START + 20" HEAP_END "2 ^ 32 - 8"
proof
  fix s :: "('d, 'z) heap_st_scheme" and s' bs q n q' n' r p
  show "HEAP_START + 20 \<le> q \<and> q + n \<le> HEAP_END" if "heap_ok s bs" "(q, n) \<in> used_at HEAP_START bs"
    using used_at_bounds [OF that(2)] that(1) by (simp add: heap_ok_def heap_rep_def)
  show "{q..<q + n} \<inter> {q'..<q' + n'} = {}"
    if "(q, n) \<in> used_at HEAP_START bs" "(q', n') \<in> used_at HEAP_START bs" "(q, n) \<noteq> (q', n')"
    using that by (rule used_at_disjoint)
  show "\<exists>p s'. kmalloc r s = Some (p, s')" if "heap_ok s bs"
    using kmalloc_refines [of s bs r] that by (cases "r = 0") (auto simp: heap_ok_def)
  show "s' = s" if "heap_ok s bs" "kmalloc r s = Some (0, s')"
    using that by (rule kmalloc_cases) auto
  show "\<exists>b' n. heap_ok s' b' \<and> used_at HEAP_START b' = insert (unat p, n) (used_at HEAP_START bs) \<and>
      (unat p, n) \<notin> used_at HEAP_START bs \<and> unat r \<le> n \<and>
      (\<forall>q t k. (q, t) \<in> used_at HEAP_START b' \<longrightarrow> k \<in> {q..<q + t} \<longrightarrow> mem s' k = mem s k)"
    if "heap_ok s bs" "kmalloc r s = Some (p, s')" "p \<noteq> 0" "unat r \<le> 2 ^ 32 - 8"
    using that(1,2)
  proof (cases rule: kmalloc_cases)
    case null
    then show ?thesis using that by simp
  next
    case (block bs')
    obtain t where "unat (align8 r) \<le> t" "used_at HEAP_START bs' = insert (unat p, t) (used_at HEAP_START bs)"
      "(unat p, t) \<notin> used_at HEAP_START bs"
      using alloc_spec_used_at [OF block(3)] by blast
    moreover have "unat r \<le> unat (align8 r)" using that(4) by (rule align8_ge)
    moreover have "mem s' k = mem s k" if "(q, t) \<in> used_at HEAP_START bs'" "k \<in> {q..<q + t}" for q t k
      using used_at_not_hdr [OF that] by (rule block(6))
    ultimately show ?thesis using block(4) by (intro exI [of _ bs'] exI [of _ t]) auto
  qed
  show "\<exists>b'. heap_ok (kfree p s) b' \<and> used_at HEAP_START b' = used_at HEAP_START bs - {(unat p, n)} \<and>
      (\<forall>q t k. (q, t) \<in> used_at HEAP_START bs \<longrightarrow> k \<in> {q..<q + t} \<longrightarrow> mem (kfree p s) k = mem s k)"
    if live: "heap_ok s bs" "(unat p, n) \<in> used_at HEAP_START bs"
  proof -
    obtain bs' where bs': "heap_ok (kfree p s) bs'"
      "used_at HEAP_START bs' = used_at HEAP_START bs - {(unat p, n)}"
      "\<And>k. k \<notin> hdr_bytes HEAP_START bs \<Longrightarrow> mem (kfree p s) k = mem s k"
      using heap_ok_kfree [OF live] by blast
    have "mem (kfree p s) k = mem s k" if "(q, t) \<in> used_at HEAP_START bs" "k \<in> {q..<q + t}" for q t k
      using used_at_not_hdr [OF that] by (rule bs'(3))
    with bs'(1,2) show ?thesis by (intro exI [of _ bs']) auto
  qed
qed

section \<open>Round trip, accounting and reachable heaps\<close>

lemma alloc_free_spec:
  "alloc_spec n a bs = Some (q, bs') \<Longrightarrow> coalesced bs \<Longrightarrow>
   \<exists>pre sz post. bs' = pre @ (sz, True) # post \<and> q = blocks_end a pre + 20 \<and> free_spec pre sz post = bs"
proof (induction n a bs arbitrary: bs' rule: alloc_spec.induct)
  case (1 n a)
  then show ?case by simp
next
  case (2 n a sz u bs)
  show ?case
  proof (cases "\<not> u \<and> n \<le> sz")
    case True
    let ?sz = "if n + 28 \<le> sz then n else sz"
    let ?post = "if n + 28 \<le> sz then (sz - n - 20, False) # bs else bs"
    have "free_spec [] ?sz ?post = (sz, u) # bs"
    proof (cases bs)
      case (Cons b t)
      then show ?thesis using True "2.prems"(2) by (cases b) (auto simp: free_spec_def)
    qed (use True in \<open>auto simp: free_spec_def\<close>)
    then show ?thesis
      using "2.prems" True by (intro exI [of _ "[]"] exI [of _ ?sz] exI [of _ ?post]) auto
  next
    case False
    with "2.prems" obtain bs1 where r: "alloc_spec n (a + 20 + sz) bs = Some (q, bs1)"
      "bs' = (sz, u) # bs1"
      by (auto split: if_splits)
    obtain pre sz1 post where IH: "bs1 = pre @ (sz1, True) # post" "q = blocks_end (a + 20 + sz) pre + 20"
      "free_spec pre sz1 post = bs"
      using "2.IH" [OF False r(1)] "2.prems"(2) by (auto simp: coalesced_Cons)
    have "free_spec ((sz, u) # pre) sz1 post = (sz, u) # bs"
    proof (cases "pre = []")
      case True
      obtain x y where "merge_right sz1 post = (x, False) # y" using merge_right_shape by blast
      moreover have "bs = merge_right sz1 post" using IH(3) True by (simp add: free_spec_def)
      ultimately have bs: "bs = (x, False) # y" "u" using "2.prems"(2) by simp_all
      then show ?thesis using IH(3) True by (simp add: free_spec_def)
    next
      case False
      then show ?thesis using IH(3) by (auto simp: free_spec_def Let_def)
    qed
    then show ?thesis using IH r
      by (intro exI [of _ "(sz, u) # pre"] exI [of _ sz1] exI [of _ post]) simp
  qed
qed

lemma memory_stats_loop_refines:
  assumes "seg m a p bs 0" "0 < a" "blocks_end a bs < 2 ^ 32"
  shows "memory_stats_loop m (of_nat (if bs = [] then 0 else a)) us fr =
    Some (us + of_nat (used_bytes bs), fr + of_nat (free_bytes bs))"
  using assms
proof (induction bs arbitrary: a p us fr)
  case Nil
  then show ?case by (simp add: memory_stats_loop.simps used_bytes_def free_bytes_def)
next
  case (Cons b bs)
  obtain sz u where b: "b = (sz, u)" by (cases b)
  have top: "a + 20 + sz < 2 ^ 32"
    using Cons.prems(3) b blocks_end_ge [of "a + 20 + sz" bs] by simp
  have a: "unat (of_nat a :: u32) = a" "(of_nat a :: u32) \<noteq> 0"
    using top Cons.prems(2) of_nat_u32_eq_0 [of a] by auto
  have f: "blk_size m (of_nat a) = of_nat sz" "blk_used m (of_nat a) = 0 \<longleftrightarrow> \<not> u"
    "blk_next m (of_nat a) = of_nat (if bs = [] then 0 else a + 20 + sz)"
    using Cons.prems(1) b by (auto simp: hdr_at_def blk_defs a(1))
  have IH: "memory_stats_loop m (of_nat (if bs = [] then 0 else a + 20 + sz)) us' fr' =
    Some (us' + of_nat (used_bytes bs), fr' + of_nat (free_bytes bs))" for us' fr'
    using Cons.prems b by (intro Cons.IH [of _ a]) auto
  show ?case
    using a(2) b by (subst memory_stats_loop.simps) (simp add: f IH used_bytes_def free_bytes_def)
qed

lemma bytes_conservation: "used_bytes bs + free_bytes bs + 20 * length bs + a = blocks_end a bs"
  by (induction a bs rule: blocks_end.induct) (auto simp: used_bytes_def free_bytes_def)

lemma used_at_fst_unique: "(q, t) \<in> used_at a bs \<Longrightarrow> (q, t') \<in> used_at a bs \<Longrightarrow> t = t'"
proof (induction a bs rule: used_at.induct)
  case (1 a)
  then show ?case by simp
next
  case (2 a sz u bs)
  then show ?case using used_at_bounds [of q _ "a + 20 + sz" bs] by (fastforce split: if_splits)
qed

lemma fst_image_diff: "(\<And>t'. (q, t') \<in> S \<Longrightarrow> t' = t) \<Longrightarrow> fst ` (S - {(q, t)}) = fst ` S - {q}"
  by force

lemma used_at_size:
  assumes "seg m a p bs 0" "(q, t) \<in> used_at a bs"
  shows "rd32 m (q - 16) = of_nat t"
proof -
  obtain pre post where "bs = pre @ (t, True) # post" "q = blocks_end a pre + 20"
    using used_at_split [OF assms(2)] by blast
  then show ?thesis using assms(1) by (auto simp: seg_append hdr_at_def add.commute [of 4])
qed

lemma used_at_empty: "used_at a bs = {} \<longleftrightarrow> (\<forall>b \<in> set bs. \<not> snd b)"
  by (induction a bs rule: used_at.induct) auto

lemma coalesced_none_used:
  assumes "coalesced bs" "used_at a bs = {}" "bs \<noteq> []"
  obtains sz where "bs = [(sz, False)]"
proof (cases bs)
  case (Cons b t)
  have "\<not> snd b" "\<forall>b' \<in> set t. \<not> snd b'" using assms(2) Cons by (auto simp: used_at_empty)
  moreover from this have "t = []" using assms(1) Cons by (cases t) auto
  ultimately show ?thesis using that [of "fst b"] Cons by (cases b) auto
qed (use assms in simp)

text \<open>
  The heaps that arise when the kernel boots, allocates, releases pointers it holds, and stores
  into the payload of the blocks it holds or outside the heap. \<open>L\<close> is the set of pointers held.
\<close>

inductive heap_reach :: "('d, 'z) heap_st_scheme \<Rightarrow> u32 set \<Rightarrow> bool" where
  boot: "heap_reach (memory_init s) {}"
| malloc: "heap_reach s L \<Longrightarrow> kmalloc r s = Some (p, s') \<Longrightarrow> p \<noteq> 0 \<Longrightarrow> heap_reach s' (insert p L)"
| free: "heap_reach s L \<Longrightarrow> p \<in> L \<Longrightarrow> heap_reach (kfree p s) (L - {p})"
| store: "heap_reach s L \<Longrightarrow> p \<in> L \<Longrightarrow> unat p \<le> k \<Longrightarrow> k < unat p + unat (blk_size (mem s) (p - HDR_SIZE)) \<Longrightarrow>
    heap_reach (s\<lparr>mem := (mem s)(k := v)\<rparr>) L"
| outside_heap: "heap_reach s L \<Longrightarrow> k < HEAP_START \<or> HEAP_END \<le> k \<Longrightarrow> heap_reach (s\<lparr>mem := (mem s)(k := v)\<rparr>) L"

lemma heap_ok_store:
  assumes "heap_ok s bs" "k \<notin> hdr_bytes HEAP_START bs"
  shows "heap_ok (s\<lparr>mem := (mem s)(k := v)\<rparr>) bs"
proof -
  have "seg ((mem s)(k := v)) HEAP_START 0 bs 0 = seg (mem s) HEAP_START 0 bs 0"
    using assms(2) by (intro seg_cong) auto
  then show ?thesis using assms(1) by (simp add: heap_ok_def heap_rep_def)
qed

lemma held_not_hdr:
  assumes ok: "heap_ok s bs" and n: "(unat p, n) \<in> used_at HEAP_START bs"
    and k: "unat p \<le> k" "k < unat p + unat (blk_size (mem s) (p - HDR_SIZE))"
  shows "k \<notin> hdr_bytes HEAP_START bs"
proof -
  have rep: "seg (mem s) HEAP_START 0 bs 0" "blocks_end HEAP_START bs = HEAP_END"
    using ok by (auto simp: heap_ok_def heap_rep_def)
  have b: "HEAP_START + 20 \<le> unat p" "unat p + n \<le> HEAP_END" using used_at_bounds [OF n] rep(2) by auto
  have "unat (p - 20) = unat p - 20" using b unat_sub [of 20 p] by (simp add: word_le_nat_alt)
  then have "blk_size (mem s) (p - HDR_SIZE) = of_nat n" using used_at_size [OF rep(1) n] b by (simp add: blk_size_def)
  then have "k < unat p + n" using k(2) b by simp
  then show ?thesis using used_at_not_hdr [OF n, of k] k(1) by simp
qed

lemma heap_reach_ok:
  "heap_reach s L \<Longrightarrow> \<exists>bs. heap_ok s bs \<and> fst ` used_at HEAP_START bs = unat ` L"
proof (induction rule: heap_reach.induct)
  case (boot s)
  then show ?case using memory_init_rep [of s]
    by (intro exI [of _ "[(HEAP_SIZE - 20, False)]"]) (simp add: heap_ok_def)
next
  case (malloc s L r p s')
  then obtain bs where bs: "heap_ok s bs" "fst ` used_at HEAP_START bs = unat ` L" by blast
  show ?case using bs(1) malloc.hyps(2)
  proof (cases rule: kmalloc_cases)
    case null
    then show ?thesis using malloc.hyps(3) by simp
  next
    case (block bs')
    obtain t where "used_at HEAP_START bs' = insert (unat p, t) (used_at HEAP_START bs)"
      using alloc_spec_used_at [OF block(3)] by blast
    then have "fst ` used_at HEAP_START bs' = unat ` insert p L" using bs(2) by simp
    then show ?thesis using block(4) by blast
  qed
next
  case (free s L p)
  then obtain bs where bs: "heap_ok s bs" "fst ` used_at HEAP_START bs = unat ` L" by blast
  then obtain n where n: "(unat p, n) \<in> used_at HEAP_START bs" using free.hyps(2) by force
  obtain bs' where bs': "heap_ok (kfree p s) bs'"
    "used_at HEAP_START bs' = used_at HEAP_START bs - {(unat p, n)}"
    using heap_ok_kfree [OF bs(1) n] by blast
  have "fst ` used_at HEAP_START bs' = fst ` used_at HEAP_START bs - {unat p}"
    unfolding bs'(2) using used_at_fst_unique [OF _ n] by (rule fst_image_diff)
  also have "\<dots> = unat ` (L - {p})" unfolding bs(2) by (auto simp: word_unat_eq_iff)
  finally show ?case using bs'(1) by blast
next
  case (store s L p k v)
  then obtain bs where bs: "heap_ok s bs" "fst ` used_at HEAP_START bs = unat ` L" by blast
  then obtain n where n: "(unat p, n) \<in> used_at HEAP_START bs" using store.hyps(2) by force
  have "k \<notin> hdr_bytes HEAP_START bs" by (rule held_not_hdr [OF bs(1) n store.hyps(3,4)])
  then show ?case using heap_ok_store [OF bs(1)] bs(2) by blast
next
  case (outside_heap s L k v)
  then obtain bs where bs: "heap_ok s bs" "fst ` used_at HEAP_START bs = unat ` L" by blast
  have "k \<notin> hdr_bytes HEAP_START bs"
    using hdr_bytes_bounds [of HEAP_START bs] outside_heap.hyps(2) bs(1)
    by (auto simp: heap_ok_def heap_rep_def)
  then show ?case using heap_ok_store [OF bs(1)] bs(2) by blast
qed

section \<open>Properties\<close>

text \<open>A machine with blank memory, for the concrete instances.\<close>

definition blank_heap :: "unit heap_st" where
  "blank_heap = \<lparr>dev = (), mem = (\<lambda>_. 0), cr0 = 0, cr2 = 0, cr3 = 0, cr4 = 0, idtr = (0, 0), int_flag = False,
     g_kernel_state = KERNEL_STATE_BOOT, g_tick_count = 0, heap_head = 0\<rparr>"

lemma heap_ok_init: "heap_ok (memory_init s) [(HEAP_SIZE - 20, False)]"
  using memory_init_rep by (simp add: heap_ok_def)

lemma kmalloc_init:
  fixes s :: "('d, 'z) heap_st_scheme"
  assumes "r \<noteq> 0" "unat (align8 r) \<le> HEAP_SIZE - 48"
  shows "\<exists>s'. kmalloc r (memory_init s) = Some (of_nat (HEAP_START + 20), s') \<and>
    heap_ok s' [(unat (align8 r), True), (HEAP_SIZE - 40 - unat (align8 r), False)]"
  using kmalloc_refines [OF memory_init_rep assms(1), of s] assms(2) by (auto simp: heap_ok_def)

text \<open>C11: on a well-formed heap an allocation always returns. A null result leaves the state alone
  and means that the request is 0 or that no free block is large enough. Any other result is a range
  inside the heap, at least as long as requested, disjoint from every block in use; the heap stays
  well formed (laid out back to back, no two free neighbours), the new block is the only one that
  became used, and the bytes of the others are unchanged.\<close>

theorem kmalloc_safe:
  assumes "heap_ok s bs" "unat r \<le> 2 ^ 32 - 8"
  shows "\<exists>p s'. kmalloc r s = Some (p, s') \<and>
    (if p = 0 then s' = s \<and> (r = 0 \<or> (\<forall>(sz, u) \<in> set bs. u \<or> sz < unat (align8 r)))
     else \<exists>n bs'. unat r \<le> n \<and> HEAP_START + 20 \<le> unat p \<and> unat p + n \<le> HEAP_END \<and>
       heap_ok s' bs' \<and> used_at HEAP_START bs' = insert (unat p, n) (used_at HEAP_START bs) \<and>
       (\<forall>(q, t) \<in> used_at HEAP_START bs. {q..<q + t} \<inter> {unat p..<unat p + n} = {} \<and>
          (\<forall>k \<in> {q..<q + t}. mem s' k = mem s k)))"
proof -
  obtain p s' where run: "kmalloc r s = Some (p, s')" using kheap.alloc_total [OF assms(1)] by blast
  show ?thesis
  proof (cases "p = 0")
    case True
    have "r = 0 \<or> alloc_spec (unat (align8 r)) HEAP_START bs = None"
      using assms(1) run True by (auto elim: kmalloc_cases)
    then show ?thesis using run kheap.alloc_fail assms(1) True by (auto simp: alloc_spec_None)
  next
    case False
    obtain bs' n where new: "heap_ok s' bs'" "used_at HEAP_START bs' = insert (unat p, n) (used_at HEAP_START bs)"
      "(unat p, n) \<notin> used_at HEAP_START bs" "unat r \<le> n"
      "\<forall>q t k. (q, t) \<in> used_at HEAP_START bs' \<longrightarrow> k \<in> {q..<q + t} \<longrightarrow> mem s' k = mem s k"
      using kheap.alloc_ok [OF assms(1) run False assms(2)] by blast
    have "HEAP_START + 20 \<le> unat p \<and> unat p + n \<le> HEAP_END"
      using kheap.live_bounds [OF new(1), of "unat p" n] new(2) by simp
    moreover have "{q..<q + t} \<inter> {unat p..<unat p + n} = {} \<and> (\<forall>k \<in> {q..<q + t}. mem s' k = mem s k)"
      if "(q, t) \<in> used_at HEAP_START bs" for q t
      using used_at_disjoint [of q t _ bs' "unat p" n] new that by auto
    ultimately show ?thesis using run False new(1,2,4)
      by (simp, intro exI [of _ n], simp, intro exI [of _ bs'], auto)
  qed
qed

theorem kmalloc_safe_witness:
  "\<exists>p s'. kmalloc 100 (memory_init blank_heap) = Some (p, s') \<and> p \<noteq> 0 \<and>
    (\<exists>n. 100 \<le> n \<and> HEAP_START + 20 \<le> unat p \<and> unat p + n \<le> HEAP_END)"
proof -
  obtain s' where "kmalloc 100 (memory_init blank_heap) = Some (of_nat (HEAP_START + 20), s')"
    using kmalloc_init [of 100 blank_heap] by (auto simp: align8_unat)
  moreover have "unat (100 :: u32) \<le> 2 ^ 32 - 8" by simp
  ultimately show ?thesis
    using kmalloc_safe [OF heap_ok_init [of blank_heap], of 100] by (simp, blast)
qed

text \<open>C12: releasing a block in use keeps the heap well formed and coalesced, removes exactly that
  block from the blocks in use and leaves the bytes of all the others unchanged.\<close>

theorem kfree_safe:
  assumes "heap_ok s bs" "(unat p, n) \<in> used_at HEAP_START bs"
  shows "\<exists>bs'. heap_ok (kfree p s) bs' \<and> used_at HEAP_START bs' = used_at HEAP_START bs - {(unat p, n)} \<and>
    (\<forall>(q, t) \<in> used_at HEAP_START bs. \<forall>k \<in> {q..<q + t}. mem (kfree p s) k = mem s k)"
proof -
  obtain bs' where "heap_ok (kfree p s) bs'"
    "used_at HEAP_START bs' = used_at HEAP_START bs - {(unat p, n)}"
    "\<forall>q t k. (q, t) \<in> used_at HEAP_START bs \<longrightarrow> k \<in> {q..<q + t} \<longrightarrow> mem (kfree p s) k = mem s k"
    using kheap.release_ok [OF assms] by blast
  then show ?thesis by (intro exI [of _ bs']) auto
qed

theorem kfree_safe_witness:
  "\<exists>s. kmalloc 100 (memory_init blank_heap) = Some (of_nat (HEAP_START + 20), s) \<and>
    (\<exists>bs. heap_ok (kfree (of_nat (HEAP_START + 20)) s) bs \<and> used_at HEAP_START bs = {})"
proof -
  obtain s where s: "kmalloc 100 (memory_init blank_heap) = Some (of_nat (HEAP_START + 20), s)"
    "heap_ok s [(104, True), (HEAP_SIZE - 144, False)]"
    using kmalloc_init [of 100 blank_heap] by (auto simp: align8_unat)
  then show ?thesis using kfree_safe [OF s(2), of "of_nat (HEAP_START + 20)" 104] by auto
qed

text \<open>Releasing the block that was just allocated gives back the same block list as before.\<close>

theorem kmalloc_kfree_roundtrip:
  assumes "heap_ok s bs" "kmalloc r s = Some (p, s')" "p \<noteq> 0"
  shows "heap_ok (kfree p s') bs"
  using assms(1,2)
proof (cases rule: kmalloc_cases)
  case null
  then show ?thesis using assms(3) by simp
next
  case (block bs')
  obtain pre sz post where f: "bs' = pre @ (sz, True) # post" "unat p = blocks_end HEAP_START pre + 20"
    "free_spec pre sz post = bs"
    using alloc_free_spec [OF block(3)] assms(1) by (auto simp: heap_ok_def)
  have "p = of_nat (blocks_end HEAP_START pre + 20)" unfolding f(2) [symmetric] by simp
  then show ?thesis using kfree_refines [of s' pre sz True post p] block(4) assms(1) f by (simp add: heap_ok_def)
qed

theorem kmalloc_kfree_roundtrip_witness:
  "\<exists>s. kmalloc 100 (memory_init blank_heap) = Some (of_nat (HEAP_START + 20), s) \<and>
    heap_ok (kfree (of_nat (HEAP_START + 20)) s) [(HEAP_SIZE - 20, False)]"
proof -
  obtain s where s: "kmalloc 100 (memory_init blank_heap) = Some (of_nat (HEAP_START + 20), s)"
    using kmalloc_init [of 100 blank_heap] by (auto simp: align8_unat)
  then show ?thesis using kmalloc_kfree_roundtrip [OF heap_ok_init s] by simp
qed

text \<open>C13: in every heap that arises from booting, allocating, releasing held pointers and storing
  into held blocks, the blocks are well formed and the blocks in use are exactly the pointers held;
  once every pointer has been released the heap is again one free block that spans it.\<close>

theorem heap_reach_invariant:
  assumes "heap_reach s L"
  shows "(\<exists>bs. heap_ok s bs \<and> fst ` used_at HEAP_START bs = unat ` L) \<and>
    (L = {} \<longrightarrow> heap_rep s [(HEAP_SIZE - 20, False)])"
proof -
  obtain bs where bs: "heap_ok s bs" "fst ` used_at HEAP_START bs = unat ` L"
    using heap_reach_ok [OF assms] by blast
  have "heap_rep s [(HEAP_SIZE - 20, False)]" if "L = {}"
  proof -
    have "coalesced bs" "used_at HEAP_START bs = {}" "bs \<noteq> []" "blocks_end HEAP_START bs = HEAP_END"
      using bs that by (auto simp: heap_ok_def heap_rep_def)
    moreover from this obtain sz where "bs = [(sz, False)]"
      using coalesced_none_used [of bs HEAP_START] by blast
    ultimately show ?thesis using bs(1) by (simp add: heap_ok_def)
  qed
  then show ?thesis using bs by blast
qed

theorem heap_reach_invariant_witness:
  "\<exists>s. kmalloc 100 (memory_init blank_heap) = Some (of_nat (HEAP_START + 20), s) \<and>
    heap_rep (kfree (of_nat (HEAP_START + 20)) s) [(HEAP_SIZE - 20, False)]"
proof -
  obtain s where s: "kmalloc 100 (memory_init blank_heap) = Some (of_nat (HEAP_START + 20), s)"
    using kmalloc_init [of 100 blank_heap] by (auto simp: align8_unat)
  have "heap_reach s {of_nat (HEAP_START + 20)}"
    using heap_reach.malloc [OF heap_reach.boot s] by simp
  then have "heap_reach (kfree (of_nat (HEAP_START + 20)) s) {}"
    using heap_reach.free [of s "{of_nat (HEAP_START + 20)}" "of_nat (HEAP_START + 20)"] by simp
  from heap_reach_invariant [OF this] s show ?thesis by blast
qed

lemma memory_stats_rep:
  assumes "heap_rep s bs"
  shows "memory_stats s = Some (of_nat (used_bytes bs), of_nat (free_bytes bs))"
proof -
  have "memory_stats_loop (mem s) (of_nat (if bs = [] then 0 else HEAP_START)) 0 0 =
      Some (0 + of_nat (used_bytes bs), 0 + of_nat (free_bytes bs))"
    using assms by (intro memory_stats_loop_refines [where p = 0]) (simp_all add: heap_rep_def)
  then show "memory_stats s = Some (of_nat (used_bytes bs), of_nat (free_bytes bs))"
    using assms by (simp add: memory_stats_def heap_rep_def)
qed

text \<open>C21: the statistics walk ends, and the two numbers it returns account with 20 bytes of header
  per block for the whole heap.\<close>

theorem memory_stats_correct:
  assumes "heap_rep s bs"
  shows "\<exists>us fr. memory_stats s = Some (us, fr) \<and> unat us = used_bytes bs \<and> unat fr = free_bytes bs \<and>
    unat us + unat fr + 20 * length bs = HEAP_SIZE"
proof -
  have "memory_stats s = Some (of_nat (used_bytes bs), of_nat (free_bytes bs))" by (rule memory_stats_rep [OF assms])
  moreover have "used_bytes bs + free_bytes bs + 20 * length bs = HEAP_SIZE"
    using bytes_conservation [of bs HEAP_START] assms by (simp add: heap_rep_def)
  ultimately show ?thesis by simp
qed

theorem memory_stats_correct_witness:
  "memory_stats (memory_init blank_heap) = Some (0, of_nat (HEAP_SIZE - 20))"
  using memory_stats_correct [OF memory_init_rep [of blank_heap]]
  by (auto simp: used_bytes_def free_bytes_def word_unat_eq_iff)

text \<open>C24: the alignment of the size wraps around. A request of more than \<open>2\<^sup>3\<^sup>2 - 8\<close> bytes on a fresh
  heap does not fail: it returns the first payload address with an empty block behind it.\<close>

theorem kmalloc_wraps:
  assumes "2 ^ 32 - 8 < unat r"
  shows "\<exists>s'. kmalloc r (memory_init s) = Some (of_nat (HEAP_START + 20), s') \<and>
    heap_ok s' [(0, True), (HEAP_SIZE - 40, False)]"
proof -
  have "r \<noteq> 0" using assms by auto
  from kmalloc_init [OF this, of s] show ?thesis using assms by (simp add: align8_unat)
qed

theorem kmalloc_wraps_witness:
  "\<exists>s'. kmalloc 0xFFFFFFFF (memory_init blank_heap) = Some (of_nat (HEAP_START + 20), s') \<and>
    heap_ok s' [(0, True), (HEAP_SIZE - 40, False)]"
  by (rule kmalloc_wraps) simp

end
