(* ===== verification/Serial_Port.thy ===== *)
theory Serial_Port
  imports Machine
begin

unbundle bit_operations_syntax

text \<open>
  The COM1 half of \<^verbatim>\<open>adapters/adapter_serial.c\<close>: opening and closing the port, the spinning
  transmit loop, the receive loop and the hook that mirrors screen output. The transmit loop waits
  for a status bit of the UART and may wait for ever, so it is a \<open>partial_function (option)\<close>.

  The UART is hardware: \<open>uart_ok\<close> states the documented behaviour of a 16550 that the code relies on
  (the divisor-latch bit diverts writes to the data port, a transmitter that is polled becomes ready)
  and \<open>uart_emu\<close> is a small emulation of one, with a transmitter that stays busy for some polls
  after every byte, for which the hypotheses hold.
\<close>

section \<open>Operations\<close>

abbreviation COM1_PORT :: u16 where "COM1_PORT \<equiv> 0x3F8"
abbreviation COM1_DATA :: u16 where "COM1_DATA \<equiv> 0x3F8"
abbreviation COM1_IER :: u16 where "COM1_IER \<equiv> 0x3F9"
abbreviation COM1_FCR :: u16 where "COM1_FCR \<equiv> 0x3FA"
abbreviation COM1_LCR :: u16 where "COM1_LCR \<equiv> 0x3FB"
abbreviation COM1_MCR :: u16 where "COM1_MCR \<equiv> 0x3FC"
abbreviation COM1_LSR :: u16 where "COM1_LSR \<equiv> 0x3FD"

definition serial_open :: "'d io_dev \<Rightarrow> ('d, 'z) machine_scheme \<Rightarrow> aura_status_t \<times> ('d, 'z) machine_scheme" where
  "serial_open D s =
     (let s = outb D COM1_IER 0x00 s;
          s = outb D COM1_LCR 0x80 s;
          s = outb D COM1_DATA 0x03 s;
          s = outb D COM1_IER 0x00 s;
          s = outb D COM1_LCR 0x03 s;
          s = outb D COM1_FCR 0xC7 s;
          s = outb D COM1_MCR 0x0B s
      in (AURA_OK, s))"

definition serial_close :: "'d io_dev \<Rightarrow> ('d, 'z) machine_scheme \<Rightarrow> aura_status_t \<times> ('d, 'z) machine_scheme" where
  "serial_close D s = (AURA_OK, outb D COM1_IER 0x00 s)"

definition serial_tx_ready :: "'d io_dev \<Rightarrow> ('d, 'z) machine_scheme \<Rightarrow> u8 \<times> ('d, 'z) machine_scheme" where
  "serial_tx_ready D s = (let (v, s) = inb D COM1_LSR s in (v AND 0x20, s))"

partial_function (option) serial_tx_wait ::
    "'d io_dev \<Rightarrow> ('d, 'z) machine_scheme \<Rightarrow> ('d, 'z) machine_scheme option" where
  "serial_tx_wait D s =
     (if fst (serial_tx_ready D s) = 0 then serial_tx_wait D (snd (serial_tx_ready D s))
      else Some (snd (serial_tx_ready D s)))"

text \<open>The loop over the \<open>len\<close> bytes of the buffer; a buffer is the list of its \<open>len\<close> bytes.\<close>

fun serial_write_loop :: "'d io_dev \<Rightarrow> u8 list \<Rightarrow> ('d, 'z) machine_scheme \<Rightarrow> ('d, 'z) machine_scheme option" where
  "serial_write_loop D [] s = Some s"
| "serial_write_loop D (b # buf) s =
     do { s \<leftarrow> serial_tx_wait D s; serial_write_loop D buf (outb D COM1_DATA b s) }"

definition serial_write ::
    "'d io_dev \<Rightarrow> u8 list \<Rightarrow> ('d, 'z) machine_scheme \<Rightarrow> (int \<times> ('d, 'z) machine_scheme) option" where
  "serial_write D buf s = do { s \<leftarrow> serial_write_loop D buf s; Some (int (length buf), s) }"

definition serial_rx_ready :: "'d io_dev \<Rightarrow> ('d, 'z) machine_scheme \<Rightarrow> u8 \<times> ('d, 'z) machine_scheme" where
  "serial_rx_ready D s = (let (v, s) = inb D COM1_LSR s in (v AND 0x01, s))"

text \<open>Receiving at most \<open>len\<close> bytes: what was stored into the buffer, whose length is the result.\<close>

fun serial_read :: "'d io_dev \<Rightarrow> nat \<Rightarrow> ('d, 'z) machine_scheme \<Rightarrow> u8 list \<times> ('d, 'z) machine_scheme" where
  "serial_read D 0 s = ([], s)"
| "serial_read D (Suc len) s =
     (let (r, s) = serial_rx_ready D s
      in if r = 0 then ([], s)
         else let (b, s) = inb D COM1_DATA s;
                  (bs, s) = serial_read D len s
              in (b # bs, s))"

definition serial_ioctl :: "u32 \<Rightarrow> u32 \<Rightarrow> aura_status_t" where
  "serial_ioctl cmd arg = AURA_OK"

definition serial_mirror_char :: "'d io_dev \<Rightarrow> char \<Rightarrow> ('d, 'z) machine_scheme \<Rightarrow> ('d, 'z) machine_scheme option" where
  "serial_mirror_char D c s =
     do { s \<leftarrow> (if c = CHR 0x0A then map_option snd (serial_write D [byte_of (CHR 0x0D)] s) else Some s);
          map_option snd (serial_write D [byte_of c] s) }"

section \<open>What the UART does\<close>

text \<open>Polling the line status register makes the transmitter ready after finitely many reads.\<close>

inductive tx_live :: "'d io_dev \<Rightarrow> 'd \<Rightarrow> bool" for D where
  ready: "fst (in8 D COM1_LSR d) AND 0x20 \<noteq> 0 \<Longrightarrow> tx_live D d"
| poll: "tx_live D (snd (in8 D COM1_LSR d)) \<Longrightarrow> tx_live D d"

text \<open>\<open>dlab\<close> is the divisor-latch bit and \<open>sent\<close> the bytes transmitted so far.\<close>

definition uart_ok :: "'d io_dev \<Rightarrow> ('d \<Rightarrow> bool) \<Rightarrow> ('d \<Rightarrow> u8 list) \<Rightarrow> bool" where
  "uart_ok D dlab sent \<longleftrightarrow>
     (\<forall>d. tx_live D d) \<and>
     (\<forall>p d. dlab (snd (in8 D p d)) = dlab d \<and> sent (snd (in8 D p d)) = sent d) \<and>
     (\<forall>v d. dlab (out8 D COM1_LCR v d) = bit v 7 \<and> sent (out8 D COM1_LCR v d) = sent d) \<and>
     (\<forall>v d. dlab (out8 D COM1_DATA v d) = dlab d \<and>
        sent (out8 D COM1_DATA v d) = (if dlab d then sent d else sent d @ [v])) \<and>
     (\<forall>p v d. p \<noteq> COM1_LCR \<and> p \<noteq> COM1_DATA \<longrightarrow> dlab (out8 D p v d) = dlab d \<and> sent (out8 D p v d) = sent d)"

record uart_emu_st =
  emu_dlab :: bool
  emu_sent :: "u8 list"
  emu_busy :: nat

definition uart_emu :: "uart_emu_st io_dev" where
  "uart_emu = \<lparr>
     in8 = (\<lambda>p d. if p = COM1_LSR
                  then (if emu_busy d = 0 then (0x20, d) else (0, d\<lparr>emu_busy := emu_busy d - 1\<rparr>))
                  else (0, d)),
     out8 = (\<lambda>p v d. if p = COM1_LCR then d\<lparr>emu_dlab := bit v 7\<rparr>
                     else if p = COM1_DATA \<and> \<not> emu_dlab d
                          then d\<lparr>emu_sent := emu_sent d @ [v], emu_busy := 3\<rparr> else d),
     in16 = (\<lambda>p d. (0, d)), out16 = (\<lambda>p v d. d)\<rparr>"

lemma uart_emu_live: "tx_live uart_emu d"
proof (induction "emu_busy d" arbitrary: d)
  case 0
  then show ?case by (intro tx_live.ready) (simp add: uart_emu_def)
next
  case (Suc n)
  show ?case by (rule tx_live.poll, rule Suc.hyps(1)) (use Suc.hyps(2) [symmetric] in \<open>simp add: uart_emu_def\<close>)
qed

lemma uart_emu_ok: "uart_ok uart_emu emu_dlab emu_sent"
  unfolding uart_ok_def
proof (intro conjI allI impI)
  show "tx_live uart_emu d" for d by (rule uart_emu_live)
qed (simp_all add: uart_emu_def)

section \<open>Transmission\<close>

text \<open>The operations of this theory change the device only.\<close>

lemma serial_tx_wait_live:
  assumes "tx_live D d" "dev s = d"
  shows "\<exists>n. serial_tx_wait D s = Some (s\<lparr>dev := ((\<lambda>d. snd (in8 D COM1_LSR d)) ^^ n) d\<rparr>)"
  using assms
proof (induction arbitrary: s rule: tx_live.induct)
  case (ready d)
  then have "serial_tx_wait D s = Some (s\<lparr>dev := ((\<lambda>d. snd (in8 D COM1_LSR d)) ^^ 1) d\<rparr>)"
    by (subst serial_tx_wait.simps) (simp add: serial_tx_ready_def inb_def Let_def split_def)
  then show ?case by blast
next
  case (poll d)
  show ?case
  proof (cases "fst (in8 D COM1_LSR d) AND 0x20 = 0")
    case True
    let ?s = "s\<lparr>dev := snd (in8 D COM1_LSR d)\<rparr>"
    have "serial_tx_wait D s = serial_tx_wait D ?s"
      using True poll.prems
      by (subst serial_tx_wait.simps) (simp add: serial_tx_ready_def inb_def Let_def split_def)
    moreover obtain n where
      "serial_tx_wait D ?s = Some (?s\<lparr>dev := ((\<lambda>d. snd (in8 D COM1_LSR d)) ^^ n) (snd (in8 D COM1_LSR d))\<rparr>)"
      using poll.IH [of ?s] by auto
    ultimately have "serial_tx_wait D s = Some (s\<lparr>dev := ((\<lambda>d. snd (in8 D COM1_LSR d)) ^^ Suc n) d\<rparr>)"
      by (simp only: funpow_Suc_right comp_apply machine.update_convs) simp
    then show ?thesis by blast
  next
    case False
    then have "serial_tx_wait D s = Some (s\<lparr>dev := ((\<lambda>d. snd (in8 D COM1_LSR d)) ^^ 1) d\<rparr>)"
      using poll.prems
      by (subst serial_tx_wait.simps) (simp add: serial_tx_ready_def inb_def Let_def split_def)
    then show ?thesis by blast
  qed
qed

lemma uart_polls:
  assumes "uart_ok D dlab sent"
  shows "dlab (((\<lambda>d. snd (in8 D COM1_LSR d)) ^^ n) d) = dlab d"
    "sent (((\<lambda>d. snd (in8 D COM1_LSR d)) ^^ n) d) = sent d"
  using assms by (induction n) (auto simp: uart_ok_def)

lemma uart_data:
  assumes "uart_ok D dlab sent"
  shows "dlab (out8 D COM1_DATA v d) = dlab d"
    "sent (out8 D COM1_DATA v d) = (if dlab d then sent d else sent d @ [v])"
  using assms unfolding uart_ok_def by blast+

lemma uart_other:
  assumes "uart_ok D dlab sent" "p \<noteq> COM1_LCR" "p \<noteq> COM1_DATA"
  shows "dlab (out8 D p v d) = dlab d" "sent (out8 D p v d) = sent d"
  using assms unfolding uart_ok_def by blast+

lemma serial_write_loop_sends:
  assumes ok: "uart_ok D dlab sent" and "\<not> dlab (dev s)"
  shows "\<exists>d. serial_write_loop D buf s = Some (s\<lparr>dev := d\<rparr>) \<and> \<not> dlab d \<and> sent d = sent (dev s) @ buf"
  using assms(2)
proof (induction buf arbitrary: s)
  case Nil
  then show ?case by (intro exI [of _ "dev s"]) simp
next
  case (Cons b buf)
  have "tx_live D (dev s)" using ok by (simp add: uart_ok_def)
  then obtain n where n: "serial_tx_wait D s = Some (s\<lparr>dev := ((\<lambda>d. snd (in8 D COM1_LSR d)) ^^ n) (dev s)\<rparr>)"
    using serial_tx_wait_live [of D "dev s" s] by blast
  let ?d = "out8 D COM1_DATA b (((\<lambda>d. snd (in8 D COM1_LSR d)) ^^ n) (dev s))"
  have d: "\<not> dlab ?d" "sent ?d = sent (dev s) @ [b]"
    using Cons.prems by (simp_all add: uart_data [OF ok] uart_polls [OF ok])
  obtain d where "serial_write_loop D buf (s\<lparr>dev := ?d\<rparr>) = Some (s\<lparr>dev := d\<rparr>)" "\<not> dlab d"
    "sent d = sent ?d @ buf"
    using Cons.IH [of "s\<lparr>dev := ?d\<rparr>"] d by auto
  then show ?case using n d by (intro exI [of _ d]) (simp add: outb_def)
qed

lemma serial_write_sends:
  assumes "uart_ok D dlab sent" "\<not> dlab (dev s)"
  shows "\<exists>d. serial_write D buf s = Some (int (length buf), s\<lparr>dev := d\<rparr>) \<and> \<not> dlab d \<and> sent d = sent (dev s) @ buf"
  using serial_write_loop_sends [OF assms, of buf] by (auto simp: serial_write_def)

text \<open>The bytes one screen character becomes on the line.\<close>

definition mirror_bytes :: "char \<Rightarrow> u8 list" where
  "mirror_bytes c = (if c = CHR 0x0A then [0x0D, 0x0A] else [byte_of c])"

lemma serial_mirror_char_sends:
  assumes ok: "uart_ok D dlab sent" and nd: "\<not> dlab (dev s)"
  shows "\<exists>d. serial_mirror_char D c s = Some (s\<lparr>dev := d\<rparr>) \<and> \<not> dlab d \<and> sent d = sent (dev s) @ mirror_bytes c"
proof -
  obtain d1 where d1: "serial_write D [byte_of (CHR 0x0D)] s = Some (1, s\<lparr>dev := d1\<rparr>)" "\<not> dlab d1"
    "sent d1 = sent (dev s) @ [byte_of (CHR 0x0D)]"
    using serial_write_sends [OF assms, of "[byte_of (CHR 0x0D)]"] by auto
  obtain d2 where d2: "serial_write D [byte_of c] (s\<lparr>dev := d1\<rparr>) = Some (1, s\<lparr>dev := d2\<rparr>)" "\<not> dlab d2"
    "sent d2 = sent d1 @ [byte_of c]"
    using serial_write_sends [OF ok, of "s\<lparr>dev := d1\<rparr>" "[byte_of c]"] d1(2) by auto
  obtain d3 where d3: "serial_write D [byte_of c] s = Some (1, s\<lparr>dev := d3\<rparr>)" "\<not> dlab d3"
    "sent d3 = sent (dev s) @ [byte_of c]"
    using serial_write_sends [OF assms, of "[byte_of c]"] by auto
  have nl: "byte_of (CHR 0x0D) = 0x0D" "byte_of (CHR 0x0A) = 0x0A" by (simp_all add: byte_of_def)
  show ?thesis
  proof (cases "c = CHR 0x0A")
    case True
    then show ?thesis
      using d1 d2 by (intro exI [of _ d2]) (simp add: serial_mirror_char_def mirror_bytes_def nl)
  next
    case False
    then show ?thesis using d3 by (intro exI [of _ d3]) (simp add: serial_mirror_char_def mirror_bytes_def)
  qed
qed

lemma serial_open_dev:
  assumes "uart_ok D dlab sent"
  shows "\<exists>d. serial_open D s = (AURA_OK, s\<lparr>dev := d\<rparr>) \<and> \<not> dlab d \<and> sent d = sent (dev s)"
  using assms by (auto simp: serial_open_def outb_def Let_def uart_ok_def)

end
