(* ===== verification/Vga.thy ===== *)
theory Vga
  imports Memory_Manager Serial_Port
begin

unbundle bit_operations_syntax

text \<open>
  \<^verbatim>\<open>kernel/vga.c\<close>: the text-mode console. The screen is the 80 by 25 array of 16-bit cells at
  physical address \<open>0xB8000\<close>; the driver's statics are the cursor, the colour and the serial hook.
  A character goes to the screen and then through the hook, if one is installed. The only function
  ever installed is \<^verbatim>\<open>serial_mirror_char\<close>, so the function pointer is an optional value of a
  one-element type. With the hook installed a print waits for the UART, so every printing operation
  is in \<open>option\<close>.

  The specification is an abstract terminal (\<open>term_st\<close>: 2000 cells, a cursor in natural numbers and a
  colour) with one transition per character; \<open>abs_term\<close> reads it off the memory, and
  \<open>vga_put_chars_refines\<close> says that printing implements the terminal, keeps the cursor on the screen and
  writes no byte outside the text window.
\<close>

section \<open>State\<close>

datatype vga_color_t =
    VGA_COLOR_BLACK | VGA_COLOR_BLUE | VGA_COLOR_GREEN | VGA_COLOR_CYAN
  | VGA_COLOR_RED | VGA_COLOR_MAGENTA | VGA_COLOR_BROWN | VGA_COLOR_LIGHT_GREY
  | VGA_COLOR_DARK_GREY | VGA_COLOR_LIGHT_BLUE | VGA_COLOR_LIGHT_GREEN | VGA_COLOR_LIGHT_CYAN
  | VGA_COLOR_LIGHT_RED | VGA_COLOR_LIGHT_MAGENTA | VGA_COLOR_YELLOW | VGA_COLOR_WHITE

fun color_code :: "vga_color_t \<Rightarrow> u8" where
  "color_code VGA_COLOR_BLACK = 0"
| "color_code VGA_COLOR_BLUE = 1"
| "color_code VGA_COLOR_GREEN = 2"
| "color_code VGA_COLOR_CYAN = 3"
| "color_code VGA_COLOR_RED = 4"
| "color_code VGA_COLOR_MAGENTA = 5"
| "color_code VGA_COLOR_BROWN = 6"
| "color_code VGA_COLOR_LIGHT_GREY = 7"
| "color_code VGA_COLOR_DARK_GREY = 8"
| "color_code VGA_COLOR_LIGHT_BLUE = 9"
| "color_code VGA_COLOR_LIGHT_GREEN = 10"
| "color_code VGA_COLOR_LIGHT_CYAN = 11"
| "color_code VGA_COLOR_LIGHT_RED = 12"
| "color_code VGA_COLOR_LIGHT_MAGENTA = 13"
| "color_code VGA_COLOR_YELLOW = 14"
| "color_code VGA_COLOR_WHITE = 15"

abbreviation VGA_WIDTH :: nat where "VGA_WIDTH \<equiv> 80"
abbreviation VGA_HEIGHT :: nat where "VGA_HEIGHT \<equiv> 25"
abbreviation VGA_BUFFER :: nat where "VGA_BUFFER \<equiv> 0xB8000"

datatype serial_hook = Serial_mirror_char

record 'd vga_st = "'d heap_st" +
  vga_row :: u8
  vga_col :: u8
  vga_color :: u8
  g_serial_hook :: "serial_hook option"

abbreviation LF :: char where "LF \<equiv> CHR 0x0A"
abbreviation CR :: char where "CR \<equiv> CHR 0x0D"
abbreviation TAB :: char where "TAB \<equiv> CHR 0x09"
abbreviation BS :: char where "BS \<equiv> CHR 0x08"

section \<open>Operations\<close>

definition vga_make_color :: "vga_color_t \<Rightarrow> vga_color_t \<Rightarrow> u8" where
  "vga_make_color fg bg = push_bit 4 (color_code bg) OR (color_code fg AND 0x0F)"

definition vga_make_entry :: "char \<Rightarrow> u8 \<Rightarrow> u16" where
  "vga_make_entry c color = ucast (byte_of c) OR push_bit 8 (ucast color)"

text \<open>The cell \<open>VGA_BUFFER[i]\<close>.\<close>

definition vga_cell :: "memory \<Rightarrow> nat \<Rightarrow> u16" where
  "vga_cell m i = rd16 m (VGA_BUFFER + 2 * i)"

definition vga_set_cell :: "nat \<Rightarrow> u16 \<Rightarrow> memory \<Rightarrow> memory" where
  "vga_set_cell i e m = wr16 m (VGA_BUFFER + 2 * i) e"

definition vga_update_cursor :: "'d io_dev \<Rightarrow> ('d, 'z) vga_st_scheme \<Rightarrow> ('d, 'z) vga_st_scheme" where
  "vga_update_cursor D s =
     (let pos = of_nat (unat (vga_row s) * VGA_WIDTH + unat (vga_col s)) :: u16;
          s = outb D 0x3D4 0x0F s;
          s = outb D 0x3D5 (ucast (pos AND 0xFF)) s;
          s = outb D 0x3D4 0x0E s
      in outb D 0x3D5 (ucast (drop_bit 8 pos AND 0xFF)) s)"

definition vga_scroll :: "('d, 'z) vga_st_scheme \<Rightarrow> ('d, 'z) vga_st_scheme" where
  "vga_scroll s =
     (let m = fold (\<lambda>row. fold (\<lambda>col m.
                 vga_set_cell (row * VGA_WIDTH + col) (vga_cell m ((row + 1) * VGA_WIDTH + col)) m)
                [0..<VGA_WIDTH]) [0..<VGA_HEIGHT - 1] (mem s);
          m = fold (\<lambda>col. vga_set_cell ((VGA_HEIGHT - 1) * VGA_WIDTH + col) (vga_make_entry CHR '' '' (vga_color s)))
                [0..<VGA_WIDTH] m;
          s = s\<lparr>mem := m\<rparr>
      in if 0 < vga_row s then s\<lparr>vga_row := of_nat (VGA_HEIGHT - 1)\<rparr> else s)"

definition vga_clear :: "'d io_dev \<Rightarrow> ('d, 'z) vga_st_scheme \<Rightarrow> ('d, 'z) vga_st_scheme" where
  "vga_clear D s =
     (let m = fold (\<lambda>row. fold (\<lambda>col.
                 vga_set_cell (row * VGA_WIDTH + col) (vga_make_entry CHR '' '' (vga_color s)))
                [0..<VGA_WIDTH]) [0..<VGA_HEIGHT] (mem s)
      in vga_update_cursor D (s\<lparr>mem := m, vga_row := 0, vga_col := 0\<rparr>))"

definition vga_set_color :: "vga_color_t \<Rightarrow> vga_color_t \<Rightarrow> ('d, 'z) vga_st_scheme \<Rightarrow> ('d, 'z) vga_st_scheme" where
  "vga_set_color fg bg s = s\<lparr>vga_color := vga_make_color fg bg\<rparr>"

definition vga_init :: "'d io_dev \<Rightarrow> ('d, 'z) vga_st_scheme \<Rightarrow> ('d, 'z) vga_st_scheme" where
  "vga_init D s =
     vga_clear D (s\<lparr>vga_row := 0, vga_col := 0,
       vga_color := vga_make_color VGA_COLOR_LIGHT_GREEN VGA_COLOR_BLACK\<rparr>)"

definition vga_set_cursor :: "'d io_dev \<Rightarrow> u8 \<Rightarrow> u8 \<Rightarrow> ('d, 'z) vga_st_scheme \<Rightarrow> ('d, 'z) vga_st_scheme" where
  "vga_set_cursor D row col s = vga_update_cursor D (s\<lparr>vga_row := row, vga_col := col\<rparr>)"

text \<open>The effect of a character on the cursor and the screen, up to the scroll.\<close>

definition vga_put_step :: "char \<Rightarrow> ('d, 'z) vga_st_scheme \<Rightarrow> ('d, 'z) vga_st_scheme" where
  "vga_put_step c s =
     (let at = (\<lambda>s. unat (vga_row s) * VGA_WIDTH + unat (vga_col s));
          wrap = (\<lambda>s. if of_nat VGA_WIDTH \<le> vga_col s then s\<lparr>vga_col := 0, vga_row := vga_row s + 1\<rparr> else s)
      in if c = LF then s\<lparr>vga_col := 0, vga_row := vga_row s + 1\<rparr>
         else if c = CR then s\<lparr>vga_col := 0\<rparr>
         else if c = TAB then wrap (s\<lparr>vga_col := (vga_col s + 8) AND NOT 7\<rparr>)
         else if c = BS then
           (if 0 < vga_col s
            then (let s = s\<lparr>vga_col := vga_col s - 1\<rparr>
                  in s\<lparr>mem := vga_set_cell (at s) (vga_make_entry CHR '' '' (vga_color s)) (mem s)\<rparr>)
            else s)
         else (let s = s\<lparr>mem := vga_set_cell (at s) (vga_make_entry c (vga_color s)) (mem s)\<rparr>
               in wrap (s\<lparr>vga_col := vga_col s + 1\<rparr>)))"

definition vga_putchar :: "'d io_dev \<Rightarrow> char \<Rightarrow> ('d, 'z) vga_st_scheme \<Rightarrow> ('d, 'z) vga_st_scheme option" where
  "vga_putchar D c s =
     (let s = vga_put_step c s;
          s = (if of_nat VGA_HEIGHT \<le> vga_row s then vga_scroll s else s)
      in do { s \<leftarrow> (case g_serial_hook s of
                      None \<Rightarrow> Some s
                    | Some Serial_mirror_char \<Rightarrow> serial_mirror_char D c s);
              Some (vga_update_cursor D s) })"

function vga_print_loop :: "'d io_dev \<Rightarrow> string \<Rightarrow> nat \<Rightarrow> ('d, 'z) vga_st_scheme \<Rightarrow> ('d, 'z) vga_st_scheme option" where
  "vga_print_loop D str i s =
     (if c_at str i \<noteq> NUL then do { s \<leftarrow> vga_putchar D (c_at str i) s; vga_print_loop D str (Suc i) s }
      else Some s)"
  by pat_completeness auto
termination
  by (relation "measure (\<lambda>(D, str, i, s). length str - i)") (auto simp: c_at_def split: if_splits)

declare vga_print_loop.simps [simp del]

definition vga_print :: "'d io_dev \<Rightarrow> string option \<Rightarrow> ('d, 'z) vga_st_scheme \<Rightarrow> ('d, 'z) vga_st_scheme option" where
  "vga_print D str s = (case str of None \<Rightarrow> Some s | Some str \<Rightarrow> vga_print_loop D str 0 s)"

definition vga_println :: "'d io_dev \<Rightarrow> string option \<Rightarrow> ('d, 'z) vga_st_scheme \<Rightarrow> ('d, 'z) vga_st_scheme option" where
  "vga_println D str s = do { s \<leftarrow> vga_print D str s; vga_putchar D LF s }"

definition vga_puts :: "'d io_dev \<Rightarrow> string option \<Rightarrow> ('d, 'z) vga_st_scheme \<Rightarrow> ('d, 'z) vga_st_scheme option" where
  "vga_puts D str s = vga_print D str s"

text \<open>A sequence of calls of \<^const>\<open>vga_putchar\<close>.\<close>

primrec vga_put_chars :: "'d io_dev \<Rightarrow> string \<Rightarrow> ('d, 'z) vga_st_scheme \<Rightarrow> ('d, 'z) vga_st_scheme option" where
  "vga_put_chars D [] s = Some s"
| "vga_put_chars D (c # cs) s = do { s \<leftarrow> vga_putchar D c s; vga_put_chars D cs s }"

definition vga_print_hex :: "'d io_dev \<Rightarrow> u32 \<Rightarrow> ('d, 'z) vga_st_scheme \<Rightarrow> ('d, 'z) vga_st_scheme option" where
  "vga_print_hex D val s =
     do { s \<leftarrow> vga_print D (Some ''0x'') s;
          vga_put_chars D (map (\<lambda>i. ''0123456789ABCDEF'' ! unat (drop_bit i val AND 0xF)) [28, 24, 20, 16, 12, 8, 4, 0]) s }"

function dec_loop :: "u32 \<Rightarrow> string \<Rightarrow> string" where
  "dec_loop val buf =
     (if 0 < val then dec_loop (val div 10) (buf @ [char_of (48 + unat (val mod 10))]) else buf)"
  by pat_completeness auto
termination
  by (relation "measure (\<lambda>(val, buf). unat val)") (auto simp: word_less_nat_alt unat_div)

declare dec_loop.simps [simp del]

definition vga_print_dec :: "'d io_dev \<Rightarrow> u32 \<Rightarrow> ('d, 'z) vga_st_scheme \<Rightarrow> ('d, 'z) vga_st_scheme option" where
  "vga_print_dec D val s =
     (if val = 0 then vga_putchar D CHR ''0'' s else vga_put_chars D (rev (dec_loop val [])) s)"

text \<open>
  The variadic arguments are a list. Reading an argument that is missing or of the wrong kind, and
  reading beyond the terminator of the format, which a \<open>%\<close> at its end causes, have no defined result.
\<close>

datatype printf_arg = Arg_int u32 | Arg_str "string option"

fun vga_printf_loop :: "'d io_dev \<Rightarrow> string \<Rightarrow> printf_arg list \<Rightarrow> ('d, 'z) vga_st_scheme \<Rightarrow> ('d, 'z) vga_st_scheme option" where
  "vga_printf_loop D [] args s = Some s"
| "vga_printf_loop D (c # fmt) args s =
     (if c \<noteq> CHR ''%'' then do { s \<leftarrow> vga_putchar D c s; vga_printf_loop D fmt args s }
      else case fmt of
        [] \<Rightarrow> None
      | k # fmt' \<Rightarrow>
         (if k = CHR ''c'' then
            (case args of
               Arg_int v # args \<Rightarrow> do { s \<leftarrow> vga_putchar D (char_of_byte (ucast v)) s; vga_printf_loop D fmt' args s }
             | _ \<Rightarrow> None)
          else if k = CHR ''s'' then
            (case args of
               Arg_str v # args \<Rightarrow>
                 do { s \<leftarrow> vga_print D (if v = None then Some ''(null)'' else v) s; vga_printf_loop D fmt' args s }
             | _ \<Rightarrow> None)
          else if k = CHR ''d'' then
            (case args of
               Arg_int v # args \<Rightarrow>
                 do { s \<leftarrow> (if v <s 0 then do { s \<leftarrow> vga_putchar D CHR ''-'' s; vga_print_dec D (- v) s }
                           else vga_print_dec D v s);
                      vga_printf_loop D fmt' args s }
             | _ \<Rightarrow> None)
          else if k = CHR ''u'' then
            (case args of
               Arg_int v # args \<Rightarrow> do { s \<leftarrow> vga_print_dec D v s; vga_printf_loop D fmt' args s }
             | _ \<Rightarrow> None)
          else if k = CHR ''x'' \<or> k = CHR ''X'' then
            (case args of
               Arg_int v # args \<Rightarrow> do { s \<leftarrow> vga_print_hex D v s; vga_printf_loop D fmt' args s }
             | _ \<Rightarrow> None)
          else if k = CHR ''%'' then do { s \<leftarrow> vga_putchar D CHR ''%'' s; vga_printf_loop D fmt' args s }
          else do { s \<leftarrow> vga_putchar D CHR ''%'' s; s \<leftarrow> vga_putchar D k s; vga_printf_loop D fmt' args s }))"

definition vga_printf :: "'d io_dev \<Rightarrow> string option \<Rightarrow> printf_arg list \<Rightarrow> ('d, 'z) vga_st_scheme \<Rightarrow> ('d, 'z) vga_st_scheme option" where
  "vga_printf D fmt args s = (case fmt of None \<Rightarrow> Some s | Some fmt \<Rightarrow> vga_printf_loop D (cstr fmt) args s)"

definition vga_set_serial_hook :: "serial_hook option \<Rightarrow> ('d, 'z) vga_st_scheme \<Rightarrow> ('d, 'z) vga_st_scheme" where
  "vga_set_serial_hook fn s = s\<lparr>g_serial_hook := fn\<rparr>"

section \<open>The abstract terminal\<close>

record term_st =
  t_cells :: "nat \<Rightarrow> u16"
  t_row :: nat
  t_col :: nat
  t_color :: u8

abbreviation CELLS :: nat where "CELLS \<equiv> 2000"

definition blank :: "u8 \<Rightarrow> u16" where
  "blank color = vga_make_entry CHR '' '' color"

definition term_scroll :: "term_st \<Rightarrow> term_st" where
  "term_scroll t =
     t\<lparr>t_cells := (\<lambda>i. if i < 1920 then t_cells t (i + 80) else if i < CELLS then blank (t_color t) else 0), t_row := 24\<rparr>"

definition term_newline :: "term_st \<Rightarrow> term_st" where
  "term_newline t = (if t_row t = 24 then term_scroll (t\<lparr>t_col := 0\<rparr>) else t\<lparr>t_col := 0, t_row := t_row t + 1\<rparr>)"

definition term_put :: "char \<Rightarrow> term_st \<Rightarrow> term_st" where
  "term_put c t =
     (if c = LF then term_newline t
      else if c = CR then t\<lparr>t_col := 0\<rparr>
      else if c = TAB then
        (if 72 \<le> t_col t then term_newline t else t\<lparr>t_col := (t_col t div 8 + 1) * 8\<rparr>)
      else if c = BS then
        (if t_col t = 0 then t
         else t\<lparr>t_col := t_col t - 1, t_cells := (t_cells t)(80 * t_row t + t_col t - 1 := blank (t_color t))\<rparr>)
      else (let t = t\<lparr>t_cells := (t_cells t)(80 * t_row t + t_col t := vga_make_entry c (t_color t))\<rparr>
            in if t_col t = 79 then term_newline t else t\<lparr>t_col := t_col t + 1\<rparr>))"

definition abs_term :: "('d, 'z) vga_st_scheme \<Rightarrow> term_st" where
  "abs_term s = \<lparr>t_cells = (\<lambda>i. if i < CELLS then vga_cell (mem s) i else 0),
     t_row = unat (vga_row s), t_col = unat (vga_col s), t_color = vga_color s\<rparr>"

lemma abs_term_fields [simp]:
  "t_row (abs_term s) = unat (vga_row s)" "t_col (abs_term s) = unat (vga_col s)" "t_color (abs_term s) = vga_color s"
  by (simp_all add: abs_term_def)

lemma abs_term_col [simp]: "abs_term (s\<lparr>vga_col := c\<rparr>) = (abs_term s)\<lparr>t_col := unat c\<rparr>"
  by (simp add: abs_term_def cong: if_cong)

lemma abs_term_row [simp]: "abs_term (s\<lparr>vga_row := r\<rparr>) = (abs_term s)\<lparr>t_row := unat r\<rparr>"
  by (simp add: abs_term_def cong: if_cong)

lemma abs_term_dev [simp]: "abs_term (s\<lparr>dev := d\<rparr>) = abs_term s"
  by (simp add: abs_term_def cong: if_cong)

text \<open>The cursor is on the screen.\<close>

definition vga_ok :: "('d, 'z) vga_st_scheme \<Rightarrow> bool" where
  "vga_ok s \<longleftrightarrow> unat (vga_row s) < 25 \<and> unat (vga_col s) < 80"

text \<open>\<open>s'\<close> differs from \<open>s\<close> at most in the device, the cursor and the bytes of the text window.\<close>

definition screen_only :: "('d, 'z) vga_st_scheme \<Rightarrow> ('d, 'z) vga_st_scheme \<Rightarrow> bool" where
  "screen_only s s' \<longleftrightarrow>
     (\<exists>m d r c. s' = s\<lparr>mem := m, dev := d, vga_row := r, vga_col := c\<rparr> \<and>
        (\<forall>k. k < VGA_BUFFER \<or> VGA_BUFFER + 4000 \<le> k \<longrightarrow> m k = mem s k))"

lemma screen_onlyI:
  "s' = s\<lparr>mem := m, dev := d, vga_row := r, vga_col := c\<rparr> \<Longrightarrow>
   (\<And>k. k < VGA_BUFFER \<or> VGA_BUFFER + 4000 \<le> k \<Longrightarrow> m k = mem s k) \<Longrightarrow> screen_only s s'"
  unfolding screen_only_def by blast

lemma screen_only_refl [simp]: "screen_only s s"
  by (rule screen_onlyI [where m = "mem s" and d = "dev s" and r = "vga_row s" and c = "vga_col s"]) simp_all

lemma screen_only_trans: "screen_only s s' \<Longrightarrow> screen_only s' s'' \<Longrightarrow> screen_only s s''"
proof -
  assume "screen_only s s'" "screen_only s' s''"
  then obtain m d r c m' d' r' c' where
    "s' = s\<lparr>mem := m, dev := d, vga_row := r, vga_col := c\<rparr>"
    "\<And>k. k < VGA_BUFFER \<or> VGA_BUFFER + 4000 \<le> k \<Longrightarrow> m k = mem s k"
    "s'' = s'\<lparr>mem := m', dev := d', vga_row := r', vga_col := c'\<rparr>"
    "\<And>k. k < VGA_BUFFER \<or> VGA_BUFFER + 4000 \<le> k \<Longrightarrow> m' k = mem s' k"
    unfolding screen_only_def by blast
  then show ?thesis
    by (intro screen_onlyI [where m = m' and d = d' and r = r' and c = c']) simp_all
qed

lemma screen_only_fields:
  assumes "screen_only s s'"
  shows "heap_head s' = heap_head s" "cr0 s' = cr0 s" "cr3 s' = cr3 s" "cr4 s' = cr4 s" "vga_color s' = vga_color s"
    "g_serial_hook s' = g_serial_hook s" "vga_st.more s' = vga_st.more s" "int_flag s' = int_flag s"
    "g_tick_count s' = g_tick_count s" "g_kernel_state s' = g_kernel_state s"
    "k < VGA_BUFFER \<or> VGA_BUFFER + 4000 \<le> k \<Longrightarrow> mem s' k = mem s k"
  using assms by (auto simp: screen_only_def)

section \<open>Cells\<close>

lemma vga_cell_same [simp]: "vga_cell (vga_set_cell i e m) i = e"
  by (simp add: vga_cell_def vga_set_cell_def mem_simps)

lemma vga_cell_other [simp]: "i \<noteq> j \<Longrightarrow> vga_cell (vga_set_cell i e m) j = vga_cell m j"
  by (simp add: vga_cell_def vga_set_cell_def) (rule rd16_wr16_other, arith)

lemma vga_set_cell_frame: "k < VGA_BUFFER \<or> VGA_BUFFER + 4000 \<le> k \<Longrightarrow> i < CELLS \<Longrightarrow> vga_set_cell i e m k = m k"
  by (auto simp: vga_set_cell_def intro!: wr16_apply_other)

text \<open>A doubly nested loop over rows and columns runs over the cells in order.\<close>

lemma fold_rows:
  "fold (\<lambda>row. fold (\<lambda>col. g (row * w + col)) [0..<w]) [0..<n] m = fold g [0..<n * w] (m :: 'm)"
proof (induction n)
  case 0
  then show ?case by simp
next
  case (Suc n)
  have "[0..<Suc n * w] = [0..<n * w] @ [n * w..<n * w + w]"
    using upt_add_eq_append [of 0 "n * w" w] by (simp add: add.commute)
  moreover have "[n * w..<n * w + w] = map (\<lambda>col. n * w + col) [0..<w]"
    by (simp add: map_add_upt add.commute)
  ultimately show ?case using Suc by (simp add: fold_map comp_def)
qed

lemma scroll_cells:
  "vga_cell (fold (\<lambda>i m. vga_set_cell i (vga_cell m (i + 80)) m) [0..<n] m) j =
     (if j < n then vga_cell m (j + 80) else vga_cell m j)"
proof (induction n arbitrary: j)
  case 0
  then show ?case by simp
next
  case (Suc n)
  let ?m = "fold (\<lambda>i m. vga_set_cell i (vga_cell m (i + 80)) m) [0..<n] m"
  have "vga_cell (vga_set_cell n (vga_cell ?m (n + 80)) ?m) j =
      (if j = n then vga_cell ?m (n + 80) else vga_cell ?m j)" by simp
  then show ?case using Suc by auto
qed

lemma fill_cells:
  "vga_cell (fold (\<lambda>i. vga_set_cell (a + i) e) [0..<n] m) j = (if a \<le> j \<and> j < a + n then e else vga_cell m j)"
proof (induction n)
  case 0
  then show ?case by auto
next
  case (Suc n)
  let ?m = "fold (\<lambda>i. vga_set_cell (a + i) e) [0..<n] m"
  have "vga_cell (vga_set_cell (a + n) e ?m) j = (if j = a + n then e else vga_cell ?m j)" by simp
  then show ?case using Suc by auto
qed

lemma fold_cells_frame:
  assumes "\<And>i m. i \<in> set is \<Longrightarrow> g i m k = m k"
  shows "fold g is m k = (m k :: u8)"
  using assms by (induction "is" arbitrary: m) auto

definition scroll_mem :: "u8 \<Rightarrow> memory \<Rightarrow> memory" where
  "scroll_mem color m =
     fold (\<lambda>i. vga_set_cell (1920 + i) (blank color)) [0..<80]
       (fold (\<lambda>i m. vga_set_cell i (vga_cell m (i + 80)) m) [0..<1920] m)"

lemma vga_scroll_eq:
  "vga_scroll s = s\<lparr>mem := scroll_mem (vga_color s) (mem s), vga_row := (if 0 < vga_row s then 24 else vga_row s)\<rparr>"
proof -
  have "fold (\<lambda>row. fold (\<lambda>col m. vga_set_cell (row * 80 + col) (vga_cell m ((row + 1) * 80 + col)) m) [0..<80]) [0..<24] m
      = fold (\<lambda>i m. vga_set_cell i (vga_cell m (i + 80)) m) [0..<1920] m" for m
    using fold_rows [of "\<lambda>i m. vga_set_cell i (vga_cell m (i + 80)) m" 80 24 m] by (simp add: add_ac)
  then show ?thesis by (simp add: vga_scroll_def scroll_mem_def blank_def Let_def del: upt_rec_numeral)
qed

lemma scroll_mem_cell:
  "i < CELLS \<Longrightarrow> vga_cell (scroll_mem color m) i = (if i < 1920 then vga_cell m (i + 80) else blank color)"
  unfolding scroll_mem_def fill_cells scroll_cells by simp

lemma scroll_mem_frame:
  assumes "k < VGA_BUFFER \<or> VGA_BUFFER + 4000 \<le> k"
  shows "scroll_mem color m k = m k"
proof -
  have "fold (\<lambda>i. vga_set_cell (1920 + i) (blank color)) [0..<80] x k = x k" for x
    using assms by (intro fold_cells_frame vga_set_cell_frame) auto
  moreover have "fold (\<lambda>i m. vga_set_cell i (vga_cell m (i + 80)) m) [0..<1920] m k = m k"
    using assms by (intro fold_cells_frame vga_set_cell_frame) auto
  ultimately show ?thesis by (simp only: scroll_mem_def)
qed

section \<open>One character\<close>

lemma u8_add: "unat (x :: u8) + n < 256 \<Longrightarrow> unat (x + of_nat n) = unat x + n"
  by (simp add: unat_word_ariths unat_of_nat)

lemma u8_inc: "unat (x :: u8) < 255 \<Longrightarrow> unat (x + 1) = unat x + 1"
  using u8_add [of x 1] by simp

lemma u8_tab: "unat (x :: u8) < 80 \<Longrightarrow> unat ((x + 8) AND NOT 7) = (unat x div 8 + 1) * 8"
proof -
  assume x: "unat x < 80"
  have m7: "(7 :: u8) = mask 3" by (simp add: mask_eq_exp_minus_1)
  have mask: "y AND NOT 7 = push_bit 3 (drop_bit 3 y)" for y :: u8
    unfolding m7 by (rule bit_word_eqI) (auto simp: bit_simps)
  have "unat (x + 8) = unat x + 8" using x u8_add [of x 8] by simp
  moreover have "(unat x + 8) div 8 * 8 < 256" using x by simp
  ultimately have "unat ((x + 8) AND NOT 7) = (unat x + 8) div 8 * 8"
    unfolding mask drop_bit_eq_div push_bit_eq_mult by (simp add: unat_word_ariths unat_div)
  moreover have "(unat x + 8) div 8 = unat x div 8 + 1" by (rule div_add_self2) simp
  ultimately show ?thesis by (simp only:)
qed

text \<open>The step and the scroll of \<^const>\<open>vga_putchar\<close>.\<close>

definition vga_put_local :: "char \<Rightarrow> ('d, 'z) vga_st_scheme \<Rightarrow> ('d, 'z) vga_st_scheme" where
  "vga_put_local c s = (let s = vga_put_step c s in if 25 \<le> vga_row s then vga_scroll s else s)"

text \<open>Carriage return and line feed, with the scroll at the bottom of the screen.\<close>

lemma newline_refines:
  assumes ok: "vga_ok s" and u: "u = s\<lparr>vga_col := 0, vga_row := vga_row s + 1\<rparr>"
    and v: "v = (if 25 \<le> vga_row u then vga_scroll u else u)"
  shows "vga_ok v \<and> screen_only s v \<and> abs_term v = term_newline (abs_term s)"
proof -
  have r: "unat (vga_row s + 1) = unat (vga_row s) + 1" using ok by (intro u8_inc) (simp add: vga_ok_def)
  show ?thesis
  proof (cases "unat (vga_row s) = 24")
    case True
    have v': "v = s\<lparr>mem := scroll_mem (vga_color s) (mem s), vga_row := 24, vga_col := 0\<rparr>"
      using True r unfolding v u vga_scroll_eq by (simp add: word_le_nat_alt word_less_nat_alt)
    have "screen_only s v"
      by (rule screen_onlyI [where d = "dev s" and m = "scroll_mem (vga_color s) (mem s)" and r = 24 and c = 0])
        (simp_all add: v' scroll_mem_frame)
    moreover have "abs_term v = term_newline (abs_term s)"
      using True by (auto simp: abs_term_def v' term_newline_def term_scroll_def scroll_mem_cell)
    ultimately show ?thesis by (simp add: vga_ok_def v')
  next
    case False
    then have lt: "unat (vga_row s) < 24" using ok by (simp add: vga_ok_def)
    have v': "v = s\<lparr>vga_col := 0, vga_row := vga_row s + 1\<rparr>"
      using lt r unfolding v u by (simp add: word_le_nat_alt)
    have "screen_only s v"
      by (rule screen_onlyI [where d = "dev s" and m = "mem s" and r = "vga_row s + 1" and c = 0]) (simp_all add: v')
    then show ?thesis using lt r by (simp add: vga_ok_def v' term_newline_def)
  qed
qed

text \<open>Writing the cell under the cursor.\<close>

lemma set_cell_refines:
  assumes ok: "vga_ok s" and u: "u = s\<lparr>mem := vga_set_cell (unat (vga_row s) * 80 + unat (vga_col s)) e (mem s)\<rparr>"
  shows "vga_ok u \<and> screen_only s u \<and>
    abs_term u = (abs_term s)\<lparr>t_cells := (t_cells (abs_term s))(80 * t_row (abs_term s) + t_col (abs_term s) := e)\<rparr>"
proof -
  have i: "unat (vga_row s) * 80 + unat (vga_col s) < CELLS" using ok by (simp add: vga_ok_def)
  have "screen_only s u"
    using i by (intro screen_onlyI [where d = "dev s" and m = "mem u" and r = "vga_row s" and c = "vga_col s"])
      (simp_all add: u vga_set_cell_frame)
  moreover have "abs_term u =
      (abs_term s)\<lparr>t_cells := (t_cells (abs_term s))(80 * t_row (abs_term s) + t_col (abs_term s) := e)\<rparr>"
    using i by (auto simp: abs_term_def u fun_eq_iff mult.commute)
  ultimately show ?thesis using ok by (simp add: vga_ok_def u)
qed

lemma set_col_screen_only: "screen_only s (s\<lparr>vga_col := c\<rparr>)"
  by (rule screen_onlyI [where d = "dev s" and m = "mem s" and r = "vga_row s" and c = c]) simp_all

text \<open>Storing a character refines the step of the terminal, one lemma for each kind of character.\<close>

definition put_refines :: "char \<Rightarrow> ('d, 'z) vga_st_scheme \<Rightarrow> bool" where
  "put_refines c s \<longleftrightarrow> vga_ok (vga_put_local c s) \<and> screen_only s (vga_put_local c s) \<and>
     abs_term (vga_put_local c s) = term_put c (abs_term s)"

lemmas put_defs = vga_put_local_def vga_put_step_def Let_def

lemma vga_ok_bounds: "vga_ok s \<Longrightarrow> unat (vga_col s) < 80" "vga_ok s \<Longrightarrow> \<not> 25 \<le> vga_row s"
  by (simp_all add: vga_ok_def word_le_nat_alt)

lemma put_tab_refines:
  assumes ok: "vga_ok s"
  shows "put_refines TAB s"
proof -
  define u where "u = s\<lparr>vga_col := (vga_col s + 8) AND NOT 7\<rparr>"
  have ucol: "unat (vga_col u) = (unat (vga_col s) div 8 + 1) * 8" unfolding u_def using u8_tab [OF vga_ok_bounds(1) [OF ok]] by simp
  show ?thesis
  proof (cases "72 \<le> unat (vga_col s)")
    case True
    have "80 \<le> vga_col u" using True ucol by (simp add: word_le_nat_alt)
    moreover have "u\<lparr>vga_col := 0, vga_row := vga_row u + 1\<rparr> = s\<lparr>vga_col := 0, vga_row := vga_row s + 1\<rparr>"
      by (simp add: u_def)
    ultimately have "vga_put_local TAB s =
        (let v = s\<lparr>vga_col := 0, vga_row := vga_row s + 1\<rparr> in if 25 \<le> vga_row v then vga_scroll v else v)"
      unfolding u_def by (simp add: put_defs)
    then show ?thesis using newline_refines [OF ok refl refl] True by (simp add: put_refines_def term_put_def Let_def)
  next
    case False
    have lt: "(unat (vga_col s) div 8 + 1) * 8 < 80" using False by simp
    then have "\<not> 80 \<le> vga_col u" using ucol by (simp add: word_le_nat_alt)
    then have "vga_put_local TAB s = u" using vga_ok_bounds(2) [OF ok] unfolding u_def by (simp add: put_defs)
    then show ?thesis
      using False ok ucol lt set_col_screen_only [of s "vga_col u"]
      by (simp add: put_refines_def term_put_def vga_ok_def) (simp add: u_def)
  qed
qed

lemma put_bs_refines:
  assumes ok: "vga_ok s"
  shows "put_refines BS s"
proof (cases "0 < vga_col s")
  case True
  let ?u = "s\<lparr>vga_col := vga_col s - 1\<rparr>"
  have dec: "unat (vga_col s - 1) = unat (vga_col s) - 1" using True by (simp add: unat_minus_one)
  have pos: "0 < unat (vga_col s)" using True by (simp add: word_less_nat_alt)
  have u: "vga_ok ?u" using ok dec by (auto simp: vga_ok_def)
  let ?v = "?u\<lparr>mem := vga_set_cell (unat (vga_row ?u) * 80 + unat (vga_col ?u)) (blank (vga_color s)) (mem ?u)\<rparr>"
  have "vga_put_local BS s = ?v" using True vga_ok_bounds(2) [OF ok] by (simp add: blank_def put_defs)
  then show ?thesis
    using set_cell_refines [OF u refl, of "blank (vga_color s)"] set_col_screen_only [of s "vga_col s - 1"]
      pos dec screen_only_trans
    by (simp add: put_refines_def term_put_def) blast
next
  case False
  then have eq: "vga_put_local BS s = s" using vga_ok_bounds(2) [OF ok] by (simp add: put_defs)
  show ?thesis unfolding put_refines_def eq using ok False by (simp add: term_put_def word_less_nat_alt)
qed

lemma put_char_refines:
  assumes ok: "vga_ok s" and other: "c \<notin> {LF, CR, TAB, BS}"
  shows "put_refines c s"
proof -
  define u where "u = s\<lparr>mem := vga_set_cell (unat (vga_row s) * 80 + unat (vga_col s)) (vga_make_entry c (vga_color s)) (mem s)\<rparr>"
  have u: "vga_ok u" "screen_only s u" "abs_term u = (abs_term s)\<lparr>t_cells :=
      (t_cells (abs_term s))(80 * unat (vga_row s) + unat (vga_col s) := vga_make_entry c (vga_color s))\<rparr>"
    using set_cell_refines [OF ok u_def] by auto
  have f: "vga_col u = vga_col s" "vga_row u = vga_row s" by (simp_all add: u_def)
  note col = vga_ok_bounds(1) [OF ok]
  have inc: "unat (vga_col s + 1) = unat (vga_col s) + 1" using col by (intro u8_inc) simp
  show ?thesis
  proof (cases "unat (vga_col s) = 79")
    case True
    have eq: "vga_put_local c s =
        (let v = u\<lparr>vga_col := 0, vga_row := vga_row u + 1\<rparr> in if 25 \<le> vga_row v then vga_scroll v else v)"
      using other True inc by (simp add: word_le_nat_alt put_defs u_def)
    have n: "vga_ok (vga_put_local c s) \<and> screen_only u (vga_put_local c s) \<and>
        abs_term (vga_put_local c s) = term_newline (abs_term u)"
      unfolding eq Let_def by (rule newline_refines [OF u(1) refl refl])
    moreover from n u(2) have "screen_only s (vga_put_local c s)" using screen_only_trans by blast
    ultimately show ?thesis using u(3) other True by (simp add: put_refines_def term_put_def Let_def)
  next
    case False
    then have "\<not> 80 \<le> vga_col s + 1" using inc col by (simp add: word_le_nat_alt)
    then have eq: "vga_put_local c s = u\<lparr>vga_col := vga_col u + 1\<rparr>" using other vga_ok_bounds(2) [OF ok] by (simp add: put_defs u_def)
    show ?thesis unfolding put_refines_def eq
      using u other False inc col f screen_only_trans [OF u(2) set_col_screen_only, of "vga_col u + 1"]
      by (simp add: term_put_def vga_ok_def Let_def)
  qed
qed

lemma vga_put_local_refines:
  assumes ok: "vga_ok s"
  shows "vga_ok (vga_put_local c s) \<and> screen_only s (vga_put_local c s) \<and>
    abs_term (vga_put_local c s) = term_put c (abs_term s)"
proof -
  consider "c = LF" | "c = CR" | "c = TAB" | "c = BS" | (other) "c \<notin> {LF, CR, TAB, BS}" by blast
  then have "put_refines c s"
  proof cases
    case 1
    then show ?thesis using newline_refines [OF ok refl refl] by (simp add: put_refines_def term_put_def put_defs)
  next
    case 2
    then show ?thesis using ok vga_ok_bounds(2) [OF ok] set_col_screen_only [of s 0] by (simp add: put_refines_def term_put_def vga_ok_def put_defs)
  qed (use put_tab_refines [OF ok] put_bs_refines [OF ok] put_char_refines [OF ok] in simp_all)
  then show ?thesis by (simp add: put_refines_def)
qed

section \<open>Strings\<close>

text \<open>The console can print: nothing is mirrored, or the UART behaves and its divisor latch is closed.\<close>

definition console_ok :: "'d io_dev \<Rightarrow> ('d \<Rightarrow> bool) \<Rightarrow> ('d \<Rightarrow> u8 list) \<Rightarrow> ('d, 'z) vga_st_scheme \<Rightarrow> bool" where
  "console_ok D dlab sent s \<longleftrightarrow>
     vga_ok s \<and> (g_serial_hook s \<noteq> None \<longrightarrow> uart_ok D dlab sent \<and> \<not> dlab (dev s))"

text \<open>The device after the cursor registers have been written.\<close>

lemma vga_update_cursor_eq: "\<exists>d. vga_update_cursor D s = s\<lparr>dev := d\<rparr> \<and>
    (uart_ok D dlab sent \<longrightarrow> dlab d = dlab (dev s) \<and> sent d = sent (dev s))"
  by (simp add: vga_update_cursor_def outb_def Let_def) (rule exI, rule conjI, rule refl, simp add: uart_other)

lemma screen_only_dev: "screen_only s (s\<lparr>dev := d\<rparr>)"
  by (rule screen_onlyI [where d = d and m = "mem s" and r = "vga_row s" and c = "vga_col s"]) simp_all

definition mirrored :: "('d, 'z) vga_st_scheme \<Rightarrow> string \<Rightarrow> u8 list" where
  "mirrored s cs = (if g_serial_hook s = None then [] else concat (map mirror_bytes cs))"

lemma vga_putchar_refines:
  assumes ok: "console_ok D dlab sent s"
  shows "\<exists>s'. vga_putchar D c s = Some s' \<and> console_ok D dlab sent s' \<and> screen_only s s' \<and>
    abs_term s' = term_put c (abs_term s) \<and>
    (uart_ok D dlab sent \<longrightarrow> sent (dev s') = sent (dev s) @ mirrored s [c])"
proof -
  let ?u = "vga_put_local c s"
  have u: "vga_ok ?u" "screen_only s ?u" "abs_term ?u = term_put c (abs_term s)"
    using vga_put_local_refines [of s c] ok by (auto simp: console_ok_def)
  have dev: "dev ?u = dev s" by (simp add: vga_put_local_def vga_put_step_def vga_scroll_eq Let_def)
  have hook: "g_serial_hook ?u = g_serial_hook s" using screen_only_fields [OF u(2)] by simp
  have run: "vga_putchar D c s = do { s \<leftarrow> (case g_serial_hook s of None \<Rightarrow> Some ?u
      | Some Serial_mirror_char \<Rightarrow> serial_mirror_char D c ?u); Some (vga_update_cursor D s) }"
    unfolding hook [symmetric] by (simp only: vga_putchar_def vga_put_local_def Let_def of_nat_numeral)
  obtain d where d: "vga_putchar D c s = Some (vga_update_cursor D (?u\<lparr>dev := d\<rparr>))"
    "g_serial_hook s \<noteq> None \<longrightarrow> \<not> dlab d" "uart_ok D dlab sent \<longrightarrow> sent d = sent (dev s) @ mirrored s [c]"
  proof (cases "g_serial_hook s")
    case None
    moreover have "?u\<lparr>dev := dev s\<rparr> = ?u" by (simp flip: dev)
    ultimately show ?thesis using that [of "dev s"] run by (simp add: mirrored_def)
  next
    case (Some h)
    then have uart: "uart_ok D dlab sent" "\<not> dlab (dev ?u)" using ok dev by (simp_all add: console_ok_def)
    obtain d where "serial_mirror_char D c ?u = Some (?u\<lparr>dev := d\<rparr>)" "\<not> dlab d"
      "sent d = sent (dev s) @ mirror_bytes c"
      using serial_mirror_char_sends [OF uart] dev by auto
    then show ?thesis using that [of d] run Some by (cases h) (simp add: mirrored_def)
  qed
  obtain d' where d': "vga_update_cursor D (?u\<lparr>dev := d\<rparr>) = ?u\<lparr>dev := d'\<rparr>"
    "uart_ok D dlab sent \<longrightarrow> dlab d' = dlab d \<and> sent d' = sent d"
    using vga_update_cursor_eq [of D "?u\<lparr>dev := d\<rparr>" dlab sent] by auto
  have "console_ok D dlab sent (?u\<lparr>dev := d'\<rparr>)"
    using ok u(1) hook d(2) d'(2) by (auto simp: console_ok_def vga_ok_def)
  moreover have "screen_only s (?u\<lparr>dev := d'\<rparr>)" by (rule screen_only_trans [OF u(2) screen_only_dev])
  ultimately show ?thesis using d d' u(3) by simp
qed

lemma vga_put_chars_refines:
  assumes "console_ok D dlab sent s"
  shows "\<exists>s'. vga_put_chars D cs s = Some s' \<and> console_ok D dlab sent s' \<and> screen_only s s' \<and>
    abs_term s' = fold term_put cs (abs_term s) \<and>
    (uart_ok D dlab sent \<longrightarrow> sent (dev s') = sent (dev s) @ mirrored s cs)"
  using assms
proof (induction cs arbitrary: s)
  case Nil
  then show ?case by (simp add: mirrored_def)
next
  case (Cons c cs)
  obtain u where u: "vga_putchar D c s = Some u" "console_ok D dlab sent u" "screen_only s u"
    "abs_term u = term_put c (abs_term s)" "uart_ok D dlab sent \<longrightarrow> sent (dev u) = sent (dev s) @ mirrored s [c]"
    using vga_putchar_refines [OF Cons.prems] by blast
  obtain s' where s': "vga_put_chars D cs u = Some s'" "console_ok D dlab sent s'" "screen_only u s'"
    "abs_term s' = fold term_put cs (abs_term u)" "uart_ok D dlab sent \<longrightarrow> sent (dev s') = sent (dev u) @ mirrored u cs"
    using Cons.IH [OF u(2)] by blast
  have "g_serial_hook u = g_serial_hook s" using screen_only_fields [OF u(3)] by simp
  then show ?case
    using u s' screen_only_trans [OF u(3) s'(3)] by (auto simp: mirrored_def)
qed

lemma vga_put_chars_append:
  "vga_put_chars D (xs @ ys) s = do { s \<leftarrow> vga_put_chars D xs s; vga_put_chars D ys s }"
  by (induction xs arbitrary: s) (simp_all add: Option.bind_assoc)

lemma vga_print_loop_chars: "vga_print_loop D str i s = vga_put_chars D (cstr (drop i str)) s"
proof (induction D str i s rule: vga_print_loop.induct)
  case (1 D str i s)
  then show ?case
    by (subst vga_print_loop.simps) (cases "vga_putchar D (c_at str i) s"; simp add: cstr_step [of i str])
qed

lemma vga_print_chars: "vga_print D (Some str) s = vga_put_chars D (cstr str) s"
  by (simp add: vga_print_def vga_print_loop_chars)

lemma vga_putchar_chars: "vga_putchar D c s = vga_put_chars D [c] s"
  by simp

section \<open>Numbers\<close>

fun dec_string :: "nat \<Rightarrow> string" where
  "dec_string n = (if n < 10 then [char_of (48 + n)] else dec_string (n div 10) @ [char_of (48 + n mod 10)])"

declare dec_string.simps [simp del]

definition dec_value :: "string \<Rightarrow> nat" where
  "dec_value = foldl (\<lambda>a c. 10 * a + (of_char c - 48)) 0"

lemma dec_value_dec_string: "dec_value (dec_string n) = n"
proof (induction n rule: dec_string.induct)
  case (1 n)
  have "dec_value (xs @ [c]) = 10 * dec_value xs + (of_char c - 48)" for xs c
    by (simp add: dec_value_def)
  then show ?case using 1 by (subst dec_string.simps) (auto simp: dec_value_def of_char_of)
qed

lemma length_dec_string: "0 < k \<Longrightarrow> n < 10 ^ k \<Longrightarrow> length (dec_string n) \<le> k"
proof (induction k arbitrary: n)
  case 0
  then show ?case by simp
next
  case (Suc k)
  show ?case
  proof (cases "n < 10")
    case True
    then show ?thesis by (simp add: dec_string.simps [of n])
  next
    case False
    then have "0 < k" using Suc.prems by (cases k) auto
    moreover have "n div 10 < 10 ^ k" using Suc.prems by (simp add: less_mult_imp_div_less mult.commute)
    ultimately have "length (dec_string (n div 10)) \<le> k" using Suc.IH by blast
    then show ?thesis using False by (simp add: dec_string.simps [of n])
  qed
qed

lemma dec_loop_eq: "dec_loop v buf = buf @ (if v = 0 then [] else rev (dec_string (unat v)))"
proof (induction v buf rule: dec_loop.induct)
  case (1 v buf)
  show ?case
  proof (cases "v = 0")
    case True
    then show ?thesis by (simp add: dec_loop.simps)
  next
    case False
    then have pos: "0 < v" by (simp add: word_gt_0)
    have u: "unat (v div 10) = unat v div 10" "unat (v mod 10) = unat v mod 10"
      by (simp_all add: unat_div unat_mod)
    have z: "v div 10 = 0 \<longleftrightarrow> unat v < 10" by (simp add: word_unat_eq_iff u div_eq_0_iff)
    have "dec_loop v buf = dec_loop (v div 10) (buf @ [char_of (48 + unat (v mod 10))])"
      using pos by (simp add: dec_loop.simps [of v])
    then show ?thesis
      using "1.IH" [OF pos] False by (simp add: dec_string.simps [of "unat v"] u z)
  qed
qed

lemma vga_print_dec_chars: "vga_print_dec D v = vga_put_chars D (dec_string (unat v))"
proof (rule ext)
  fix s
  have "char_of (48 :: nat) = CHR ''0''" by code_simp
  then show "vga_print_dec D v s = vga_put_chars D (dec_string (unat v)) s"
    by (simp add: vga_print_dec_def dec_loop_eq dec_string.simps [of 0])
qed

definition hex_string :: "u32 \<Rightarrow> string" where
  "hex_string val = ''0x'' @ map (\<lambda>i. ''0123456789ABCDEF'' ! unat (drop_bit i val AND 0xF)) [28, 24, 20, 16, 12, 8, 4, 0]"

lemma vga_print_hex_chars: "vga_print_hex D v = vga_put_chars D (hex_string v)"
  by (rule ext) (unfold vga_print_hex_def hex_string_def vga_put_chars_append vga_print_chars, simp add: cstr_def)

section \<open>Formatted output\<close>

text \<open>What a format and its arguments stand for.\<close>

fun vga_format :: "string \<Rightarrow> printf_arg list \<Rightarrow> string option" where
  "vga_format [] args = Some []"
| "vga_format (c # fmt) args =
     (if c \<noteq> CHR ''%'' then map_option (Cons c) (vga_format fmt args)
      else case fmt of
        [] \<Rightarrow> None
      | k # fmt' \<Rightarrow>
         (if k = CHR ''c'' then
            (case args of Arg_int v # args \<Rightarrow> map_option (Cons (char_of_byte (ucast v))) (vga_format fmt' args) | _ \<Rightarrow> None)
          else if k = CHR ''s'' then
            (case args of
               Arg_str v # args \<Rightarrow> map_option ((@) (case v of None \<Rightarrow> ''(null)'' | Some str \<Rightarrow> cstr str)) (vga_format fmt' args)
             | _ \<Rightarrow> None)
          else if k = CHR ''d'' then
            (case args of
               Arg_int v # args \<Rightarrow>
                 map_option ((@) (if sint v < 0 then CHR ''-'' # dec_string (nat (- sint v)) else dec_string (nat (sint v))))
                   (vga_format fmt' args)
             | _ \<Rightarrow> None)
          else if k = CHR ''u'' then
            (case args of Arg_int v # args \<Rightarrow> map_option ((@) (dec_string (unat v))) (vga_format fmt' args) | _ \<Rightarrow> None)
          else if k = CHR ''x'' \<or> k = CHR ''X'' then
            (case args of Arg_int v # args \<Rightarrow> map_option ((@) (hex_string v)) (vga_format fmt' args) | _ \<Rightarrow> None)
          else if k = CHR ''%'' then map_option (Cons CHR ''%'') (vga_format fmt' args)
          else map_option (\<lambda>out. CHR ''%'' # k # out) (vga_format fmt' args)))"

definition put_format :: "'d io_dev \<Rightarrow> string option \<Rightarrow> ('d, 'z) vga_st_scheme \<Rightarrow> ('d, 'z) vga_st_scheme option" where
  "put_format D out s = (case out of None \<Rightarrow> None | Some cs \<Rightarrow> vga_put_chars D cs s)"

lemma put_format_prefix:
  "(vga_put_chars D xs s) \<bind> put_format D out = put_format D (map_option ((@) xs) out) s"
  by (cases out; cases "vga_put_chars D xs s") (simp_all add: put_format_def vga_put_chars_append)

lemma put_format_prefix1:
  "(vga_putchar D c s) \<bind> put_format D out = put_format D (map_option (Cons c) out) s"
  using put_format_prefix [of D "[c]" s out] by (simp add: append_Cons [abs_def])

lemma put_format_None [simp]: "put_format D None s = None"
  by (simp add: put_format_def)

lemma sint_u32: "sint (v :: u32) = uint v - 2 ^ 32 * of_bool (bit v 31)"
proof -
  have "take_bit 32 (uint v) = uint v"
    using unsigned_less [of v, where ?'a = int] by (intro take_bit_int_eq_self) simp_all
  then show ?thesis by (simp add: sint_uint signed_take_bit_eq_take_bit_minus bit_uint_iff)
qed

lemma sint_u32_nonneg: "0 \<le> sint (v :: u32) \<Longrightarrow> nat (sint v) = unat v"
proof -
  assume "0 \<le> sint v"
  then have "sint v = uint v" using unsigned_less [of v, where ?'a = int] by (cases "bit v 31") (simp_all add: sint_u32)
  then show ?thesis by (simp only: unat_eq_nat_uint)
qed

lemma sint_u32_neg: "sint (v :: u32) < 0 \<Longrightarrow> unat (- v) = nat (- sint v)"
proof -
  assume neg: "sint v < 0"
  then have b: "sint v = uint v - 2 ^ 32" by (cases "bit v 31") (simp_all add: sint_u32)
  have "v \<noteq> 0" using neg by auto
  then have "uint (- v) = 2 ^ 32 - uint v" using uint_word_arith_bintrs(4) [of v] unsigned_less [of v, where ?'a = int]
    by (simp add: take_bit_eq_mod zmod_zminus1_eq_if word_uint_eq_iff)
  then show ?thesis using b by (simp only: unat_eq_nat_uint)
qed

lemma vga_print_signed:
  "(if v <s 0 then do { s \<leftarrow> vga_putchar D CHR ''-'' s; vga_print_dec D (- v) s } else vga_print_dec D v s) =
   vga_put_chars D (if sint v < 0 then CHR ''-'' # dec_string (nat (- sint v)) else dec_string (nat (sint v))) s"
proof (cases "sint v < 0")
  case True
  then show ?thesis by (simp add: vga_print_dec_chars word_sless_alt sint_u32_neg)
next
  case False
  then show ?thesis by (simp add: vga_print_dec_chars word_sless_alt sint_u32_nonneg)
qed

lemma cstr_null_arg: "cstr ''(null)'' = ''(null)''"
  by (simp add: cstr_def)

lemma vga_print_arg:
  "vga_print D (if v = None then Some ''(null)'' else v) s =
   vga_put_chars D (case v of None \<Rightarrow> ''(null)'' | Some str \<Rightarrow> cstr str) s"
  by (cases v) (simp_all add: vga_print_chars cstr_null_arg del: vga_put_chars.simps)

lemmas print_as_chars = vga_print_signed vga_print_arg vga_print_dec_chars vga_print_hex_chars

lemma vga_printf_loop_format:
  "(vga_printf_loop D fmt args :: ('d, 'z) vga_st_scheme \<Rightarrow> _) = put_format D (vga_format fmt args)"
proof (induction fmt args rule: vga_format.induct)
  case (1 args)
  then show ?case by (simp add: fun_eq_iff put_format_def)
next
  case (2 c fmt args)
  have "vga_printf_loop D (c # fmt) args s = put_format D (vga_format (c # fmt) args) s" for s :: "('d, 'z) vga_st_scheme"
  proof (cases "c = CHR ''%''")
    case False
    then have "vga_printf_loop D (c # fmt) args s = vga_putchar D c s \<bind> put_format D (vga_format fmt args)"
      using "2.IH"(1) by simp
    then show ?thesis using False by (simp add: put_format_prefix1)
  next
    case True
    show ?thesis
    proof (cases fmt)
      case Nil
      then show ?thesis using True by simp
    next
      case (Cons k fmt')
      note IH = "2.IH"(2-) [unfolded not_not, OF True Cons]
      consider "k = CHR ''c''" | "k = CHR ''s''" | "k = CHR ''d''" | "k = CHR ''u''" | "k = CHR ''x''" | "k = CHR ''X''"
        | "k = CHR ''%''" | "k \<notin> set ''csduxX%''" by auto
      then show ?thesis
        by cases (simp_all add: True Cons IH put_format_prefix put_format_prefix1 print_as_chars option.map_comp comp_def
            del: vga_put_chars.simps split: list.split printf_arg.split)
    qed
  qed
  then show ?case by blast
qed

section \<open>Initialisation\<close>

lemma fill_all: "vga_cell (fold (\<lambda>i. vga_set_cell i e) [0..<CELLS] m) j = (if j < CELLS then e else vga_cell m j)"
  using fill_cells [of 0 e CELLS m j] by simp

lemma vga_clear_eq:
  "vga_clear D s = vga_update_cursor D
     (s\<lparr>mem := fold (\<lambda>i. vga_set_cell i (blank (vga_color s))) [0..<CELLS] (mem s), vga_row := 0, vga_col := 0\<rparr>)"
  using fold_rows [of "\<lambda>i. vga_set_cell i (blank (vga_color s))" 80 25 "mem s"]
  by (simp add: vga_clear_def blank_def Let_def del: upt_rec_numeral)

section \<open>Properties\<close>

text \<open>A screen with a mirrored console on the emulated UART, for the concrete instances.\<close>

definition demo_console :: "uart_emu_st vga_st" where
  "demo_console = \<lparr>dev = \<lparr>emu_dlab = False, emu_sent = [], emu_busy = 0\<rparr>, mem = (\<lambda>_. 0), cr0 = 0, cr2 = 0, cr3 = 0,
     cr4 = 0, idtr = (0, 0), int_flag = False, g_kernel_state = KERNEL_STATE_BOOT, g_tick_count = 0, heap_head = 0,
     vga_row = 24, vga_col = 78, vga_color = 0x0A, g_serial_hook = Some Serial_mirror_char\<rparr>"

lemma demo_console_ok: "console_ok uart_emu emu_dlab emu_sent demo_console"
  using uart_emu_ok by (simp add: console_ok_def vga_ok_def demo_console_def)

text \<open>C14: printing a string from a cursor on the screen returns with the cursor on the screen, acts on
  the 80 by 25 cells as the abstract terminal does character by character (newline, tab stops,
  backspace, wrap-around and scrolling included), and changes nothing else: no byte outside the text
  window and no other kernel variable.\<close>

theorem vga_print_refines:
  assumes "console_ok D dlab sent s"
  shows "\<exists>s'. vga_print D (Some str) s = Some s' \<and> vga_ok s' \<and> screen_only s s' \<and>
    abs_term s' = fold term_put (cstr str) (abs_term s)"
proof -
  obtain s' where "vga_put_chars D (cstr str) s = Some s'" "console_ok D dlab sent s'" "screen_only s s'"
    "abs_term s' = fold term_put (cstr str) (abs_term s)"
    using vga_put_chars_refines [OF assms] by blast
  then show ?thesis by (simp add: vga_print_chars console_ok_def)
qed

theorem vga_print_refines_witness:
  "\<exists>s'. vga_print uart_emu (Some ''ok!'') demo_console = Some s' \<and> vga_ok s' \<and> screen_only demo_console s' \<and>
    abs_term s' = fold term_put (cstr ''ok!'') (abs_term demo_console)"
  by (rule vga_print_refines [OF demo_console_ok])

text \<open>C22: while the serial hook is installed, printing a string transmits exactly its characters on
  COM1, in order, with every line feed preceded by a carriage return; without the hook it transmits
  nothing.\<close>

theorem vga_print_mirrors:
  assumes "uart_ok D dlab sent" "\<not> dlab (dev s)" "vga_ok s"
  shows "\<exists>s'. vga_print D (Some str) s = Some s' \<and>
    sent (dev s') = sent (dev s) @
      (if g_serial_hook s = None then []
       else concat (map (\<lambda>c. if c = LF then [0x0D, 0x0A] else [byte_of c]) (cstr str)))"
proof -
  have "console_ok D dlab sent s" using assms by (simp add: console_ok_def)
  from vga_put_chars_refines [OF this, of "cstr str"] show ?thesis
    using assms(1) by (auto simp: vga_print_chars mirrored_def mirror_bytes_def [abs_def])
qed

theorem vga_print_mirrors_witness:
  "\<exists>s'. vga_print uart_emu (Some [CHR ''A'', LF]) demo_console = Some s' \<and> emu_sent (dev s') = [0x41, 0x0D, 0x0A]"
proof -
  have "cstr [CHR ''A'', LF] = [CHR ''A'', LF]" by (simp add: cstr_def)
  then show ?thesis
    using vga_print_mirrors [OF uart_emu_ok, of demo_console "[CHR ''A'', LF]"] demo_console_ok
    by (simp add: console_ok_def) (simp add: demo_console_def byte_of_def)
qed

text \<open>C23: formatted output equals printing the string that the format and its arguments stand for, with
  \<open>%c\<close>, \<open>%s\<close>, \<open>%d\<close>, \<open>%u\<close>, \<open>%x\<close>, \<open>%X\<close> and \<open>%%\<close>; a missing or mistyped argument and a format that ends in a
  single \<open>%\<close> have no defined result.\<close>

theorem vga_printf_correct:
  "vga_printf D (Some fmt) args s =
     (case vga_format (cstr fmt) args of None \<Rightarrow> None | Some out \<Rightarrow> vga_put_chars D out s)"
  by (simp add: vga_printf_def vga_printf_loop_format put_format_def)

text \<open>The decimal printer prints the usual decimal numeral of its argument, whose value is the
  argument, and the digits it collects fit its buffer of 12 characters.\<close>

theorem vga_print_dec_correct:
  "vga_print_dec D v s = vga_put_chars D (dec_string (unat v)) s \<and> dec_value (dec_string (unat v)) = unat v \<and>
   length (dec_loop v []) \<le> 10"
  using length_dec_string [of 10 "unat v"] unsigned_less [of v, where ?'a = nat]
  by (simp add: vga_print_dec_chars dec_value_dec_string dec_loop_eq)

text \<open>Initialising the driver leaves a blank screen in light green on black with the cursor in the
  top left corner.\<close>

theorem vga_init_correct:
  "abs_term (vga_init D s) =
     \<lparr>t_cells = (\<lambda>i. if i < CELLS then 0x0A20 else 0), t_row = 0, t_col = 0, t_color = 0x0A\<rparr>"
proof -
  have "blank 0x0A = 0x0A20" by (simp add: blank_def vga_make_entry_def byte_of_def)
  then show ?thesis
    using vga_update_cursor_eq [of D]
    by (simp add: vga_init_def vga_clear_eq vga_make_color_def vga_update_cursor_def outb_def Let_def abs_term_def fill_all
        cong: if_cong del: upt_rec_numeral)
qed

end
