(* ===== verification/Idt.thy ===== *)
theory Idt
  imports Vga
begin

unbundle bit_operations_syntax

text \<open>
  \<^verbatim>\<open>kernel/idt.c\<close>: the interrupt descriptor table, the two 8259A interrupt controllers and the
  dispatchers the assembly stubs call. The addresses of the stubs and of the table are assigned by
  the linker and are parameters. \<^verbatim>\<open>irq_handlers\<close> holds function pointers; the kernel registers
  two functions, which the type \<open>irq_fn\<close> names, and the dispatcher takes their meaning as a
  parameter, since both belong to drivers built on top of this file.

  An exception prints a report and stops the processor. The controllers are hardware: \<open>pic_ok\<close> states
  how an 8259A takes its initialisation words and its mask, and \<open>pic_emu\<close> is an emulation.
\<close>

section \<open>State\<close>

record idt_entry_t =
  offset_lo :: u16
  selector :: u16
  zero :: u8
  type_attr :: u8
  offset_hi :: u16

datatype irq_fn = Pit_irq_handler | Keyboard_poll

record 'd idt_st = "'d vga_st" +
  idt_table :: "idt_entry_t list"
  irq_handlers :: "irq_fn option list"

abbreviation IDT_ENTRIES :: nat where "IDT_ENTRIES \<equiv> 256"
abbreviation GATE_INT32 :: u8 where "GATE_INT32 \<equiv> 0x8E"
abbreviation KERNEL_CS :: u16 where "KERNEL_CS \<equiv> 0x08"
abbreviation IRQ_BASE :: u8 where "IRQ_BASE \<equiv> 0x20"
abbreviation IRQ_KEYBOARD :: u8 where "IRQ_KEYBOARD \<equiv> 1"
abbreviation IRQ_TIMER :: u8 where "IRQ_TIMER \<equiv> 0"
abbreviation PIC1_CMD :: u16 where "PIC1_CMD \<equiv> 0x20"
abbreviation PIC1_DATA :: u16 where "PIC1_DATA \<equiv> 0x21"
abbreviation PIC2_CMD :: u16 where "PIC2_CMD \<equiv> 0xA0"
abbreviation PIC2_DATA :: u16 where "PIC2_DATA \<equiv> 0xA1"
abbreviation PIC_EOI :: u8 where "PIC_EOI \<equiv> 0x20"
abbreviation PIC_ICW1_INIT :: u8 where "PIC_ICW1_INIT \<equiv> 0x11"
abbreviation PIC_ICW4_8086 :: u8 where "PIC_ICW4_8086 \<equiv> 0x01"

record isr_frame =
  f_vector :: u32
  f_error_code :: u32
  f_eip :: u32
  f_cs :: u32
  f_eflags :: u32

section \<open>Operations\<close>

definition isr_dispatch :: "'d io_dev \<Rightarrow> isr_frame \<Rightarrow> ('d, 'z) idt_st_scheme \<Rightarrow> ('d, 'z) idt_st_scheme run_result option" where
  "isr_dispatch D f s =
     do { s \<leftarrow> (if f_vector f = 14 then
                 do { s \<leftarrow> Some (vga_set_color VGA_COLOR_WHITE VGA_COLOR_RED s);
                      s \<leftarrow> vga_print D (Some (LF # ''[CPU] Page Fault at 0x'')) s;
                      s \<leftarrow> vga_print_hex D (cr2 s) s;
                      s \<leftarrow> vga_print D (Some ''  eip=0x'') s;
                      s \<leftarrow> vga_print_hex D (f_eip f) s;
                      s \<leftarrow> vga_print D (Some ''  err=0x'') s;
                      s \<leftarrow> vga_print_hex D (f_error_code f) s;
                      vga_println D (Some []) s }
               else
                 do { s \<leftarrow> Some (vga_set_color VGA_COLOR_WHITE VGA_COLOR_RED s);
                      s \<leftarrow> vga_print D (Some (LF # ''[CPU] Exception '')) s;
                      s \<leftarrow> vga_print_dec D (f_vector f) s;
                      s \<leftarrow> vga_print D (Some ''  err=0x'') s;
                      s \<leftarrow> vga_print_hex D (f_error_code f) s;
                      s \<leftarrow> vga_print D (Some ''  eip=0x'') s;
                      s \<leftarrow> vga_print_hex D (f_eip f) s;
                      vga_println D (Some []) s });
          Some (Halt (s\<lparr>int_flag := False\<rparr>)) }"

definition irq_send_eoi :: "'d io_dev \<Rightarrow> u8 \<Rightarrow> ('d, 'z) idt_st_scheme \<Rightarrow> ('d, 'z) idt_st_scheme" where
  "irq_send_eoi D irq s =
     (let s = (if 8 \<le> irq then outb D PIC2_CMD PIC_EOI s else s) in outb D PIC1_CMD PIC_EOI s)"

definition irq_dispatch ::
    "'d io_dev \<Rightarrow> (irq_fn \<Rightarrow> ('d, 'z) idt_st_scheme \<Rightarrow> ('d, 'z) idt_st_scheme option) \<Rightarrow> u32 \<Rightarrow>
     ('d, 'z) idt_st_scheme \<Rightarrow> ('d, 'z) idt_st_scheme option" where
  "irq_dispatch D call vector s =
     (let irq = ucast (vector - ucast IRQ_BASE) :: u8
      in do { s \<leftarrow> (if irq < 16 then
                     (case irq_handlers s ! unat irq of None \<Rightarrow> Some s | Some fn \<Rightarrow> call fn s)
                   else Some s);
              Some (irq_send_eoi D irq s) })"

definition idt_set_gate :: "u8 \<Rightarrow> u32 \<Rightarrow> ('d, 'z) idt_st_scheme \<Rightarrow> ('d, 'z) idt_st_scheme" where
  "idt_set_gate vector handler s =
     s\<lparr>idt_table := (idt_table s)[unat vector :=
        \<lparr>offset_lo = ucast (handler AND 0xFFFF), selector = KERNEL_CS, zero = 0, type_attr = GATE_INT32,
         offset_hi = ucast (drop_bit 16 handler AND 0xFFFF)\<rparr>]\<rparr>"

definition pic_remap :: "'d io_dev \<Rightarrow> ('d, 'z) idt_st_scheme \<Rightarrow> ('d, 'z) idt_st_scheme" where
  "pic_remap D s =
     (let (m1, s) = inb D PIC1_DATA s;
          (m2, s) = inb D PIC2_DATA s;
          s = io_wait D (outb D PIC1_CMD PIC_ICW1_INIT s);
          s = io_wait D (outb D PIC2_CMD PIC_ICW1_INIT s);
          s = io_wait D (outb D PIC1_DATA IRQ_BASE s);
          s = io_wait D (outb D PIC2_DATA (IRQ_BASE + 8) s);
          s = io_wait D (outb D PIC1_DATA 0x04 s);
          s = io_wait D (outb D PIC2_DATA 0x02 s);
          s = io_wait D (outb D PIC1_DATA PIC_ICW4_8086 s);
          s = io_wait D (outb D PIC2_DATA PIC_ICW4_8086 s);
          s = outb D PIC1_DATA m1 s
      in outb D PIC2_DATA m2 s)"

definition idt_init ::
    "'d io_dev \<Rightarrow> (nat \<Rightarrow> u32) \<Rightarrow> (nat \<Rightarrow> u32) \<Rightarrow> u32 \<Rightarrow> ('d, 'z) idt_st_scheme \<Rightarrow> ('d, 'z) idt_st_scheme" where
  "idt_init D isr irq base s =
     (let s = s\<lparr>irq_handlers := fold (\<lambda>i hs. hs[i := None]) [0..<16] (irq_handlers s)\<rparr>;
          s = fold (\<lambda>i. idt_set_gate (of_nat i) (isr i)) [0..<32] s;
          s = fold (\<lambda>i. idt_set_gate (of_nat (32 + i)) (irq i)) [0..<16] s;
          s = s\<lparr>idtr := (of_nat (IDT_ENTRIES * 8 - 1), base)\<rparr>;
          s = pic_remap D s;
          s = outb D PIC1_DATA 0xFF s;
          s = outb D PIC2_DATA 0xFF s
      in s\<lparr>int_flag := True\<rparr>)"

definition irq_register_handler :: "u8 \<Rightarrow> irq_fn option \<Rightarrow> ('d, 'z) idt_st_scheme \<Rightarrow> ('d, 'z) idt_st_scheme" where
  "irq_register_handler irq handler s =
     (if irq < 16 then s\<lparr>irq_handlers := (irq_handlers s)[unat irq := handler]\<rparr> else s)"

definition irq_mask :: "'d io_dev \<Rightarrow> u8 \<Rightarrow> ('d, 'z) idt_st_scheme \<Rightarrow> ('d, 'z) idt_st_scheme" where
  "irq_mask D irq s =
     (let port = (if irq < 8 then PIC1_DATA else PIC2_DATA);
          bit = (if irq < 8 then irq else irq - 8);
          (v, s) = inb D port s
      in outb D port (v OR push_bit (unat bit) 1) s)"

definition irq_unmask :: "'d io_dev \<Rightarrow> u8 \<Rightarrow> ('d, 'z) idt_st_scheme \<Rightarrow> ('d, 'z) idt_st_scheme" where
  "irq_unmask D irq s =
     (let port = (if irq < 8 then PIC1_DATA else PIC2_DATA);
          bit = (if irq < 8 then irq else irq - 8);
          (v, s) = inb D port s
      in outb D port (v AND NOT (push_bit (unat bit) 1)) s)"

section \<open>What the interrupt controllers do\<close>

record pic_view =
  icw :: nat
  imr :: u8
  vbase :: u8

definition pic_cmd :: "u8 \<Rightarrow> pic_view \<Rightarrow> pic_view" where
  "pic_cmd v p = (if v = PIC_ICW1_INIT then p\<lparr>icw := 2, imr := 0\<rparr> else p)"

definition pic_data :: "u8 \<Rightarrow> pic_view \<Rightarrow> pic_view" where
  "pic_data v p =
     (if icw p = 2 then p\<lparr>icw := 3, vbase := v\<rparr>
      else if icw p = 3 then p\<lparr>icw := 4\<rparr>
      else if icw p = 4 then p\<lparr>icw := 0\<rparr>
      else p\<lparr>imr := v\<rparr>)"

text \<open>\<open>icw\<close> is the number of the initialisation word expected next, or 0 in normal operation.\<close>

definition pic_ok :: "'d io_dev \<Rightarrow> ('d \<Rightarrow> pic_view) \<Rightarrow> ('d \<Rightarrow> pic_view) \<Rightarrow> bool" where
  "pic_ok D p1 p2 \<longleftrightarrow>
     (\<forall>p d. p1 (snd (in8 D p d)) = p1 d \<and> p2 (snd (in8 D p d)) = p2 d) \<and>
     (\<forall>d. fst (in8 D PIC1_DATA d) = imr (p1 d) \<and> fst (in8 D PIC2_DATA d) = imr (p2 d)) \<and>
     (\<forall>v d. p1 (out8 D PIC1_CMD v d) = pic_cmd v (p1 d) \<and> p2 (out8 D PIC1_CMD v d) = p2 d) \<and>
     (\<forall>v d. p1 (out8 D PIC1_DATA v d) = pic_data v (p1 d) \<and> p2 (out8 D PIC1_DATA v d) = p2 d) \<and>
     (\<forall>v d. p2 (out8 D PIC2_CMD v d) = pic_cmd v (p2 d) \<and> p1 (out8 D PIC2_CMD v d) = p1 d) \<and>
     (\<forall>v d. p2 (out8 D PIC2_DATA v d) = pic_data v (p2 d) \<and> p1 (out8 D PIC2_DATA v d) = p1 d) \<and>
     (\<forall>p v d. p \<notin> {PIC1_CMD, PIC1_DATA, PIC2_CMD, PIC2_DATA} \<longrightarrow> p1 (out8 D p v d) = p1 d \<and> p2 (out8 D p v d) = p2 d)"

definition pic_emu :: "(pic_view \<times> pic_view) io_dev" where
  "pic_emu = \<lparr>
     in8 = (\<lambda>p d. (if p = PIC1_DATA then imr (fst d) else if p = PIC2_DATA then imr (snd d) else 0, d)),
     out8 = (\<lambda>p v (a, b). if p = PIC1_CMD then (pic_cmd v a, b) else if p = PIC1_DATA then (pic_data v a, b)
              else if p = PIC2_CMD then (a, pic_cmd v b) else if p = PIC2_DATA then (a, pic_data v b) else (a, b)),
     in16 = (\<lambda>p d. (0, d)), out16 = (\<lambda>p v d. d)\<rparr>"

lemma pic_emu_ok: "pic_ok pic_emu fst snd"
  unfolding pic_ok_def by (intro conjI allI impI) (simp_all add: pic_emu_def split_def)

lemma pic_laws:
  assumes "pic_ok D p1 p2"
  shows "p1 (snd (in8 D p d)) = p1 d" "p2 (snd (in8 D p d)) = p2 d"
    "fst (in8 D PIC1_DATA d) = imr (p1 d)" "fst (in8 D PIC2_DATA d) = imr (p2 d)"
    "p1 (out8 D PIC1_CMD v d) = pic_cmd v (p1 d)" "p2 (out8 D PIC1_CMD v d) = p2 d"
    "p1 (out8 D PIC1_DATA v d) = pic_data v (p1 d)" "p2 (out8 D PIC1_DATA v d) = p2 d"
    "p2 (out8 D PIC2_CMD v d) = pic_cmd v (p2 d)" "p1 (out8 D PIC2_CMD v d) = p1 d"
    "p2 (out8 D PIC2_DATA v d) = pic_data v (p2 d)" "p1 (out8 D PIC2_DATA v d) = p1 d"
    "p \<notin> {PIC1_CMD, PIC1_DATA, PIC2_CMD, PIC2_DATA} \<Longrightarrow> p1 (out8 D p v d) = p1 d"
    "p \<notin> {PIC1_CMD, PIC1_DATA, PIC2_CMD, PIC2_DATA} \<Longrightarrow> p2 (out8 D p v d) = p2 d"
  using assms unfolding pic_ok_def by blast+

section \<open>Lemmas\<close>

lemma idt_set_gate_fields:
  "dev (idt_set_gate v h s) = dev s" "mem (idt_set_gate v h s) = mem s" "irq_handlers (idt_set_gate v h s) = irq_handlers s"
  "length (idt_table (idt_set_gate v h s)) = length (idt_table s)"
  by (simp_all add: idt_set_gate_def)

lemma fold_gate_fields:
  "dev (fold (\<lambda>i. idt_set_gate (f i) (h i)) is s) = dev s \<and>
   irq_handlers (fold (\<lambda>i. idt_set_gate (f i) (h i)) is s) = irq_handlers s \<and>
   length (idt_table (fold (\<lambda>i. idt_set_gate (f i) (h i)) is s)) = length (idt_table s)"
  by (induction "is" arbitrary: s) (simp_all add: idt_set_gate_fields)

text \<open>The address a gate leads to.\<close>

definition gate_target :: "idt_entry_t \<Rightarrow> u32" where
  "gate_target g = ucast (offset_lo g) OR push_bit 16 (ucast (offset_hi g))"

definition gate_for :: "u32 \<Rightarrow> idt_entry_t" where
  "gate_for h = \<lparr>offset_lo = ucast (h AND 0xFFFF), selector = KERNEL_CS, zero = 0, type_attr = GATE_INT32,
     offset_hi = ucast (drop_bit 16 h AND 0xFFFF)\<rparr>"

lemma gate_target_gate_for: "gate_target (gate_for h) = h"
proof (rule bit_word_eqI)
  fix n
  assume n: "n < LENGTH(32)"
  have m: "(0xFFFF :: u32) = mask 16" by (simp add: mask_eq_exp_minus_1)
  show "bit (gate_target (gate_for h)) n \<longleftrightarrow> bit h n"
    using n unfolding gate_target_def gate_for_def m by (auto simp: bit_simps)
qed

lemma unat_of_nat_u8: "k < 256 \<Longrightarrow> unat (of_nat k :: u8) = k"
  by (simp add: unat_of_nat)

lemma fold_gates:
  assumes "a + n \<le> 256" "length (idt_table s) = 256" "v < 256"
  shows "idt_table (fold (\<lambda>i. idt_set_gate (of_nat (a + i)) (h i)) [0..<n] s) ! v =
    (if a \<le> v \<and> v < a + n then gate_for (h (v - a)) else idt_table s ! v)"
  using assms(1)
proof (induction n)
  case 0
  then show ?case by auto
next
  case (Suc n)
  let ?s = "fold (\<lambda>i. idt_set_gate (of_nat (a + i)) (h i)) [0..<n] s"
  have len: "length (idt_table ?s) = 256"
    using fold_gate_fields [of "\<lambda>i. of_nat (a + i)" h "[0..<n]" s] assms(2) by simp
  have u: "unat (of_nat (a + n) :: u8) = a + n" using Suc.prems by (intro unat_of_nat_u8) simp
  have "idt_table (idt_set_gate (of_nat (a + n)) (h n) ?s) ! v =
      (if v = a + n then gate_for (h n) else idt_table ?s ! v)"
    using len assms(3) by (simp add: idt_set_gate_def u gate_for_def nth_list_update del: of_nat_add)
  then show ?case using Suc by auto
qed

lemma pic_remap_fields:
  "idt_table (pic_remap D s) = idt_table s" "irq_handlers (pic_remap D s) = irq_handlers s"
  "idtr (pic_remap D s) = idtr s"
  by (simp_all add: pic_remap_def outb_def inb_def io_wait_def Let_def split_def)

lemma pic_remap_views:
  assumes "pic_ok D p1 p2"
  shows "icw (p1 (dev (pic_remap D s))) = 0 \<and> vbase (p1 (dev (pic_remap D s))) = 0x20 \<and>
    icw (p2 (dev (pic_remap D s))) = 0 \<and> vbase (p2 (dev (pic_remap D s))) = 0x28 \<and>
    imr (p1 (dev (pic_remap D s))) = imr (p1 (dev s)) \<and> imr (p2 (dev (pic_remap D s))) = imr (p2 (dev s))"
  by (simp add: pic_remap_def outb_def inb_def io_wait_def Let_def split_def pic_laws [OF assms] pic_cmd_def pic_data_def)

lemma clear_handlers: "length hs = n \<Longrightarrow> fold (\<lambda>i hs. hs[i := None]) [0..<n] hs = replicate n None"
proof -
  have "length (fold (\<lambda>i hs. hs[i := None]) [0..<k] hs) = length hs \<and>
      (\<forall>j < length hs. fold (\<lambda>i hs. hs[i := None]) [0..<k] hs ! j = (if j < k then None else hs ! j))" for k
    by (induction k) (auto simp: nth_list_update less_Suc_eq)
  then show "length hs = n \<Longrightarrow> ?thesis" by (intro nth_equalityI) auto
qed

text \<open>Masks after the mask operations; \<open>line_masked\<close> reads the bit of an interrupt line.\<close>

definition line_masked :: "pic_view \<Rightarrow> pic_view \<Rightarrow> nat \<Rightarrow> bool" where
  "line_masked p1 p2 n = (if n < 8 then bit (imr p1) n else bit (imr p2) (n - 8))"

lemma irq_unmask_views:
  assumes ok: "pic_ok D p1 p2" and op: "icw (p1 (dev s)) = 0" "icw (p2 (dev s)) = 0" and irq: "irq < 16"
  shows "p1 (dev (irq_unmask D irq s)) =
      (if irq < 8 then (p1 (dev s))\<lparr>imr := imr (p1 (dev s)) AND NOT (push_bit (unat irq) 1)\<rparr> else p1 (dev s))"
    "p2 (dev (irq_unmask D irq s)) =
      (if irq < 8 then p2 (dev s) else (p2 (dev s))\<lparr>imr := imr (p2 (dev s)) AND NOT (push_bit (unat irq - 8) 1)\<rparr>)"
    "irq_handlers (irq_unmask D irq s) = irq_handlers s"
proof -
  have sub: "unat (irq - 8) = unat irq - 8" if "\<not> irq < 8"
    using that unat_sub [of 8 irq] by (simp add: word_le_nat_alt word_less_nat_alt)
  show "p1 (dev (irq_unmask D irq s)) =
      (if irq < 8 then (p1 (dev s))\<lparr>imr := imr (p1 (dev s)) AND NOT (push_bit (unat irq) 1)\<rparr> else p1 (dev s))"
    "p2 (dev (irq_unmask D irq s)) =
      (if irq < 8 then p2 (dev s) else (p2 (dev s))\<lparr>imr := imr (p2 (dev s)) AND NOT (push_bit (unat irq - 8) 1)\<rparr>)"
    "irq_handlers (irq_unmask D irq s) = irq_handlers s"
    using op by (simp_all add: irq_unmask_def outb_def inb_def Let_def split_def pic_laws [OF ok] pic_data_def sub)
qed

section \<open>Properties\<close>

definition demo_idt :: "(pic_view \<times> pic_view) idt_st" where
  "demo_idt = \<lparr>dev = (\<lparr>icw = 0, imr = 0, vbase = 8\<rparr>, \<lparr>icw = 0, imr = 0, vbase = 0x70\<rparr>), mem = (\<lambda>_. 0), cr0 = 0, cr2 = 0,
     cr3 = 0, cr4 = 0, idtr = (0, 0), int_flag = False, g_kernel_state = KERNEL_STATE_INIT, g_tick_count = 0,
     heap_head = 0, vga_row = 0, vga_col = 0, vga_color = 0, g_serial_hook = None,
     idt_table = replicate 256 \<lparr>offset_lo = 0, selector = 0, zero = 0, type_attr = 0, offset_hi = 0\<rparr>,
     irq_handlers = replicate 16 None\<rparr>"

text \<open>After initialisation the gates 0 to 31 lead to the exception stubs and the gates 32 to 47 to
  the interrupt stubs, all as present 32-bit interrupt gates of the kernel code segment; the other
  gates are as before; the descriptor register holds the table with its limit of 2047; no interrupt
  handler is registered and interrupts are enabled.\<close>

theorem idt_init_gates:
  assumes "length (idt_table s) = 256" "length (irq_handlers s) = 16"
  shows "(\<forall>v < 32. gate_target (idt_table (idt_init D isr irq base s) ! v) = isr v) \<and>
    (\<forall>v < 16. gate_target (idt_table (idt_init D isr irq base s) ! (32 + v)) = irq v) \<and>
    (\<forall>v < 48. selector (idt_table (idt_init D isr irq base s) ! v) = 0x08 \<and>
       type_attr (idt_table (idt_init D isr irq base s) ! v) = 0x8E) \<and>
    (\<forall>v \<in> {48..<256}. idt_table (idt_init D isr irq base s) ! v = idt_table s ! v) \<and>
    idtr (idt_init D isr irq base s) = (2047, base) \<and>
    irq_handlers (idt_init D isr irq base s) = replicate 16 None \<and> int_flag (idt_init D isr irq base s)"
proof -
  define s0 where "s0 = s\<lparr>irq_handlers := replicate 16 None\<rparr>"
  define s1 where "s1 = fold (\<lambda>i. idt_set_gate (of_nat i) (isr i)) [0..<32] s0"
  define s2 where "s2 = fold (\<lambda>i. idt_set_gate (of_nat (32 + i)) (irq i)) [0..<16] s1"
  let ?t = "idt_init D isr irq base s"
  have init: "idt_table ?t = idt_table s2" "irq_handlers ?t = irq_handlers s2" "idtr ?t = (2047, base)" "int_flag ?t"
    using clear_handlers [OF assms(2)]
    by (simp_all add: idt_init_def Let_def outb_def pic_remap_fields s0_def s1_def s2_def del: upt_rec_numeral)
  have l0: "length (idt_table s0) = 256" using assms(1) by (simp add: s0_def)
  have l1: "length (idt_table s1) = 256" "irq_handlers s1 = replicate 16 None"
    using fold_gate_fields [of of_nat isr "[0..<32]" s0] l0 by (simp_all add: s1_def s0_def)
  have h: "irq_handlers s2 = replicate 16 None"
    using fold_gate_fields [of "\<lambda>i. of_nat (32 + i)" irq "[0..<16]" s1] l1 by (simp add: s2_def)
  have g: "idt_table s2 ! v = (if v < 32 then gate_for (isr v) else if v < 48 then gate_for (irq (v - 32)) else idt_table s ! v)"
    if "v < 256" for v
    using fold_gates [of 32 16 s1 v irq, OF _ l1(1) that] fold_gates [of 0 32 s0 v isr, OF _ l0 that]
    by (auto simp: s2_def s1_def s0_def simp del: upt_rec_numeral)
  show ?thesis
    unfolding init(1,2) using init(3,4) h
    by (simp add: g gate_target_gate_for) (simp add: gate_for_def)
qed

theorem idt_init_gates_witness:
  "gate_target (idt_table (idt_init pic_emu (\<lambda>n. 0x10000 + of_nat n) (\<lambda>n. 0x20000 + of_nat n) 0x30000 demo_idt) ! 33) = 0x20001"
proof -
  have "length (idt_table demo_idt) = 256" "length (irq_handlers demo_idt) = 16" by (simp_all add: demo_idt_def)
  from idt_init_gates [OF this, where D = pic_emu and isr = "\<lambda>n. 0x10000 + of_nat n" and irq = "\<lambda>n. 0x20000 + of_nat n" and base = "0x30000"]
  have "\<forall>v < 16. gate_target (idt_table (idt_init pic_emu (\<lambda>n. 0x10000 + of_nat n) (\<lambda>n. 0x20000 + of_nat n) 0x30000 demo_idt) ! (32 + v))
      = 0x20000 + of_nat v" by blast
  from this [rule_format, of 1] show ?thesis by simp
qed

text \<open>C20: initialisation moves the interrupt lines of both controllers to the vectors from 32 and from
  40 on, leaves the controllers in normal operation and masks all sixteen lines; unmasking a line
  afterwards opens that line and no other.\<close>

theorem idt_init_masks:
  fixes s :: "('d, 'z) idt_st_scheme"
  assumes "pic_ok D p1 p2" "n < 16" "s' = idt_init D isr irq base s"
  shows "vbase (p1 (dev s')) = 32 \<and> vbase (p2 (dev s')) = 40 \<and>
    (\<forall>k < 16. line_masked (p1 (dev s')) (p2 (dev s')) k) \<and>
    (\<forall>k < 16. line_masked (p1 (dev (irq_unmask D (of_nat n) s'))) (p2 (dev (irq_unmask D (of_nat n) s'))) k \<longleftrightarrow> k \<noteq> n)"
proof -
  note laws = pic_laws [OF assms(1)]
  have p: "p1 (dev s') = \<lparr>icw = 0, imr = 0xFF, vbase = 0x20\<rparr>" "p2 (dev s') = \<lparr>icw = 0, imr = 0xFF, vbase = 0x28\<rparr>"
  proof -
    have "\<exists>x :: ('d, 'z) idt_st_scheme. dev s' = out8 D PIC2_DATA 0xFF (out8 D PIC1_DATA 0xFF (dev (pic_remap D x)))"
      unfolding assms(3) by (simp add: idt_init_def Let_def outb_def del: upt_rec_numeral) (rule exI, rule refl)
    then obtain x :: "('d, 'z) idt_st_scheme" where "dev s' = out8 D PIC2_DATA 0xFF (out8 D PIC1_DATA 0xFF (dev (pic_remap D x)))" ..
    then show "p1 (dev s') = \<lparr>icw = 0, imr = 0xFF, vbase = 0x20\<rparr>" "p2 (dev s') = \<lparr>icw = 0, imr = 0xFF, vbase = 0x28\<rparr>"
      using pic_remap_views [OF assms(1), of x] by (simp_all add: laws pic_data_def)
  qed
  have op: "icw (p1 (dev s')) = 0" "icw (p2 (dev s')) = 0" using p by simp_all
  have n: "unat (of_nat n :: u8) = n" using assms(2) by (simp add: unat_of_nat)
  then have irq: "(of_nat n :: u8) < 16" "(of_nat n :: u8) < 8 \<longleftrightarrow> n < 8" using assms(2) by (simp_all add: word_less_nat_alt)
  have ff: "(0xFF :: u8) = mask 8" by (simp add: mask_eq_exp_minus_1)
  note um = irq_unmask_views [OF assms(1) op irq(1)]
  show ?thesis unfolding um(1,2) p n irq(2) line_masked_def ff
    using assms(2) by (auto simp: bit_simps split: if_splits)
qed

theorem idt_init_masks_witness:
  "\<not> line_masked (fst (dev (irq_unmask pic_emu 1 (idt_init pic_emu (\<lambda>n. 0) (\<lambda>n. 0) 0 demo_idt))))
      (snd (dev (irq_unmask pic_emu 1 (idt_init pic_emu (\<lambda>n. 0) (\<lambda>n. 0) 0 demo_idt)))) 1"
  using idt_init_masks [OF pic_emu_ok, of 1 "idt_init pic_emu (\<lambda>n. 0) (\<lambda>n. 0) 0 demo_idt"] by simp

end
