(* ===== verification/Ring_Buffer.thy ===== *)
theory Ring_Buffer
  imports Prelude
begin

text \<open>
  Two components keep a circular buffer with a read position, a write position and a count: the
  event queue of \<^verbatim>\<open>kernel/eventbus.c\<close> and the character buffer of \<^verbatim>\<open>kernel/keyboard.c\<close>. The first
  part relates the array to the list of its contents; the second is the contract both offer, a
  bounded queue that drops what does not fit, with the lemmas their clients need.
\<close>

section \<open>The contents of a circular buffer\<close>

definition ring_list :: "'a list \<Rightarrow> nat \<Rightarrow> nat \<Rightarrow> 'a list" where
  "ring_list buf h n = map (\<lambda>i. buf ! ((h + i) mod length buf)) [0..<n]"

lemma length_ring_list [simp]: "length (ring_list buf h n) = n"
  by (simp add: ring_list_def)

lemma ring_list_0 [simp]: "ring_list buf h 0 = []"
  by (simp add: ring_list_def)

lemma ring_push [ring_simps]:
  assumes "n < length buf"
  shows "ring_list (buf[(h + n) mod length buf := x]) h (Suc n) = ring_list buf h n @ [x]"
proof -
  have "(h + i) mod length buf \<noteq> (h + n) mod length buf" if "i < n" for i
  proof
    assume "(h + i) mod length buf = (h + n) mod length buf"
    then have "length buf dvd n - i" using that by (metis add_diff_cancel_left le_add1 mod_eq_dvd_iff_nat nat_add_left_cancel_le less_imp_le)
    then show False using that assms by (auto dest: dvd_imp_le)
  qed
  moreover have "(h + n) mod length buf < length buf" using assms by (intro mod_less_divisor) linarith
  ultimately show ?thesis by (auto simp: ring_list_def intro!: nth_list_update_neq dest: sym)
qed

lemma ring_pop [ring_simps]:
  assumes "0 < n" "h < length buf"
  shows "ring_list buf h n = buf ! h # ring_list buf ((h + 1) mod length buf) (n - 1)"
proof -
  obtain k where n: "n = Suc k" using assms by (cases n) auto
  have "[0..<Suc k] = 0 # map Suc [0..<k]" by (simp add: upt_conv_Cons map_Suc_upt del: upt_Suc)
  then show ?thesis using assms by (simp add: ring_list_def n mod_Suc_eq del: upt_Suc)
      (simp add: mod_simps)
qed

section \<open>The contract of a bounded queue\<close>

primrec repeat_deq :: "('s \<Rightarrow> 'a \<times> 's) \<Rightarrow> nat \<Rightarrow> 's \<Rightarrow> 'a list \<times> 's" where
  "repeat_deq deq 0 s = ([], s)"
| "repeat_deq deq (Suc n) s = (let (x, s) = deq s; (xs, s) = repeat_deq deq n s in (x # xs, s))"

text \<open>\<open>item i s\<close> is what the request \<open>i\<close> stores in state \<open>s\<close>; a request that is not \<open>valid\<close> is refused.\<close>

locale bounded_queue =
  fixes inv :: "'s \<Rightarrow> bool"
    and contents :: "'s \<Rightarrow> 'a list"
    and enq :: "'i \<Rightarrow> 's \<Rightarrow> 's"
    and deq :: "'s \<Rightarrow> 'a \<times> 's"
    and valid :: "'i \<Rightarrow> bool"
    and item :: "'i \<Rightarrow> 's \<Rightarrow> 'a"
    and cap :: nat
  assumes inv_cap: "inv s \<Longrightarrow> length (contents s) \<le> cap"
    and enq_inv: "inv s \<Longrightarrow> inv (enq i s)"
    and enq_invalid: "\<not> valid i \<Longrightarrow> enq i s = s"
    and enq_room: "inv s \<Longrightarrow> valid i \<Longrightarrow> length (contents s) < cap \<Longrightarrow> contents (enq i s) = contents s @ [item i s]"
    and enq_full: "inv s \<Longrightarrow> length (contents s) = cap \<Longrightarrow> enq i s = s"
    and enq_item: "item j (enq i s) = item j s"
    and deq_law: "inv s \<Longrightarrow> contents s = x # xs \<Longrightarrow> fst (deq s) = x \<and> inv (snd (deq s)) \<and> contents (snd (deq s)) = xs"
begin

text \<open>A burst of requests: as many of the valid ones as fit are stored, in order; the rest is dropped.\<close>

lemma enq_all:
  "inv s \<Longrightarrow> inv (fold enq is s) \<and>
     contents (fold enq is s) = contents s @ map (\<lambda>i. item i s) (take (cap - length (contents s)) (filter valid is))"
proof (induction "is" arbitrary: s)
  case Nil
  then show ?case by simp
next
  case (Cons i "is")
  consider (refused) "\<not> valid i" | (room) "valid i" "length (contents s) < cap" | (full) "\<not> length (contents s) < cap" by blast
  then show ?case
  proof cases
    case refused
    then show ?thesis using Cons by (simp add: enq_invalid)
  next
    case room
    then have "cap - length (contents s) = Suc (cap - Suc (length (contents s)))" by simp
    moreover have "contents (enq i s) = contents s @ [item i s]" using enq_room Cons.prems room by blast
    ultimately show ?thesis using Cons.IH [OF enq_inv [OF Cons.prems], of i] room(1) by (simp add: enq_item)
  next
    case full
    then have "length (contents s) = cap" using inv_cap Cons.prems by fastforce
    then show ?thesis using Cons enq_full by simp
  qed
qed

text \<open>Reading the queue empty returns the contents, oldest first.\<close>

lemma deq_all: "inv s \<Longrightarrow> contents s = xs \<Longrightarrow>
   \<exists>s'. repeat_deq deq (length xs) s = (xs, s') \<and> inv s' \<and> contents s' = []"
proof (induction xs arbitrary: s)
  case Nil
  then show ?case by simp
next
  case (Cons x xs)
  obtain s1 where s1: "deq s = (x, s1)" "inv s1" "contents s1 = xs"
    using deq_law [OF Cons.prems] by (cases "deq s") auto
  from Cons.IH [OF s1(2,3)] obtain s' where "repeat_deq deq (length xs) s1 = (xs, s')" "inv s'" "contents s' = []" by blast
  then show ?case using s1 by simp
qed

end

end
