(* ===== verification/Kstring.thy ===== *)
theory Kstring
  imports Prelude "HOL-Library.Sublist"
begin

text \<open>
  \<^verbatim>\<open>kernel/kstring.c\<close>: the string helpers every table of the kernel is built on. The loops are
  translated as they stand, with the index the C code keeps; a pointer that the code increments
  is an index into the characters it started at. The reference notions are \<^const>\<open>cstr\<close> (what
  precedes the NUL) and \<^const>\<open>take\<close>.
\<close>

section \<open>Definitions\<close>

function strlen_loop :: "string \<Rightarrow> nat \<Rightarrow> nat" where
  "strlen_loop s n = (if c_at s n \<noteq> NUL then strlen_loop s (Suc n) else n)"
  by pat_completeness auto
termination
  by (relation "measure (\<lambda>(s, n). length s - n)") (auto simp: c_at_def split: if_splits)

declare strlen_loop.simps [simp del]

definition strlen_k :: "string option \<Rightarrow> nat" where
  "strlen_k s = (case s of None \<Rightarrow> 0 | Some s \<Rightarrow> strlen_loop s 0)"

function strncpy_loop :: "string \<Rightarrow> int \<Rightarrow> string \<Rightarrow> nat \<Rightarrow> string \<times> nat" where
  "strncpy_loop src n dst i =
     (if int i < n - 1 \<and> c_at src i \<noteq> NUL
      then strncpy_loop src n (dst[i := c_at src i]) (Suc i)
      else (dst, i))"
  by pat_completeness auto
termination
  by (relation "measure (\<lambda>(src, n, dst, i). length src - i)") (auto simp: c_at_def split: if_splits)

declare strncpy_loop.simps [simp del]

definition strncpy_k :: "string option \<Rightarrow> string option \<Rightarrow> int \<Rightarrow> string option" where
  "strncpy_k dst src n =
     (case dst of
        None \<Rightarrow> None
      | Some d \<Rightarrow>
          (let (d', i) = (case src of None \<Rightarrow> (d, 0) | Some s \<Rightarrow> strncpy_loop s n d 0)
           in Some (d'[i := NUL])))"

fun strncmp_loop :: "string \<Rightarrow> string \<Rightarrow> nat \<Rightarrow> nat \<Rightarrow> int" where
  "strncmp_loop a b i 0 = 0"
| "strncmp_loop a b i (Suc n) =
     (if c_at a i \<noteq> c_at b i then of_char (c_at a i) - of_char (c_at b i)
      else if c_at a i = NUL then 0
      else strncmp_loop a b (Suc i) n)"

definition strncmp_k :: "string option \<Rightarrow> string option \<Rightarrow> int \<Rightarrow> int" where
  "strncmp_k a b n =
     (case (a, b) of
        (Some x, Some y) \<Rightarrow> strncmp_loop x y 0 (nat n)
      | (None, None) \<Rightarrow> 0
      | _ \<Rightarrow> - 1)"

text \<open>
  The name arrays of the tables are filled with \<open>strncpy_k(table[i].name, name, LEN)\<close>, whose
  destination is never null.
\<close>

definition set_name :: "string \<Rightarrow> string \<Rightarrow> nat \<Rightarrow> string" where
  "set_name buf src n = the (strncpy_k (Some buf) (Some src) (int n))"

section \<open>Length\<close>

lemma strlen_loop_cstr: "n \<le> length (cstr s) \<Longrightarrow> strlen_loop s n = length (cstr s)"
proof (induction s n rule: strlen_loop.induct)
  case (1 s n)
  show ?case
  proof (cases "n = length (cstr s)")
    case True
    then show ?thesis
      by (simp add: strlen_loop.simps [of s "length (cstr s)"] c_at_length_cstr)
  next
    case False
    with "1.prems" have "c_at s n \<noteq> NUL" "Suc n \<le> length (cstr s)"
      using c_at_less_cstr [of n s] by auto
    with "1.IH" show ?thesis by (simp add: strlen_loop.simps [of s n])
  qed
qed

lemma strlen_k_cstr [cstr_simps]: "strlen_k (Some s) = length (cstr s)"
  by (simp add: strlen_k_def strlen_loop_cstr)

section \<open>Copy\<close>

text \<open>What the copy loop leaves in the destination from index \<open>i\<close> on.\<close>

lemma strncpy_loop_result:
  assumes "i \<le> length (cstr src)" "i \<le> n - 1" "1 \<le> n" "n \<le> length dst"
  shows "strncpy_loop src (int n) dst i =
    (let k = min (n - 1) (length (cstr src))
     in (take i dst @ take (k - i) (drop i (cstr src)) @ drop k dst, k))"
  using assms
proof (induction src "int n" dst i rule: strncpy_loop.induct)
  case (1 src dst i)
  show ?case
  proof (cases "i < n - 1 \<and> i < length (cstr src)")
    case True
    then have nz: "c_at src i = cstr src ! i" "c_at src i \<noteq> NUL"
      using c_at_less_cstr by blast+
    from True have g: "int i < int n - 1" by linarith
    have IH: "strncpy_loop src (int n) (dst[i := c_at src i]) (Suc i) =
      (let k = min (n - 1) (length (cstr src))
       in (take (Suc i) (dst[i := c_at src i]) @ take (k - Suc i) (drop (Suc i) (cstr src)) @
           drop k (dst[i := c_at src i]), k))"
      using True "1.prems" g nz by (intro "1.hyps") auto
    let ?k = "min (n - 1) (length (cstr src))"
    have k: "i < ?k" using True by simp
    have "take (Suc i) (dst[i := c_at src i]) = take i dst @ [cstr src ! i]"
      using True "1.prems" nz by (auto simp: take_Suc_conv_app_nth)
    moreover have "take (?k - i) (drop i (cstr src)) =
        cstr src ! i # take (?k - Suc i) (drop (Suc i) (cstr src))"
    proof -
      have "drop i (cstr src) = cstr src ! i # drop (Suc i) (cstr src)"
        using True by (simp add: Cons_nth_drop_Suc)
      moreover from k have "?k - i = Suc (?k - Suc i)" by linarith
      ultimately show ?thesis by simp
    qed
    moreover have "drop ?k (dst[i := c_at src i]) = drop ?k dst" using k by simp
    ultimately show ?thesis
      using g nz IH by (simp add: strncpy_loop.simps [of src "int n" dst i] Let_def)
  next
    case False
    with "1.prems" have k: "min (n - 1) (length (cstr src)) = i" by auto
    have "\<not> (int i < int n - 1 \<and> c_at src i \<noteq> NUL)"
      using False "1.prems" c_at_length_cstr [of src]
      by (cases "i = length (cstr src)") auto
    then have "strncpy_loop src (int n) dst i = (dst, i)"
      by (subst strncpy_loop.simps) (simp only: if_False)
    then show ?thesis using k by simp
  qed
qed

lemma set_name_eq:
  assumes "1 \<le> n" "n \<le> length buf"
  shows "set_name buf src n =
    take (n - 1) (cstr src) @ NUL # drop (Suc (min (n - 1) (length (cstr src)))) buf"
proof -
  let ?k = "min (n - 1) (length (cstr src))"
  have k: "?k < length buf" using assms by auto
  have "set_name buf src n = (take ?k (cstr src) @ drop ?k buf)[?k := NUL]"
    using assms strncpy_loop_result [of 0 src n buf]
    by (simp add: set_name_def strncpy_k_def Let_def)
  also have "\<dots> = take ?k (cstr src) @ (drop ?k buf)[0 := NUL]"
    by (simp add: list_update_append)
  also have "(drop ?k buf)[0 := NUL] = NUL # drop (Suc ?k) buf"
    using Cons_nth_drop_Suc [OF k] by (metis list_update_code(2))
  also have "take ?k (cstr src) = take (n - 1) (cstr src)" by (simp add: min_def)
  finally show ?thesis .
qed

lemma length_set_name [simp]:
  assumes "1 \<le> n" "n \<le> length buf"
  shows "length (set_name buf src n) = length buf"
  using assms by (simp add: set_name_eq)

lemma cstr_set_name [cstr_simps]:
  assumes "1 \<le> n" "n \<le> length buf"
  shows "cstr (set_name buf src n) = take (n - 1) (cstr src)"
proof -
  have "NUL \<notin> set (take (n - 1) (cstr src))"
    using NUL_notin_cstr in_set_takeD by metis
  then show ?thesis using assms by (simp add: set_name_eq cstr_append_NUL)
qed

section \<open>Comparison\<close>

lemma strncmp_loop_zero:
  "strncmp_loop a b i n = 0 \<longleftrightarrow> take n (cstr (drop i a)) = take n (cstr (drop i b))"
proof (induction a b i n rule: strncmp_loop.induct)
  case (1 a b i)
  then show ?case by simp
next
  case (2 a b i n)
  then show ?case by (simp add: cstr_step [of i a] cstr_step [of i b])
qed

text \<open>Away from 0 the result compares the characters after the longest common prefix.\<close>

lemma strncmp_loop_mismatch:
  assumes "take n (cstr a) \<noteq> take n (cstr b)"
  shows "strncmp_loop a b 0 n =
    (let i = length (longest_common_prefix (cstr a) (cstr b))
     in of_char (c_at a i) - of_char (c_at b i))"
proof -
  have "strncmp_loop a b k n =
      (let i = length (longest_common_prefix (cstr (drop k a)) (cstr (drop k b)))
       in of_char (c_at (drop k a) i) - of_char (c_at (drop k b) i))"
    if "take n (cstr (drop k a)) \<noteq> take n (cstr (drop k b))" for k
    using that
  proof (induction a b k n rule: strncmp_loop.induct)
    case (1 a b i)
    then show ?case by simp
  next
    case (2 a b i n)
    have at: "c_at (drop i s) (Suc j) = c_at (drop (Suc i) s) j" for s j
      using c_at_drop [of s i "Suc j"] c_at_drop [of s "Suc i" j] by simp
    have at0: "c_at (drop i s) 0 = c_at s i" for s
      using c_at_drop [of s i 0] by simp
    show ?case
      using 2 by (auto simp: cstr_step [of i a] cstr_step [of i b] Let_def at at0)
  qed
  from this [of 0] assms show ?thesis by simp
qed

lemma strncmp_k_zero:
  "strncmp_k (Some a) (Some b) n = 0 \<longleftrightarrow> take (nat n) (cstr a) = take (nat n) (cstr b)"
  by (simp add: strncmp_k_def strncmp_loop_zero)

text \<open>Comparing a stored, possibly truncated name with the key of a lookup.\<close>

lemma strncmp_set_name:
  assumes "1 \<le> n" "n \<le> length buf"
  shows "strncmp_k (Some (set_name buf src n)) (Some key) (int n) = 0 \<longleftrightarrow>
    length (cstr key) < n \<and> take (n - 1) (cstr src) = cstr key"
proof -
  have "take n (take (n - 1) (cstr src)) = take (n - 1) (cstr src)" by simp
  then have "?thesis \<longleftrightarrow>
      ((take (n - 1) (cstr src) = take n (cstr key)) \<longleftrightarrow>
       length (cstr key) < n \<and> take (n - 1) (cstr src) = cstr key)"
    using assms by (simp add: strncmp_k_zero cstr_set_name)
  also have \<dots>
  proof (cases "length (cstr key) < n")
    case True
    then show ?thesis by simp
  next
    case False
    have "take (n - 1) (cstr src) \<noteq> take n (cstr key)"
    proof
      assume "take (n - 1) (cstr src) = take n (cstr key)"
      then have "length (take (n - 1) (cstr src)) = length (take n (cstr key))" by simp
      with False assms show False by simp
    qed
    with False show ?thesis by simp
  qed
  finally show ?thesis by simp
qed

section \<open>Properties\<close>

text \<open>Comparing two strings with a bound returns 0 exactly when the first \<open>n\<close> characters
  before the terminators agree, and otherwise the difference, as unsigned bytes, of the two
  characters right after the longest common prefix.\<close>

theorem strncmp_k_correct:
  "strncmp_k (Some a) (Some b) n =
     (if take (nat n) (cstr a) = take (nat n) (cstr b) then 0
      else let i = length (longest_common_prefix (cstr a) (cstr b))
           in of_char (c_at a i) - of_char (c_at b i))"
  using strncmp_k_zero [of a b n] strncmp_loop_mismatch [of "nat n" a b]
  by (simp add: strncmp_k_def)

text \<open>Copying into an array of at least \<open>n\<close> bytes never changes the array's length, leaves it
  holding the source cut at \<open>n - 1\<close> characters with a terminator, and leaves every byte beyond
  the terminator as it was.\<close>

theorem strncpy_k_correct:
  assumes "1 \<le> n" "n \<le> length dst"
  shows "\<exists>d. strncpy_k (Some dst) (Some src) (int n) = Some d \<and> length d = length dst \<and>
    cstr d = take (n - 1) (cstr src) \<and> NUL \<in> set d \<and>
    drop n d = drop n dst"
proof -
  let ?d = "set_name dst src n"
  have "strncpy_k (Some dst) (Some src) (int n) = Some ?d"
    by (simp add: set_name_def strncpy_k_def Let_def split: prod.splits)
  moreover have "drop n ?d = drop n dst"
    using assms by (cases n) (auto simp: set_name_eq drop_Cons' min_def)
  ultimately show ?thesis
    using assms by (simp add: cstr_set_name) (simp add: set_name_eq)
qed

theorem strncpy_k_correct_witness:
  "\<exists>d. strncpy_k (Some ''........'') (Some ''heartbeat'') (int 6) = Some d \<and> length d = 8 \<and>
    cstr d = ''heart'' \<and> NUL \<in> set d \<and> drop 6 d = ''..''"
proof -
  have "cstr ''heartbeat'' = ''heartbeat''" by (simp add: cstr_def)
  then show ?thesis
    using strncpy_k_correct [of 6 "''........''" "''heartbeat''"] by (simp add: eval_nat_numeral)
qed

end
