(* ===== verification/Keyboard.thy ===== *)
theory Keyboard
  imports Idt Ring_Buffer Kstring
begin

unbundle bit_operations_syntax

text \<open>
  \<^verbatim>\<open>kernel/keyboard.c\<close>: the PS/2 keyboard driver. \<^verbatim>\<open>keyboard_poll\<close> reads scancodes while the
  controller has one, tracks the modifiers and puts characters into a ring of 32; a controller that
  always has another scancode keeps it busy for ever, so it is a \<open>partial_function (option)\<close>. The
  relation \<open>kbd_feed\<close> describes a controller that delivers a given sequence and then has no more.

  The specification of the decoder is \<open>kb_decode\<close>, the characters a scancode sequence stands for; the
  ring meets the contract of a bounded queue.
\<close>

section \<open>State\<close>

abbreviation KBD_DATA_PORT :: u16 where "KBD_DATA_PORT \<equiv> 0x60"
abbreviation KBD_STATUS_PORT :: u16 where "KBD_STATUS_PORT \<equiv> 0x64"
abbreviation KB_BUFFER_SIZE :: nat where "KB_BUFFER_SIZE \<equiv> 32"

definition scancode_ascii :: string where
  "scancode_ascii =
     [NUL, NUL] @ ''1234567890-='' @ [BS, TAB] @ ''qwertyuiop[]'' @ [LF, NUL] @
     ''asdfghjkl;'' @ [CHR 0x27, CHR 0x60, NUL, CHR 0x5C] @ ''zxcvbnm,./'' @ [NUL, CHR ''*'', NUL, CHR '' '']"

definition scancode_ascii_shift :: string where
  "scancode_ascii_shift =
     [NUL, NUL] @ ''!@#$%^&*()_+'' @ [BS, TAB] @ ''QWERTYUIOP{}'' @ [LF, NUL] @
     ''ASDFGHJKL:'' @ [CHR 0x22, CHR ''~'', NUL, CHR ''|''] @ ''ZXCVBNM<>?'' @ [NUL, CHR ''*'', NUL, CHR '' '']"

definition SCANCODE_TABLE_SIZE :: nat where
  "SCANCODE_TABLE_SIZE = length scancode_ascii"

record 'd kbd_st = "'d idt_st" +
  shift_held :: bool
  caps_active :: bool
  kb_buf :: "char list"
  kb_head :: u8
  kb_tail :: u8
  kb_count :: u8

section \<open>Operations\<close>

definition kb_push :: "char \<Rightarrow> ('d, 'z) kbd_st_scheme \<Rightarrow> ('d, 'z) kbd_st_scheme" where
  "kb_push c s =
     (if of_nat KB_BUFFER_SIZE \<le> kb_count s then s
      else s\<lparr>kb_buf := (kb_buf s)[unat (kb_head s) := c],
             kb_head := of_nat ((unat (kb_head s) + 1) mod KB_BUFFER_SIZE),
             kb_count := kb_count s + 1\<rparr>)"

definition keyboard_init :: "'d io_dev \<Rightarrow> ('d, 'z) kbd_st_scheme \<Rightarrow> ('d, 'z) kbd_st_scheme" where
  "keyboard_init D s =
     (let s = s\<lparr>shift_held := False, caps_active := False, kb_head := 0, kb_tail := 0, kb_count := 0\<rparr>;
          s = irq_register_handler IRQ_KEYBOARD (Some Keyboard_poll) s
      in irq_unmask D IRQ_KEYBOARD s)"

text \<open>The body of the polling loop for one scancode.\<close>

definition kb_scancode :: "u8 \<Rightarrow> ('d, 'z) kbd_st_scheme \<Rightarrow> ('d, 'z) kbd_st_scheme" where
  "kb_scancode sc s =
     (if sc = 0x2A \<or> sc = 0x36 then s\<lparr>shift_held := True\<rparr>
      else if sc = 0xAA \<or> sc = 0xB6 then s\<lparr>shift_held := False\<rparr>
      else if sc = 0x3A then s\<lparr>caps_active := \<not> caps_active s\<rparr>
      else if sc AND 0x80 \<noteq> 0 then s
      else if sc = 0xE0 then s
      else if SCANCODE_TABLE_SIZE \<le> unat sc then s
      else (let use_shift = (shift_held s \<noteq> caps_active s);
                c = (if use_shift then scancode_ascii_shift ! unat sc else scancode_ascii ! unat sc)
            in if c \<noteq> NUL then kb_push c s else s))"

partial_function (option) keyboard_poll :: "'d io_dev \<Rightarrow> ('d, 'z) kbd_st_scheme \<Rightarrow> ('d, 'z) kbd_st_scheme option" where
  "keyboard_poll D s =
     (if fst (inb D KBD_STATUS_PORT s) AND 0x01 = 0 then Some (snd (inb D KBD_STATUS_PORT s))
      else keyboard_poll D
             (kb_scancode (fst (inb D KBD_DATA_PORT (snd (inb D KBD_STATUS_PORT s))))
                (snd (inb D KBD_DATA_PORT (snd (inb D KBD_STATUS_PORT s))))))"

definition keyboard_getchar :: "('d, 'z) kbd_st_scheme \<Rightarrow> char \<times> ('d, 'z) kbd_st_scheme" where
  "keyboard_getchar s =
     (if kb_count s = 0 then (NUL, s)
      else (kb_buf s ! unat (kb_tail s),
            s\<lparr>kb_tail := of_nat ((unat (kb_tail s) + 1) mod KB_BUFFER_SIZE), kb_count := kb_count s - 1\<rparr>))"

definition keyboard_push :: "char \<Rightarrow> ('d, 'z) kbd_st_scheme \<Rightarrow> ('d, 'z) kbd_st_scheme" where
  "keyboard_push c s = kb_push c s"

text \<open>\<^verbatim>\<open>serial_poll\<close> of \<^verbatim>\<open>adapters/adapter_serial.c\<close>: up to 16 received bytes go into the same ring.\<close>

definition serial_poll :: "'d io_dev \<Rightarrow> ('d, 'z) kbd_st_scheme \<Rightarrow> ('d, 'z) kbd_st_scheme" where
  "serial_poll D s =
     (let (buf, s) = serial_read D 16 s
      in fold (\<lambda>b s. let c = char_of_byte b; c = (if c = CR then LF else c) in keyboard_push c s) buf s)"

section \<open>The ring is a bounded queue\<close>

definition kb_inv :: "('d, 'z) kbd_st_scheme \<Rightarrow> bool" where
  "kb_inv s \<longleftrightarrow> length (kb_buf s) = 32 \<and> unat (kb_count s) \<le> 32 \<and> unat (kb_tail s) < 32 \<and>
     unat (kb_head s) = (unat (kb_tail s) + unat (kb_count s)) mod 32"

definition kb_contents :: "('d, 'z) kbd_st_scheme \<Rightarrow> string" where
  "kb_contents s = ring_list (kb_buf s) (unat (kb_tail s)) (unat (kb_count s))"

lemma unat_mod32 [simp]: "unat (of_nat (n mod 32) :: u8) = n mod 32"
  using mod_less_divisor [of 32 n] by (intro unat_of_nat_u8) linarith

lemma kb_full_iff: "32 \<le> kb_count s \<longleftrightarrow> 32 \<le> unat (kb_count s)"
  by (simp add: word_le_nat_alt)

lemma kb_push_inv: "kb_inv s \<Longrightarrow> kb_inv (kb_push c s)"
proof (cases "32 \<le> unat (kb_count s)")
  case False
  assume inv: "kb_inv s"
  have "unat (kb_count s + 1) = unat (kb_count s) + 1" using False by (intro u8_inc) simp
  then show ?thesis using inv False by (auto simp: kb_inv_def kb_push_def kb_full_iff mod_simps add.assoc)
qed (simp add: kb_push_def kb_full_iff)

lemma kb_push_contents:
  "kb_inv s \<Longrightarrow> unat (kb_count s) < 32 \<Longrightarrow> kb_contents (kb_push c s) = kb_contents s @ [c]"
proof -
  assume inv: "kb_inv s" and room: "unat (kb_count s) < 32"
  have "unat (kb_count s + 1) = unat (kb_count s) + 1" using room by (intro u8_inc) simp
  moreover have "kb_push c s = s\<lparr>kb_buf := (kb_buf s)[unat (kb_head s) := c],
             kb_head := of_nat ((unat (kb_head s) + 1) mod 32), kb_count := kb_count s + 1\<rparr>"
    using room by (simp add: kb_push_def kb_full_iff)
  moreover have "ring_list ((kb_buf s)[unat (kb_head s) := c]) (unat (kb_tail s)) (Suc (unat (kb_count s))) =
      ring_list (kb_buf s) (unat (kb_tail s)) (unat (kb_count s)) @ [c]"
    using ring_push [of "unat (kb_count s)" "kb_buf s" "unat (kb_tail s)" c] inv room by (simp add: kb_inv_def)
  ultimately show ?thesis by (simp add: kb_contents_def)
qed

lemma keyboard_getchar_law:
  assumes inv: "kb_inv s" and ne: "kb_contents s = x # xs"
  shows "fst (keyboard_getchar s) = x \<and> kb_inv (snd (keyboard_getchar s)) \<and> kb_contents (snd (keyboard_getchar s)) = xs"
proof -
  have len: "unat (kb_count s) = Suc (length xs)"
    using ne length_ring_list [of "kb_buf s" "unat (kb_tail s)" "unat (kb_count s)"] by (simp add: kb_contents_def)
  have pos: "kb_count s \<noteq> 0" using len by auto
  have dec: "unat (kb_count s - 1) = unat (kb_count s) - 1" using pos by (rule unat_minus_one)
  have "x # xs = kb_buf s ! unat (kb_tail s) #
      ring_list (kb_buf s) ((unat (kb_tail s) + 1) mod 32) (unat (kb_count s) - 1)"
    using ring_pop [of "unat (kb_count s)" "unat (kb_tail s)" "kb_buf s"] inv ne len
    by (simp add: kb_contents_def kb_inv_def)
  moreover have "(unat (kb_tail s) + unat (kb_count s)) mod 32 =
      ((unat (kb_tail s) + 1) mod 32 + (unat (kb_count s) - 1)) mod 32"
    using len by (simp add: mod_simps)
  ultimately show ?thesis
    using pos inv dec by (auto simp: keyboard_getchar_def kb_contents_def kb_inv_def)
qed

interpretation kb_queue: bounded_queue kb_inv kb_contents kb_push keyboard_getchar "\<lambda>c. True" "\<lambda>c s. c" 32
proof
  fix s :: "('d, 'z) kbd_st_scheme" and c x xs
  show "length (kb_contents s) \<le> 32" if "kb_inv s" using that by (simp add: kb_inv_def kb_contents_def)
  show "kb_inv (kb_push c s)" if "kb_inv s" using that by (rule kb_push_inv)
  show "kb_contents (kb_push c s) = kb_contents s @ [c]" if "kb_inv s" "length (kb_contents s) < 32"
    using that by (intro kb_push_contents) (simp_all add: kb_contents_def)
  show "kb_push c s = s" if "kb_inv s" "length (kb_contents s) = 32"
    using that by (simp add: kb_push_def kb_contents_def word_le_nat_alt)
  show "fst (keyboard_getchar s) = x \<and> kb_inv (snd (keyboard_getchar s)) \<and> kb_contents (snd (keyboard_getchar s)) = xs"
    if "kb_inv s" "kb_contents s = x # xs" using that by (rule keyboard_getchar_law)
qed simp_all

section \<open>Decoding\<close>

text \<open>The characters a sequence of scancodes stands for, given the shift and caps-lock state.\<close>

definition kb_char :: "bool \<Rightarrow> bool \<Rightarrow> u8 \<Rightarrow> string" where
  "kb_char sh cp sc =
     (let t = (if sh \<noteq> cp then scancode_ascii_shift else scancode_ascii)
      in if unat sc < 58 \<and> t ! unat sc \<noteq> NUL then [t ! unat sc] else [])"

fun kb_decode :: "bool \<Rightarrow> bool \<Rightarrow> u8 list \<Rightarrow> string" where
  "kb_decode sh cp [] = []"
| "kb_decode sh cp (sc # scs) =
     (if sc \<in> {0x2A, 0x36} then kb_decode True cp scs
      else if sc \<in> {0xAA, 0xB6} then kb_decode False cp scs
      else if sc = 0x3A then kb_decode sh (\<not> cp) scs
      else kb_char sh cp sc @ kb_decode sh cp scs)"

lemma length_scancode_tables [simp]: "length scancode_ascii = 58" "length scancode_ascii_shift = 58"
  by (simp_all add: scancode_ascii_def scancode_ascii_shift_def)

lemma release_code: "unat (sc :: u8) < 58 \<Longrightarrow> sc AND 0x80 = 0"
proof -
  assume "unat sc < 58"
  then have "take_bit 7 (unat sc) = unat sc" by (simp add: take_bit_nat_eq_self)
  then have "take_bit 7 sc = sc" by (metis unsigned_take_bit_eq word_unat_eq_iff)
  then have "\<not> bit sc 7" by (metis bit_take_bit_iff less_irrefl)
  then show ?thesis
    by (intro bit_word_eqI) (auto simp: bit_simps numeral_eq_Suc less_Suc_eq bit_and_iff)
qed

text \<open>The effect of one scancode: the modifiers, or a burst of at most one character.\<close>

lemma kb_scancode_eq:
  "kb_scancode sc s =
     (if sc \<in> {0x2A, 0x36} then s\<lparr>shift_held := True\<rparr>
      else if sc \<in> {0xAA, 0xB6} then s\<lparr>shift_held := False\<rparr>
      else if sc = 0x3A then s\<lparr>caps_active := \<not> caps_active s\<rparr>
      else fold kb_push (kb_char (shift_held s) (caps_active s) sc) s)"
proof -
  have e0: "sc \<noteq> 0xE0" if "unat sc < 58" using that by auto
  show ?thesis
    using release_code [of sc] e0
    by (cases "unat sc < 58") (auto simp: kb_scancode_def kb_char_def SCANCODE_TABLE_SIZE_def Let_def)
qed

lemma kb_push_modifiers [simp]:
  "shift_held (kb_push c s) = shift_held s" "caps_active (kb_push c s) = caps_active s" "dev (kb_push c s) = dev s"
  by (simp_all add: kb_push_def)

lemma fold_push_modifiers [simp]:
  "shift_held (fold kb_push cs s) = shift_held s" "caps_active (fold kb_push cs s) = caps_active s"
  "dev (fold kb_push cs s) = dev s"
  by (induction cs arbitrary: s) simp_all

lemma kb_push_dev: "kb_push c (s\<lparr>dev := d\<rparr>) = (kb_push c s)\<lparr>dev := d\<rparr>"
  by (simp add: kb_push_def)

lemma kb_scancode_dev: "kb_scancode sc (s\<lparr>dev := d\<rparr>) = (kb_scancode sc s)\<lparr>dev := d\<rparr>"
  by (simp add: kb_scancode_def Let_def kb_push_dev)

lemma fold_scancode_dev: "fold kb_scancode scs (s\<lparr>dev := d\<rparr>) = (fold kb_scancode scs s)\<lparr>dev := d\<rparr>"
  by (induction scs arbitrary: s) (simp_all add: kb_scancode_dev)

lemma kb_fields_inv [simp]:
  "kb_inv (s\<lparr>shift_held := a\<rparr>) = kb_inv s" "kb_inv (s\<lparr>caps_active := b\<rparr>) = kb_inv s" "kb_inv (s\<lparr>dev := d\<rparr>) = kb_inv s"
  "kb_contents (s\<lparr>shift_held := a\<rparr>) = kb_contents s" "kb_contents (s\<lparr>caps_active := b\<rparr>) = kb_contents s"
  "kb_contents (s\<lparr>dev := d\<rparr>) = kb_contents s"
  by (simp_all add: kb_inv_def kb_contents_def)

lemma take_take_append: "take n (take n xs @ ys) = take n (xs @ ys)"
  by (cases "length xs \<le> n") (simp_all add: take_append)

lemma fold_push_contents:
  "kb_inv s \<Longrightarrow> kb_inv (fold kb_push cs s) \<and> kb_contents (fold kb_push cs s) = take 32 (kb_contents s @ cs)"
  using kb_queue.enq_all [of s cs] kb_queue.inv_cap [of s] by (simp add: take_append)

lemma fold_scancode_contents:
  "kb_inv s \<Longrightarrow> kb_inv (fold kb_scancode scs s) \<and>
     kb_contents (fold kb_scancode scs s) = take 32 (kb_contents s @ kb_decode (shift_held s) (caps_active s) scs)"
proof (induction scs arbitrary: s)
  case Nil
  then show ?case using kb_queue.inv_cap [of s] by simp
next
  case (Cons sc scs)
  consider "sc \<in> {0x2A, 0x36}" | "sc \<in> {0xAA, 0xB6}" | "sc = 0x3A" | (key) "sc \<notin> {0x2A, 0x36, 0xAA, 0xB6, 0x3A}" by blast
  then show ?case
  proof cases
    case key
    let ?cs = "kb_char (shift_held s) (caps_active s) sc"
    have "kb_scancode sc s = fold kb_push ?cs s" using key by (simp add: kb_scancode_eq)
    then show ?thesis
      using key fold_push_contents [OF Cons.prems, of ?cs] Cons.IH [of "fold kb_push ?cs s"]
      by (simp add: take_take_append del: take_append)
  qed (use Cons in \<open>auto simp: kb_scancode_eq\<close>)
qed

section \<open>Polling\<close>

text \<open>From device state \<open>d\<close> the controller delivers exactly the scancodes \<open>scs\<close> and is then in state \<open>d'\<close>.\<close>

inductive kbd_feed :: "'d io_dev \<Rightarrow> 'd \<Rightarrow> u8 list \<Rightarrow> 'd \<Rightarrow> bool" for D where
  empty: "in8 D KBD_STATUS_PORT d = (st, d') \<Longrightarrow> st AND 0x01 = 0 \<Longrightarrow> kbd_feed D d [] d'"
| scancode: "in8 D KBD_STATUS_PORT d = (st, d1) \<Longrightarrow> st AND 0x01 \<noteq> 0 \<Longrightarrow> in8 D KBD_DATA_PORT d1 = (sc, d2) \<Longrightarrow>
    kbd_feed D d2 scs d' \<Longrightarrow> kbd_feed D d (sc # scs) d'"

inductive_cases kbd_feedE: "kbd_feed D d scs d'"

text \<open>A controller delivers at most one sequence.\<close>

lemma kbd_feed_unique: "kbd_feed D d scs d' \<Longrightarrow> kbd_feed D d scs2 d2 \<Longrightarrow> scs2 = scs \<and> d2 = d'"
proof (induction arbitrary: scs2 rule: kbd_feed.induct)
  case (empty d st d')
  from empty.prems show ?case by (rule kbd_feedE) (use empty.hyps in auto)
next
  case (scancode d st d1 sc e scs d')
  from scancode.prems show ?case by (rule kbd_feedE) (use scancode.hyps scancode.IH in auto)
qed

lemma keyboard_poll_feed:
  "kbd_feed D d scs d' \<Longrightarrow> dev s = d \<Longrightarrow> keyboard_poll D s = Some ((fold kb_scancode scs s)\<lparr>dev := d'\<rparr>)"
proof (induction arbitrary: s rule: kbd_feed.induct)
  case (empty d st d')
  then show ?case by (subst keyboard_poll.simps) (simp add: inb_def)
next
  case (scancode d st d1 sc d2 scs d')
  let ?s = "kb_scancode sc (s\<lparr>dev := d2\<rparr>)"
  have "keyboard_poll D s = keyboard_poll D ?s"
    using scancode.hyps(1-3) scancode.prems by (subst keyboard_poll.simps) (simp add: inb_def)
  also have "\<dots> = Some ((fold kb_scancode scs ?s)\<lparr>dev := d'\<rparr>)"
    by (rule scancode.IH) (simp add: kb_scancode_dev)
  finally show ?case by (simp add: kb_scancode_dev fold_scancode_dev)
qed

text \<open>An emulated controller: the scancodes not read yet.\<close>

definition kbd_emu :: "u8 list io_dev" where
  "kbd_emu = \<lparr>in8 = (\<lambda>p d. if p = KBD_STATUS_PORT then (if d = [] then 0 else 1, d)
       else if p = KBD_DATA_PORT then (case d of [] \<Rightarrow> (0, []) | sc # d \<Rightarrow> (sc, d)) else (0, d)),
     out8 = (\<lambda>p v d. d), in16 = (\<lambda>p d. (0, d)), out16 = (\<lambda>p v d. d)\<rparr>"

lemma kbd_emu_feed: "kbd_feed kbd_emu scs scs []"
proof (induction scs)
  case Nil
  then show ?case by (rule kbd_feed.empty [where st = 0]) (simp_all add: kbd_emu_def)
next
  case (Cons sc scs)
  show ?case
    by (rule kbd_feed.scancode [of kbd_emu "sc # scs" 1 "sc # scs" sc scs scs "[]"]) (simp_all add: kbd_emu_def Cons [unfolded kbd_emu_def])
qed

definition demo_kbd :: "u8 list \<Rightarrow> u8 list kbd_st" where
  "demo_kbd scs = \<lparr>dev = scs, mem = (\<lambda>_. 0), cr0 = 0, cr2 = 0,
     cr3 = 0, cr4 = 0, idtr = (0, 0), int_flag = False, g_kernel_state = KERNEL_STATE_INIT, g_tick_count = 0,
     heap_head = 0, vga_row = 0, vga_col = 0, vga_color = 0, g_serial_hook = None,
     idt_table = [], irq_handlers = replicate 16 None, shift_held = False, caps_active = False,
     kb_buf = replicate 32 NUL, kb_head = 30, kb_tail = 30, kb_count = 0\<rparr>"

lemma demo_kbd_inv: "kb_inv (demo_kbd scs)" "kb_contents (demo_kbd scs) = []"
  "shift_held (demo_kbd scs) = False" "caps_active (demo_kbd scs) = False" "dev (demo_kbd scs) = scs"
  by (simp_all add: demo_kbd_def kb_inv_def kb_contents_def)

section \<open>Properties\<close>

text \<open>C18: when the controller delivers finitely many scancodes, polling returns, and the buffer then holds
  what it held before followed by the characters those scancodes stand for (with the shift keys and
  caps lock tracked, key releases and unknown keys ignored), cut at 32 characters: when the ring is
  full the newest characters are dropped.\<close>

theorem keyboard_poll_correct:
  assumes "kbd_feed D (dev s) scs d'" "kb_inv s"
  shows "\<exists>s'. keyboard_poll D s = Some s' \<and> kb_inv s' \<and>
    kb_contents s' = take 32 (kb_contents s @ kb_decode (shift_held s) (caps_active s) scs)"
  using keyboard_poll_feed [OF assms(1) refl] fold_scancode_contents [OF assms(2), of scs] by auto

theorem keyboard_poll_correct_witness:
  "\<exists>s'. keyboard_poll kbd_emu (demo_kbd [0x2A, 0x23, 0xA3, 0xAA, 0x17]) = Some s' \<and> kb_contents s' = ''Hi''"
proof -
  have "kbd_feed kbd_emu (dev (demo_kbd [0x2A, 0x23, 0xA3, 0xAA, 0x17])) [0x2A, 0x23, 0xA3, 0xAA, 0x17] []"
    using kbd_emu_feed by (simp add: demo_kbd_inv)
  moreover have "kb_decode False False [0x2A, 0x23, 0xA3, 0xAA, 0x17] = ''Hi''" by code_simp
  ultimately show ?thesis
    using keyboard_poll_correct [OF _ demo_kbd_inv(1), of kbd_emu _ "[0x2A, 0x23, 0xA3, 0xAA, 0x17]"]
    by (fastforce simp: demo_kbd_inv)
qed

text \<open>Characters put into the empty buffer come out in the order they went in: after a burst, reading
  the buffer returns the first 32 of them and leaves it empty, and a further read returns 0.\<close>

theorem keyboard_fifo:
  assumes "kb_inv s" "kb_contents s = []"
  shows "\<exists>s'. repeat_deq keyboard_getchar (min 32 (length cs)) (fold keyboard_push cs s) = (take 32 cs, s') \<and>
    kb_contents s' = [] \<and> keyboard_getchar s' = (NUL, s')"
proof -
  have push: "keyboard_push = (kb_push :: char \<Rightarrow> ('a, 'b) kbd_st_scheme \<Rightarrow> _)"
    by (simp add: fun_eq_iff keyboard_push_def)
  have c: "kb_inv (fold keyboard_push cs s)" "kb_contents (fold keyboard_push cs s) = take 32 cs"
    using fold_push_contents [OF assms(1), of cs] assms(2) by (simp_all add: push)
  obtain s' where s': "repeat_deq keyboard_getchar (length (take 32 cs)) (fold keyboard_push cs s) = (take 32 cs, s')"
    "kb_inv s'" "kb_contents s' = []"
    using kb_queue.deq_all [OF c] by blast
  have "unat (kb_count s') = 0"
    using s'(3) length_ring_list [of "kb_buf s'" "unat (kb_tail s')" "unat (kb_count s')"] by (simp add: kb_contents_def)
  then have "kb_count s' = 0" by (simp add: word_unat_eq_iff)
  then have "keyboard_getchar s' = (NUL, s')" by (simp add: keyboard_getchar_def)
  then show ?thesis using s' by (auto simp: min.commute)
qed

theorem keyboard_fifo_witness:
  "\<exists>s'. repeat_deq keyboard_getchar 3 (fold keyboard_push ''abc'' (demo_kbd [])) = (''abc'', s') \<and> kb_contents s' = []"
proof -
  have "min 32 (length ''abc'') = 3" "take 32 ''abc'' = ''abc''" by simp_all
  with keyboard_fifo [OF demo_kbd_inv(1,2), of "''abc''" "[]"] show ?thesis by metis
qed

end
