(* ===== verification/Eventbus.thy ===== *)
theory Eventbus
  imports Keyboard
begin

unbundle bit_operations_syntax

text \<open>
  \<^verbatim>\<open>kernel/eventbus.c\<close>: the handler table and the circular queue of pending events. A handler is a
  function pointer, a 32-bit address with 0 for NULL; what the function at an address does is the
  parameter \<open>call\<close> of \<^verbatim>\<open>eventbus_process\<close>. A handler may publish again, and one that always does keeps
  the drain loop running, so the loop is a \<open>partial_function (option)\<close>.

  The queue meets the contract of a bounded queue. The behaviour of the drain loop is stated for
  handlers that return and leave the bus alone: it returns, and the calls it makes are recorded in a
  log that the caller can choose (\<open>observer\<close>).
\<close>

section \<open>State\<close>

abbreviation EVENTBUS_MAX_TOPICS :: nat where "EVENTBUS_MAX_TOPICS \<equiv> 32"
abbreviation EVENTBUS_MAX_HANDLERS :: nat where "EVENTBUS_MAX_HANDLERS \<equiv> 8"
abbreviation EVENTBUS_QUEUE_DEPTH :: nat where "EVENTBUS_QUEUE_DEPTH \<equiv> 64"

abbreviation TOPIC_KERNEL_TICK :: u8 where "TOPIC_KERNEL_TICK \<equiv> 0"
abbreviation TOPIC_PLUGIN_LOADED :: u8 where "TOPIC_PLUGIN_LOADED \<equiv> 1"
abbreviation TOPIC_PLUGIN_UNLOADED :: u8 where "TOPIC_PLUGIN_UNLOADED \<equiv> 2"
abbreviation TOPIC_MIRROR_SYNC :: u8 where "TOPIC_MIRROR_SYNC \<equiv> 3"
abbreviation TOPIC_SCHEDULER_SWITCH :: u8 where "TOPIC_SCHEDULER_SWITCH \<equiv> 4"

record aura_event_t =
  e_topic :: u8
  e_data :: u32
  e_timestamp :: u32

type_synonym event_handler_t = u32

record 'd bus_st = "'d kbd_st" +
  handlers :: "event_handler_t list list"
  queue :: "aura_event_t list"
  q_head :: u8
  q_tail :: u8
  q_count :: u32

section \<open>Operations\<close>

definition set_handler :: "nat \<Rightarrow> nat \<Rightarrow> event_handler_t \<Rightarrow> event_handler_t list list \<Rightarrow> event_handler_t list list" where
  "set_handler t h fn hs = hs[t := (hs ! t)[h := fn]]"

definition eventbus_init :: "('d, 'z) bus_st_scheme \<Rightarrow> ('d, 'z) bus_st_scheme" where
  "eventbus_init s =
     s\<lparr>handlers := fold (\<lambda>t. fold (\<lambda>h. set_handler t h 0) [0..<EVENTBUS_MAX_HANDLERS]) [0..<EVENTBUS_MAX_TOPICS] (handlers s),
       q_head := 0, q_tail := 0, q_count := 0\<rparr>"

text \<open>The scan for the first slot of a topic that holds \<open>fn\<close>.\<close>

fun find_slot :: "event_handler_t \<Rightarrow> event_handler_t list \<Rightarrow> nat list \<Rightarrow> nat option" where
  "find_slot fn row [] = None"
| "find_slot fn row (h # hs) = (if row ! h = fn then Some h else find_slot fn row hs)"

definition eventbus_subscribe :: "u8 \<Rightarrow> event_handler_t \<Rightarrow> ('d, 'z) bus_st_scheme \<Rightarrow> aura_status_t \<times> ('d, 'z) bus_st_scheme" where
  "eventbus_subscribe topic handler s =
     (if of_nat EVENTBUS_MAX_TOPICS \<le> topic \<or> handler = 0 then (AURA_ERR, s)
      else case find_slot 0 (handlers s ! unat topic) [0..<EVENTBUS_MAX_HANDLERS] of
             Some h \<Rightarrow> (AURA_OK, s\<lparr>handlers := set_handler (unat topic) h handler (handlers s)\<rparr>)
           | None \<Rightarrow> (AURA_NOSLOT, s))"

definition eventbus_unsubscribe :: "u8 \<Rightarrow> event_handler_t \<Rightarrow> ('d, 'z) bus_st_scheme \<Rightarrow> aura_status_t \<times> ('d, 'z) bus_st_scheme" where
  "eventbus_unsubscribe topic handler s =
     (if of_nat EVENTBUS_MAX_TOPICS \<le> topic \<or> handler = 0 then (AURA_ERR, s)
      else case find_slot handler (handlers s ! unat topic) [0..<EVENTBUS_MAX_HANDLERS] of
             Some h \<Rightarrow> (AURA_OK, s\<lparr>handlers := set_handler (unat topic) h 0 (handlers s)\<rparr>)
           | None \<Rightarrow> (AURA_NOTFOUND, s))"

definition eventbus_publish :: "u8 \<Rightarrow> u32 \<Rightarrow> ('d, 'z) bus_st_scheme \<Rightarrow> aura_status_t \<times> ('d, 'z) bus_st_scheme" where
  "eventbus_publish topic data s =
     (if of_nat EVENTBUS_MAX_TOPICS \<le> topic then (AURA_ERR, s)
      else if of_nat EVENTBUS_QUEUE_DEPTH \<le> q_count s then (AURA_BUSY, s)
      else (AURA_OK,
            s\<lparr>queue := (queue s)[unat (q_tail s) := \<lparr>e_topic = topic, e_data = data, e_timestamp = g_tick_count s\<rparr>],
              q_tail := of_nat ((unat (q_tail s) + 1) mod EVENTBUS_QUEUE_DEPTH),
              q_count := q_count s + 1\<rparr>))"

text \<open>Taking the oldest event off the queue, the first half of the loop body.\<close>

definition eventbus_take :: "('d, 'z) bus_st_scheme \<Rightarrow> aura_event_t \<times> ('d, 'z) bus_st_scheme" where
  "eventbus_take s =
     (queue s ! unat (q_head s),
      s\<lparr>q_head := of_nat ((unat (q_head s) + 1) mod EVENTBUS_QUEUE_DEPTH), q_count := q_count s - 1\<rparr>)"

text \<open>The inner loop over the handler slots; the table is read anew for every slot.\<close>

fun eventbus_deliver ::
    "(event_handler_t \<Rightarrow> aura_event_t \<Rightarrow> ('d, 'z) bus_st_scheme \<Rightarrow> ('d, 'z) bus_st_scheme option) \<Rightarrow> aura_event_t \<Rightarrow>
     nat list \<Rightarrow> ('d, 'z) bus_st_scheme \<Rightarrow> ('d, 'z) bus_st_scheme option" where
  "eventbus_deliver call evt [] s = Some s"
| "eventbus_deliver call evt (h # hs) s =
     (let fn = handlers s ! unat (e_topic evt) ! h
      in do { s \<leftarrow> (if fn \<noteq> 0 then call fn evt s else Some s); eventbus_deliver call evt hs s })"

partial_function (option) eventbus_process ::
    "(event_handler_t \<Rightarrow> aura_event_t \<Rightarrow> ('d, 'z) bus_st_scheme \<Rightarrow> ('d, 'z) bus_st_scheme option) \<Rightarrow>
     ('d, 'z) bus_st_scheme \<Rightarrow> ('d, 'z) bus_st_scheme option" where
  "eventbus_process call s =
     (if q_count s = 0 then Some s
      else do { s' \<leftarrow> (if e_topic (fst (eventbus_take s)) < of_nat EVENTBUS_MAX_TOPICS
                      then eventbus_deliver call (fst (eventbus_take s)) [0..<EVENTBUS_MAX_HANDLERS] (snd (eventbus_take s))
                      else Some (snd (eventbus_take s)));
                eventbus_process call s' })"

definition eventbus_pending :: "('d, 'z) bus_st_scheme \<Rightarrow> u32" where
  "eventbus_pending s = q_count s"

section \<open>The queue is a bounded queue\<close>

definition bus_inv :: "('d, 'z) bus_st_scheme \<Rightarrow> bool" where
  "bus_inv s \<longleftrightarrow> length (queue s) = 64 \<and> unat (q_count s) \<le> 64 \<and> unat (q_head s) < 64 \<and>
     unat (q_tail s) = (unat (q_head s) + unat (q_count s)) mod 64 \<and>
     length (handlers s) = 32 \<and> (\<forall>row \<in> set (handlers s). length row = 8)"

definition pending :: "('d, 'z) bus_st_scheme \<Rightarrow> aura_event_t list" where
  "pending s = ring_list (queue s) (unat (q_head s)) (unat (q_count s))"

lemma length_pending: "length (pending s) = unat (q_count s)"
  by (simp add: pending_def)

lemma unat_mod64 [simp]: "unat (of_nat (n mod 64) :: u8) = n mod 64"
  using mod_less_divisor [of 64 n] by (intro unat_of_nat_u8) linarith

lemma u32_inc: "unat (x :: u32) < 2 ^ 32 - 1 \<Longrightarrow> unat (x + 1) = unat x + 1"
  by (simp add: unat_word_ariths)

lemma bus_full_iff: "64 \<le> q_count s \<longleftrightarrow> 64 \<le> unat (q_count s)"
  by (simp add: word_le_nat_alt)

lemma topic_bound: "32 \<le> (t :: u8) \<longleftrightarrow> 32 \<le> unat t"
  by (simp add: word_le_nat_alt)

text \<open>Every outcome of a publication.\<close>

lemma eventbus_publish_cases:
  assumes inv: "bus_inv s"
  shows "eventbus_publish t x s =
      (if 32 \<le> unat t then (AURA_ERR, s) else if length (pending s) = 64 then (AURA_BUSY, s)
       else (AURA_OK, snd (eventbus_publish t x s)))"
    and "unat t < 32 \<Longrightarrow> length (pending s) < 64 \<Longrightarrow>
      pending (snd (eventbus_publish t x s)) = pending s @ [\<lparr>e_topic = t, e_data = x, e_timestamp = g_tick_count s\<rparr>]"
    and "bus_inv (snd (eventbus_publish t x s))"
proof -
  show "eventbus_publish t x s =
      (if 32 \<le> unat t then (AURA_ERR, s) else if length (pending s) = 64 then (AURA_BUSY, s)
       else (AURA_OK, snd (eventbus_publish t x s)))"
    using inv by (auto simp: eventbus_publish_def topic_bound bus_full_iff length_pending bus_inv_def)
  let ?e = "\<lparr>e_topic = t, e_data = x, e_timestamp = g_tick_count s\<rparr>"
  show "pending (snd (eventbus_publish t x s)) = pending s @ [?e]" if "unat t < 32" "length (pending s) < 64"
  proof -
    have "unat (q_count s + 1) = Suc (unat (q_count s))" using that u32_inc [of "q_count s"] by (simp add: length_pending)
    moreover have "ring_list ((queue s)[unat (q_tail s) := ?e]) (unat (q_head s)) (Suc (unat (q_count s))) =
        ring_list (queue s) (unat (q_head s)) (unat (q_count s)) @ [?e]"
      using ring_push [of "unat (q_count s)" "queue s" "unat (q_head s)" ?e] inv that
      by (simp add: bus_inv_def length_pending)
    ultimately show ?thesis
      using that by (simp add: eventbus_publish_def topic_bound bus_full_iff length_pending) (simp add: pending_def)
  qed
  show "bus_inv (snd (eventbus_publish t x s))"
  proof (cases "64 \<le> q_count s")
    case False
    then have "unat (q_count s + 1) = Suc (unat (q_count s))" using u32_inc [of "q_count s"] by (simp add: bus_full_iff)
    then show ?thesis using inv False by (auto simp: eventbus_publish_def bus_inv_def bus_full_iff mod_simps)
  qed (use inv in \<open>simp add: eventbus_publish_def\<close>)
qed

lemma eventbus_take_law:
  assumes inv: "bus_inv s" and ne: "pending s = x # xs"
  shows "fst (eventbus_take s) = x \<and> bus_inv (snd (eventbus_take s)) \<and> pending (snd (eventbus_take s)) = xs"
proof -
  have len: "unat (q_count s) = Suc (length xs)" using ne length_pending [of s] by simp
  then have "q_count s \<noteq> 0" by auto
  then have dec: "unat (q_count s - 1) = unat (q_count s) - 1" by (rule unat_minus_one)
  have "x # xs = queue s ! unat (q_head s) # ring_list (queue s) ((unat (q_head s) + 1) mod 64) (unat (q_count s) - 1)"
    using ring_pop [of "unat (q_count s)" "unat (q_head s)" "queue s"] inv ne len by (simp add: pending_def bus_inv_def)
  moreover have "(unat (q_head s) + unat (q_count s)) mod 64 = ((unat (q_head s) + 1) mod 64 + (unat (q_count s) - 1)) mod 64"
    using len by (simp add: mod_simps)
  ultimately show ?thesis using inv dec by (auto simp: eventbus_take_def pending_def bus_inv_def)
qed

text \<open>A publication, as a request to the queue.\<close>

definition publish_req :: "(u8 \<times> u32) \<Rightarrow> ('d, 'z) bus_st_scheme \<Rightarrow> ('d, 'z) bus_st_scheme" where
  "publish_req r s = snd (eventbus_publish (fst r) (snd r) s)"

definition event_of :: "(u8 \<times> u32) \<Rightarrow> ('d, 'z) bus_st_scheme \<Rightarrow> aura_event_t" where
  "event_of r s = \<lparr>e_topic = fst r, e_data = snd r, e_timestamp = g_tick_count s\<rparr>"

interpretation bus_queue: bounded_queue bus_inv pending publish_req eventbus_take "\<lambda>r. unat (fst r) < 32" event_of 64
proof
  fix s :: "('d, 'z) bus_st_scheme" and r r' :: "u8 \<times> u32" and x xs
  show "length (pending s) \<le> 64" if "bus_inv s" using that by (simp add: bus_inv_def length_pending)
  show "bus_inv (publish_req r s)" if "bus_inv s"
    unfolding publish_req_def by (rule eventbus_publish_cases(3) [OF that])
  show "publish_req r s = s" if "\<not> unat (fst r) < 32"
    using that by (simp add: publish_req_def eventbus_publish_def topic_bound)
  show "pending (publish_req r s) = pending s @ [event_of r s]"
    if "bus_inv s" "unat (fst r) < 32" "length (pending s) < 64"
    unfolding publish_req_def event_of_def by (rule eventbus_publish_cases(2) [OF that])
  show "publish_req r s = s" if "bus_inv s" "length (pending s) = 64"
    using that by (simp add: publish_req_def eventbus_publish_def bus_full_iff length_pending)
  show "event_of r' (publish_req r s) = event_of r' s"
    by (simp add: event_of_def publish_req_def eventbus_publish_def)
  show "fst (eventbus_take s) = x \<and> bus_inv (snd (eventbus_take s)) \<and> pending (snd (eventbus_take s)) = xs"
    if "bus_inv s" "pending s = x # xs" using that by (rule eventbus_take_law)
qed

section \<open>Draining the queue\<close>

text \<open>Handlers that return, leave the bus alone and append their call to a log outside the queue.\<close>

definition observer ::
    "(event_handler_t \<Rightarrow> aura_event_t \<Rightarrow> ('d, 'z) bus_st_scheme \<Rightarrow> ('d, 'z) bus_st_scheme option) \<Rightarrow>
     (('d, 'z) bus_st_scheme \<Rightarrow> (event_handler_t \<times> aura_event_t) list) \<Rightarrow> bool" where
  "observer call log \<longleftrightarrow>
     (\<forall>h e s. \<exists>s'. call h e s = Some s' \<and> handlers s' = handlers s \<and> queue s' = queue s \<and> q_head s' = q_head s \<and>
        q_tail s' = q_tail s \<and> q_count s' = q_count s \<and> log s' = log s @ [(h, e)]) \<and>
     (\<forall>s h n. log (s\<lparr>q_head := h, q_count := n\<rparr>) = log s)"

text \<open>The calls an event causes: its topic's handlers in slot order.\<close>

definition calls_for :: "event_handler_t list list \<Rightarrow> aura_event_t \<Rightarrow> (event_handler_t \<times> aura_event_t) list" where
  "calls_for hs e =
     (if unat (e_topic e) < 32 then map (\<lambda>fn. (fn, e)) (filter (\<lambda>fn. fn \<noteq> 0) (hs ! unat (e_topic e))) else [])"

definition same_bus :: "('d, 'z) bus_st_scheme \<Rightarrow> ('d, 'z) bus_st_scheme \<Rightarrow> bool" where
  "same_bus s s' \<longleftrightarrow> handlers s' = handlers s \<and> queue s' = queue s \<and> q_head s' = q_head s \<and> q_tail s' = q_tail s \<and>
     q_count s' = q_count s"

lemma same_bus_inv: "same_bus s s' \<Longrightarrow> bus_inv s' = bus_inv s \<and> pending s' = pending s"
  by (simp add: same_bus_def bus_inv_def pending_def)

lemma deliver_log:
  assumes obs: "observer call log"
  shows "\<exists>s'. eventbus_deliver call e hs s = Some s' \<and> same_bus s s' \<and>
    log s' = log s @ map (\<lambda>h. (handlers s ! unat (e_topic e) ! h, e)) (filter (\<lambda>h. handlers s ! unat (e_topic e) ! h \<noteq> 0) hs)"
proof (induction hs arbitrary: s)
  case Nil
  then show ?case by (simp add: same_bus_def)
next
  case (Cons h hs)
  let ?fn = "handlers s ! unat (e_topic e) ! h"
  obtain u where u: "(if ?fn \<noteq> 0 then call ?fn e s else Some s) = Some u" "same_bus s u"
    "log u = log s @ (if ?fn \<noteq> 0 then [(?fn, e)] else [])"
    using obs unfolding observer_def same_bus_def by (cases "?fn \<noteq> 0") (simp, metis, simp)
  obtain s' where s': "eventbus_deliver call e hs u = Some s'" "same_bus u s'"
    "log s' = log u @ map (\<lambda>h. (handlers u ! unat (e_topic e) ! h, e)) (filter (\<lambda>h. handlers u ! unat (e_topic e) ! h \<noteq> 0) hs)"
    using Cons.IH by blast
  then show ?case using u by (auto simp: same_bus_def Let_def)
qed

lemma row_filter: "length row = 8 \<Longrightarrow> map (\<lambda>h. (row ! h, e)) (filter (\<lambda>h. row ! h \<noteq> 0) [0..<8]) = map (\<lambda>fn. (fn, e)) (filter (\<lambda>fn. fn \<noteq> 0) row)"
proof -
  assume "length row = 8"
  then have "row = map ((!) row) [0..<8]" by (metis map_nth)
  then have "filter (\<lambda>fn. fn \<noteq> 0) row = map ((!) row) (filter (\<lambda>h. row ! h \<noteq> 0) [0..<8])"
    by (metis (no_types, lifting) comp_apply filter_cong filter_map)
  then show ?thesis by simp
qed

lemma process_log:
  assumes obs: "observer call log"
  shows "bus_inv s \<Longrightarrow> pending s = es \<Longrightarrow>
    \<exists>s'. eventbus_process call s = Some s' \<and> bus_inv s' \<and> pending s' = [] \<and> handlers s' = handlers s \<and>
      log s' = log s @ concat (map (calls_for (handlers s)) es)"
proof (induction es arbitrary: s)
  case Nil
  then have "q_count s = 0" using length_pending [of s] by (simp add: word_unat_eq_iff)
  then show ?case using Nil by (intro exI [of _ s]) (simp add: eventbus_process.simps)
next
  case (Cons e es)
  then have nz: "q_count s \<noteq> 0" using length_pending [of s] by auto
  let ?u = "snd (eventbus_take s)"
  have tk: "fst (eventbus_take s) = e" "bus_inv ?u" "pending ?u = es"
    using eventbus_take_law [OF Cons.prems] by auto
  have u: "handlers ?u = handlers s" "log ?u = log s" using obs by (auto simp: eventbus_take_def observer_def)
  obtain v where v: "(if e_topic e < of_nat EVENTBUS_MAX_TOPICS
      then eventbus_deliver call e [0..<EVENTBUS_MAX_HANDLERS] ?u else Some ?u) = Some v"
    "same_bus ?u v" "log v = log s @ calls_for (handlers s) e"
  proof (cases "unat (e_topic e) < 32")
    case True
    then have "length (handlers s ! unat (e_topic e)) = 8" using Cons.prems(1) by (simp add: bus_inv_def)
    then show ?thesis
      using that deliver_log [OF obs, of e "[0..<8]" ?u] True row_filter [of "handlers s ! unat (e_topic e)" e]
      by (auto simp: u calls_for_def word_less_nat_alt)
  next
    case False
    then show ?thesis using that u by (auto simp: calls_for_def word_less_nat_alt same_bus_def)
  qed
  have "eventbus_process call s = eventbus_process call v"
    using nz by (subst eventbus_process.simps) (simp only: tk(1) v(1) if_False Option.bind_lunit)
  moreover have "handlers v = handlers s" using v(2) u(1) by (simp add: same_bus_def)
  moreover have "bus_inv v" "pending v = es" using same_bus_inv [OF v(2)] tk by auto
  ultimately show ?case using Cons.IH [of v] v(3) by auto
qed

section \<open>Subscription\<close>

lemma find_slot_Some: "find_slot fn row hs = Some h \<Longrightarrow> h \<in> set hs \<and> row ! h = fn"
  by (induction fn row hs rule: find_slot.induct) (auto split: if_splits)

lemma find_slot_None: "find_slot fn row hs = None \<longleftrightarrow> (\<forall>h \<in> set hs. row ! h \<noteq> fn)"
  by (induction fn row hs rule: find_slot.induct) auto

lemma find_slot_unique: "h \<in> set hs \<Longrightarrow> (\<And>j. j \<in> set hs \<Longrightarrow> row ! j = fn \<longleftrightarrow> j = h) \<Longrightarrow> find_slot fn row hs = Some h"
  by (induction fn row hs rule: find_slot.induct) auto

lemma row_mem: "length row = 8 \<Longrightarrow> fn \<in> set row \<longleftrightarrow> (\<exists>h < 8. row ! h = fn)"
  by (auto simp: in_set_conv_nth)

section \<open>Properties\<close>

type_synonym call_log = "(event_handler_t \<times> aura_event_t) list"

text \<open>A bus whose device state is the log of the calls made, for the concrete instances.\<close>

definition demo_bus :: "call_log bus_st" where
  "demo_bus = \<lparr>dev = [], mem = (\<lambda>_. 0), cr0 = 0, cr2 = 0,
     cr3 = 0, cr4 = 0, idtr = (0, 0), int_flag = False, g_kernel_state = KERNEL_STATE_INIT, g_tick_count = 7,
     heap_head = 0, vga_row = 0, vga_col = 0, vga_color = 0, g_serial_hook = None,
     idt_table = [], irq_handlers = [], shift_held = False, caps_active = False,
     kb_buf = [], kb_head = 0, kb_tail = 0, kb_count = 0,
     handlers = (replicate 32 (replicate 8 0))[1 := [0, 0x11000, 0, 0x12000, 0, 0, 0, 0]],
     queue = replicate 64 \<lparr>e_topic = 0, e_data = 0, e_timestamp = 0\<rparr>, q_head = 63, q_tail = 63, q_count = 0\<rparr>"

definition log_call :: "event_handler_t \<Rightarrow> aura_event_t \<Rightarrow> (call_log, 'z) bus_st_scheme \<Rightarrow> (call_log, 'z) bus_st_scheme option" where
  "log_call h e s = Some (s\<lparr>dev := dev s @ [(h, e)]\<rparr>)"

lemma log_call_observer: "observer log_call dev"
  by (simp add: observer_def log_call_def)

lemma demo_bus_inv: "bus_inv demo_bus" "pending demo_bus = []"
proof -
  have "length row = 8" if "row \<in> set (handlers demo_bus)" for row
    using that set_update_subset_insert [of "replicate 32 (replicate 8 0)" 1 "[0, 0x11000, 0, 0x12000, 0, 0, 0, 0]"]
    by (auto simp: demo_bus_def)
  then show "bus_inv demo_bus" by (simp add: bus_inv_def) (simp add: demo_bus_def)
  show "pending demo_bus = []" by (simp add: demo_bus_def pending_def)
qed

text \<open>C17: publishing on a bus in good order reports an error for a topic outside the table and BUSY on a full
  queue, without any effect; otherwise it appends the event, stamped with the tick counter, at the end
  of the queue. The bus stays in good order.\<close>

theorem eventbus_publish_correct:
  assumes "bus_inv s"
  shows "\<exists>r s'. eventbus_publish t x s = (r, s') \<and> bus_inv s' \<and>
    r = (if 32 \<le> unat t then AURA_ERR else if length (pending s) = 64 then AURA_BUSY else AURA_OK) \<and>
    (if r = AURA_OK then pending s' = pending s @ [\<lparr>e_topic = t, e_data = x, e_timestamp = g_tick_count s\<rparr>] else s' = s) \<and>
    eventbus_pending s' = of_nat (length (pending s'))"
proof -
  have le: "length (pending s) \<le> 64" by (rule bus_queue.inv_cap [OF assms])
  obtain r s' where e: "eventbus_publish t x s = (r, s')" by fastforce
  note c = eventbus_publish_cases [OF assms, of t x, unfolded e snd_conv]
  have n: "eventbus_pending s' = of_nat (length (pending s'))" by (simp add: eventbus_pending_def length_pending)
  consider "32 \<le> unat t" | "unat t < 32" "length (pending s) = 64" | "unat t < 32" "length (pending s) < 64"
    using le by linarith
  then show ?thesis using c n e by cases auto
qed

theorem eventbus_publish_correct_witness:
  "\<exists>s'. eventbus_publish 1 42 demo_bus = (AURA_OK, s') \<and> pending s' = [\<lparr>e_topic = 1, e_data = 42, e_timestamp = 7\<rparr>]"
proof -
  have "g_tick_count demo_bus = 7" by (simp add: demo_bus_def)
  then show ?thesis
    using eventbus_publish_correct [OF demo_bus_inv(1), of 1 42] by (auto simp: demo_bus_inv(2))
qed

text \<open>A burst of publications keeps, behind what was pending, the first of the valid ones that fit into
  the 64 places, in order.\<close>

theorem eventbus_burst:
  assumes "bus_inv s"
  shows "pending (fold (\<lambda>(t, x) s. snd (eventbus_publish t x s)) rs s) =
    pending s @ map (\<lambda>(t, x). \<lparr>e_topic = t, e_data = x, e_timestamp = g_tick_count s\<rparr>)
      (take (64 - length (pending s)) (filter (\<lambda>(t, x). unat t < 32) rs))"
proof -
  have "(\<lambda>(t, x) s. snd (eventbus_publish t x s)) = (publish_req :: _ \<Rightarrow> ('a, 'b) bus_st_scheme \<Rightarrow> _)"
    by (auto simp: fun_eq_iff publish_req_def)
  moreover have "(\<lambda>r. event_of r s) = (\<lambda>(t, x). \<lparr>e_topic = t, e_data = x, e_timestamp = g_tick_count s\<rparr>)"
    by (auto simp: fun_eq_iff event_of_def)
  moreover have "(\<lambda>r. unat (fst r) < 32) = (\<lambda>(t :: u8, x :: u32). unat t < 32)" by auto
  ultimately show ?thesis using bus_queue.enq_all [OF assms, of rs] by simp
qed

theorem eventbus_burst_witness:
  "pending (fold (\<lambda>(t, x) s. snd (eventbus_publish t x s)) [(1, 10), (40, 11), (2, 12)] demo_bus) =
     [\<lparr>e_topic = 1, e_data = 10, e_timestamp = 7\<rparr>, \<lparr>e_topic = 2, e_data = 12, e_timestamp = 7\<rparr>]"
proof -
  have "g_tick_count demo_bus = 7" by (simp add: demo_bus_def)
  then show ?thesis using eventbus_burst [OF demo_bus_inv(1), of "[(1, 10), (40, 11), (2, 12)]"] by (simp add: demo_bus_inv(2))
qed

text \<open>C16: with handlers that return and leave the bus alone, draining the queue returns with the queue empty,
  and the calls made are exactly: for every pending event, oldest first, every handler subscribed to its
  topic, in slot order.\<close>

theorem eventbus_process_correct:
  assumes "observer call log" "bus_inv s"
  shows "\<exists>s'. eventbus_process call s = Some s' \<and> bus_inv s' \<and> pending s' = [] \<and> handlers s' = handlers s \<and>
    log s' = log s @ concat (map (calls_for (handlers s)) (pending s))"
  by (rule process_log [OF assms refl])

theorem eventbus_process_correct_witness:
  "\<exists>s'. eventbus_process log_call (snd (eventbus_publish 1 42 demo_bus)) = Some s' \<and>
    dev s' = [(0x11000, \<lparr>e_topic = 1, e_data = 42, e_timestamp = 7\<rparr>), (0x12000, \<lparr>e_topic = 1, e_data = 42, e_timestamp = 7\<rparr>)]"
proof -
  let ?s = "snd (eventbus_publish 1 42 demo_bus)"
  have tick: "g_tick_count demo_bus = 7" by (simp add: demo_bus_def)
  have p: "bus_inv ?s" "pending ?s = [\<lparr>e_topic = 1, e_data = 42, e_timestamp = 7\<rparr>]"
    using eventbus_publish_cases(2,3) [OF demo_bus_inv(1), of 1 42] by (simp_all add: demo_bus_inv(2) tick)
  have f: "handlers ?s ! 1 = [0, 0x11000, 0, 0x12000, 0, 0, 0, 0]" "dev ?s = []"
    by (simp_all add: eventbus_publish_def) (simp_all add: demo_bus_def)
  show ?thesis using eventbus_process_correct [OF log_call_observer p(1)] f by (auto simp: p(2) calls_for_def)
qed

text \<open>Subscribing a handler that is not yet on the topic either succeeds, and unsubscribing it then
  succeeds and restores the whole state, or reports that the topic has no free slot and changes
  nothing.\<close>

theorem subscribe_unsubscribe:
  assumes "bus_inv s" "unat t < 32" "fn \<noteq> 0" "fn \<notin> set (handlers s ! unat t)"
  shows "\<exists>r s'. eventbus_subscribe t fn s = (r, s') \<and>
    (if 0 \<in> set (handlers s ! unat t) then r = AURA_OK \<and> fn \<in> set (handlers s' ! unat t) \<and> eventbus_unsubscribe t fn s' = (AURA_OK, s)
     else r = AURA_NOSLOT \<and> s' = s)"
proof -
  let ?row = "handlers s ! unat t"
  have len: "length ?row = 8" "unat t < length (handlers s)" using assms(1,2) by (auto simp: bus_inv_def)
  have t: "\<not> 32 \<le> t" using assms(2) by (simp add: topic_bound)
  show ?thesis
  proof (cases "find_slot 0 ?row [0..<8]")
    case None
    then have "0 \<notin> set ?row" using row_mem [OF len(1)] by (auto simp: find_slot_None)
    then show ?thesis using None assms(3) t by (simp add: eventbus_subscribe_def)
  next
    case (Some h)
    then have h: "h < 8" "?row ! h = 0" using find_slot_Some by force+
    let ?s = "s\<lparr>handlers := set_handler (unat t) h fn (handlers s)\<rparr>"
    have row: "handlers ?s ! unat t = ?row[h := fn]" using len(2) by (simp add: set_handler_def)
    have "find_slot fn (?row[h := fn]) [0..<8] = Some h"
      using h len(1) assms(4) row_mem [OF len(1), of fn] by (intro find_slot_unique) (auto simp: nth_list_update)
    then have "eventbus_unsubscribe t fn ?s = (AURA_OK, ?s\<lparr>handlers := set_handler (unat t) h 0 (handlers ?s)\<rparr>)"
      using assms(3) t unfolding eventbus_unsubscribe_def row by simp
    moreover have "set_handler (unat t) h 0 (handlers ?s) = handlers s"
      using h len list_update_id [of ?row h] by (simp add: set_handler_def)
    moreover have "fn \<in> set (handlers ?s ! unat t)" unfolding row using h len(1) by (simp add: set_update_memI)
    moreover have "0 \<in> set ?row" using h row_mem [OF len(1)] by blast
    ultimately show ?thesis using Some assms(3) t by (simp add: eventbus_subscribe_def)
  qed
qed

theorem subscribe_unsubscribe_witness:
  "\<exists>s'. eventbus_subscribe 1 0x13000 demo_bus = (AURA_OK, s') \<and> eventbus_unsubscribe 1 0x13000 s' = (AURA_OK, demo_bus)"
proof -
  have "handlers demo_bus ! 1 = [0, 0x11000, 0, 0x12000, 0, 0, 0, 0]" by (simp add: demo_bus_def)
  then show ?thesis using subscribe_unsubscribe [OF demo_bus_inv(1), of 1 "0x13000"] by auto
qed

end
