(* ===== verification/Name_Table.thy ===== *)
theory Name_Table
  imports Kstring
begin

text \<open>
  The environment registry, the virtual file table, the plugin table and the task table are arrays
  of slots that are searched by name with \<^const>\<open>strncmp_k\<close>. \<open>find_index\<close> is their search loop. The
  locale \<open>name_table\<close> is what such an array promises when the stored names are terminated and
  different: a lookup finds the one slot with that name, and storing, replacing and clearing a slot
  act on lookups as on a finite map.
\<close>

section \<open>The search loop\<close>

primrec find_index :: "('e \<Rightarrow> bool) \<Rightarrow> 'e list \<Rightarrow> nat option" where
  "find_index P [] = None"
| "find_index P (x # xs) = (if P x then Some 0 else map_option Suc (find_index P xs))"

lemma find_index_Some: "find_index P xs = Some i \<Longrightarrow> i < length xs \<and> P (xs ! i) \<and> (\<forall>j < i. \<not> P (xs ! j))"
proof (induction xs arbitrary: i)
  case Nil
  then show ?case by simp
next
  case (Cons x xs)
  show ?case
  proof (cases "P x")
    case True
    then show ?thesis using Cons.prems by simp
  next
    case False
    then obtain k where k: "find_index P xs = Some k" "i = Suc k" using Cons.prems by auto
    then show ?thesis using Cons.IH [OF k(1)] False by (auto simp: nth_Cons split: nat.splits)
  qed
qed

lemma find_index_None: "find_index P xs = None \<longleftrightarrow> (\<forall>x \<in> set xs. \<not> P x)"
  by (induction xs) auto

lemma find_index_unique:
  "i < length xs \<Longrightarrow> P (xs ! i) \<Longrightarrow> (\<And>j. j < length xs \<Longrightarrow> P (xs ! j) \<Longrightarrow> j = i) \<Longrightarrow> find_index P xs = Some i"
proof -
  assume i: "i < length xs" "P (xs ! i)" and u: "\<And>j. j < length xs \<Longrightarrow> P (xs ! j) \<Longrightarrow> j = i"
  then obtain j where "find_index P xs = Some j" by (metis find_index_None not_Some_eq nth_mem)
  then show ?thesis using find_index_Some u by blast
qed

text \<open>The search of a table by name; a null name matches nothing.\<close>

definition table_find :: "('e \<Rightarrow> bool) \<Rightarrow> ('e \<Rightarrow> string) \<Rightarrow> nat \<Rightarrow> 'e list \<Rightarrow> string option \<Rightarrow> nat option" where
  "table_find used nm N t key = find_index (\<lambda>e. used e \<and> strncmp_k (Some (nm e)) key (int N) = 0) t"

lemma table_find_null [simp]: "table_find used nm N t None = None"
  by (simp add: table_find_def find_index_None strncmp_k_def)

lemma stored_name_match:
  "length (cstr a) < N \<Longrightarrow> strncmp_k (Some a) (Some k) (int N) = 0 \<longleftrightarrow> cstr a = cstr k"
proof -
  assume a: "length (cstr a) < N"
  show ?thesis
  proof (cases "length (cstr k) \<le> N")
    case True
    then show ?thesis using a by (simp add: strncmp_k_zero)
  next
    case False
    then have "length (take N (cstr k)) = N" by simp
    then have "cstr a \<noteq> take N (cstr k)" using a by auto
    then show ?thesis using a False by (auto simp: strncmp_k_zero)
  qed
qed

section \<open>Tables with terminated, distinct names\<close>

locale name_table =
  fixes used :: "'e \<Rightarrow> bool"
    and nm :: "'e \<Rightarrow> string"
    and N :: nat
  assumes N_pos: "0 < N"
begin

definition names_ok :: "'e list \<Rightarrow> bool" where
  "names_ok t \<longleftrightarrow>
     (\<forall>i < length t. used (t ! i) \<longrightarrow> length (cstr (nm (t ! i))) < N) \<and>
     (\<forall>i < length t. \<forall>j < length t. used (t ! i) \<and> used (t ! j) \<and> cstr (nm (t ! i)) = cstr (nm (t ! j)) \<longrightarrow> i = j)"

definition entry :: "'e list \<Rightarrow> string \<Rightarrow> 'e option" where
  "entry t k = map_option ((!) t) (table_find used nm N t (Some k))"

lemma names_okD1: "names_ok t \<Longrightarrow> i < length t \<Longrightarrow> used (t ! i) \<Longrightarrow> length (cstr (nm (t ! i))) < N"
  by (simp add: names_ok_def)

lemma names_okD2:
  "names_ok t \<Longrightarrow> i < length t \<Longrightarrow> j < length t \<Longrightarrow> used (t ! i) \<Longrightarrow> used (t ! j) \<Longrightarrow>
   cstr (nm (t ! i)) = cstr (nm (t ! j)) \<Longrightarrow> i = j"
  unfolding names_ok_def by blast

lemma match_iff:
  "names_ok t \<Longrightarrow> i < length t \<Longrightarrow>
   used (t ! i) \<and> strncmp_k (Some (nm (t ! i))) (Some k) (int N) = 0 \<longleftrightarrow> used (t ! i) \<and> cstr (nm (t ! i)) = cstr k"
  using names_okD1 [of t i] stored_name_match [of "nm (t ! i)" N k] by blast

lemma find_iff:
  assumes "names_ok t"
  shows "table_find used nm N t (Some k) = Some i \<longleftrightarrow> i < length t \<and> used (t ! i) \<and> cstr (nm (t ! i)) = cstr k"
proof
  assume "table_find used nm N t (Some k) = Some i"
  then have i: "i < length t" "used (t ! i) \<and> strncmp_k (Some (nm (t ! i))) (Some k) (int N) = 0"
    using find_index_Some [of _ t i] unfolding table_find_def by blast+
  then show "i < length t \<and> used (t ! i) \<and> cstr (nm (t ! i)) = cstr k"
    using match_iff [OF assms i(1)] by blast
next
  assume i: "i < length t \<and> used (t ! i) \<and> cstr (nm (t ! i)) = cstr k"
  show "table_find used nm N t (Some k) = Some i"
    unfolding table_find_def
  proof (rule find_index_unique)
    show "i < length t" using i by simp
    then show "used (t ! i) \<and> strncmp_k (Some (nm (t ! i))) (Some k) (int N) = 0"
      using match_iff [OF assms, of i k] i by blast
    show "j = i" if "j < length t" "used (t ! j) \<and> strncmp_k (Some (nm (t ! j))) (Some k) (int N) = 0" for j
      using names_okD2 [OF assms that(1), of i] match_iff [OF assms that(1)] that(2) i by auto
  qed
qed

lemma find_None_iff:
  assumes "names_ok t"
  shows "table_find used nm N t (Some k) = None \<longleftrightarrow> (\<forall>i < length t. used (t ! i) \<longrightarrow> cstr (nm (t ! i)) \<noteq> cstr k)"
  using find_iff [OF assms, of k] by (metis not_None_eq)

lemma entry_Some: "names_ok t \<Longrightarrow> entry t k = Some e \<longleftrightarrow> (\<exists>i < length t. t ! i = e \<and> used e \<and> cstr (nm e) = cstr k)"
  using find_iff [of t k] by (auto simp: entry_def)

text \<open>A lookup depends on the string its key stands for.\<close>

lemma entry_cstr:
  assumes "names_ok t" "cstr k = cstr k'"
  shows "entry t k = entry t k'"
proof -
  have "table_find used nm N t (Some k) = Some j \<longleftrightarrow> table_find used nm N t (Some k') = Some j" for j
    unfolding find_iff [OF assms(1)] assms(2) ..
  then have "table_find used nm N t (Some k) = table_find used nm N t (Some k')" by (metis not_None_eq)
  then show ?thesis by (simp add: entry_def)
qed

text \<open>A lookup in a table that differs at slot \<open>i\<close> only.\<close>

lemma entry_cong:
  assumes "names_ok t" "names_ok (t[i := e])" "table_find used nm N t (Some k) \<noteq> Some i" "\<not> (used e \<and> cstr (nm e) = cstr k)"
  shows "entry (t[i := e]) k = entry t k"
proof -
  have "table_find used nm N (t[i := e]) (Some k) = Some j \<longleftrightarrow> table_find used nm N t (Some k) = Some j" for j
    using assms(3,4) unfolding find_iff [OF assms(1)] find_iff [OF assms(2)] by (cases "j = i") auto
  then have "table_find used nm N (t[i := e]) (Some k) = table_find used nm N t (Some k)"
    by (metis not_None_eq)
  then show ?thesis using assms(3) by (cases "table_find used nm N t (Some k)") (auto simp: entry_def)
qed

text \<open>Writing a used slot, over one with the same name or over a free one.\<close>

lemma entry_store:
  assumes ok: "names_ok t" and i: "i < length t" and e: "used e" "length (cstr (nm e)) < N"
    and fits: "\<And>j. j < length t \<Longrightarrow> used (t ! j) \<Longrightarrow> cstr (nm (t ! j)) = cstr (nm e) \<Longrightarrow> j = i"
    and old: "used (t ! i) \<Longrightarrow> cstr (nm (t ! i)) = cstr (nm e)"
  shows "names_ok (t[i := e]) \<and> entry (t[i := e]) k = (if cstr k = cstr (nm e) then Some e else entry t k)"
proof -
  have ok': "names_ok (t[i := e])"
    unfolding names_ok_def
  proof (intro conjI allI impI)
    show "length (cstr (nm (t[i := e] ! j))) < N" if "j < length (t[i := e])" "used (t[i := e] ! j)" for j
      using that names_okD1 [OF ok, of j] e i by (cases "j = i") auto
    show "j = l" if "j < length (t[i := e])" "l < length (t[i := e])"
      "used (t[i := e] ! j) \<and> used (t[i := e] ! l) \<and> cstr (nm (t[i := e] ! j)) = cstr (nm (t[i := e] ! l))" for j l
    proof (cases "j = i \<or> l = i")
      case True
      have "x = i" if "x < length t" "x \<noteq> i \<Longrightarrow> used (t ! x)" "x \<noteq> i \<Longrightarrow> cstr (nm (t ! x)) = cstr (nm e)" for x
        using that by (cases "x = i") (blast, intro fits)
      from this [of j] this [of l] show ?thesis
        using True that i by (elim disjE) (metis length_list_update nth_list_update nth_list_update_neq)+
    next
      case False
      then show ?thesis using that by (intro names_okD2 [OF ok]) simp_all
    qed
  qed
  show ?thesis
  proof (cases "cstr k = cstr (nm e)")
    case True
    then have "table_find used nm N (t[i := e]) (Some k) = Some i" using find_iff [OF ok'] i e by simp
    then show ?thesis using True i ok' by (simp add: entry_def)
  next
    case False
    moreover have "table_find used nm N t (Some k) \<noteq> Some i"
      unfolding find_iff [OF ok] using False old by auto
    ultimately show ?thesis using entry_cong [OF ok ok', of k] ok' by auto
  qed
qed

lemma entry_insert:
  assumes "names_ok t" "i < length t" "\<not> used (t ! i)" "used e" "length (cstr (nm e)) < N"
    "table_find used nm N t (Some k0) = None" "cstr (nm e) = cstr k0"
  shows "names_ok (t[i := e]) \<and> entry (t[i := e]) k = (if cstr k = cstr k0 then Some e else entry t k)"
proof -
  have "cstr (nm (t ! j)) \<noteq> cstr (nm e)" if "j < length t" "used (t ! j)" for j
    using assms(6,7) that unfolding find_None_iff [OF assms(1)] by simp
  then show ?thesis using entry_store [OF assms(1,2,4,5), of k] assms(3,7) by simp
qed

lemma entry_replace:
  assumes "names_ok t" "table_find used nm N t (Some k0) = Some i" "used e" "cstr (nm e) = cstr k0"
  shows "names_ok (t[i := e]) \<and> entry (t[i := e]) k = (if cstr k = cstr k0 then Some e else entry t k)"
proof -
  have i: "i < length t" "used (t ! i)" "cstr (nm (t ! i)) = cstr k0" using find_iff [OF assms(1)] assms(2) by auto
  have "length (cstr (nm e)) < N" using names_okD1 [OF assms(1) i(1,2)] i(3) assms(4) by simp
  moreover have "j = i" if "j < length t" "used (t ! j)" "cstr (nm (t ! j)) = cstr (nm e)" for j
    by (rule names_okD2 [OF assms(1) that(1) i(1) that(2) i(2)]) (simp only: that(3) i(3) assms(4))
  moreover have "cstr (nm (t ! i)) = cstr (nm e)" by (simp only: i(3) assms(4))
  ultimately show ?thesis unfolding assms(4) [symmetric] by (intro entry_store [OF assms(1) i(1) assms(3)])
qed

lemma entry_clear:
  assumes "names_ok t" "table_find used nm N t (Some k0) = Some i" "\<not> used e"
  shows "names_ok (t[i := e]) \<and> entry (t[i := e]) k = (if cstr k = cstr k0 then None else entry t k)"
proof -
  have i: "i < length t" "used (t ! i)" "cstr (nm (t ! i)) = cstr k0" using find_iff [OF assms(1)] assms(2) by auto
  have ok': "names_ok (t[i := e])"
    unfolding names_ok_def
  proof (intro conjI allI impI)
    show "length (cstr (nm (t[i := e] ! j))) < N" if "j < length (t[i := e])" "used (t[i := e] ! j)" for j
      using that names_okD1 [OF assms(1), of j] assms(3) i(1) by (cases "j = i") auto
    show "j = l" if "j < length (t[i := e])" "l < length (t[i := e])"
      "used (t[i := e] ! j) \<and> used (t[i := e] ! l) \<and> cstr (nm (t[i := e] ! j)) = cstr (nm (t[i := e] ! l))" for j l
      using that names_okD2 [OF assms(1), of j l] assms(3) i(1) by (cases "j = i"; cases "l = i") auto
  qed
  show ?thesis
  proof (cases "cstr k = cstr k0")
    case True
    have "cstr (nm (t[i := e] ! j)) \<noteq> cstr k" if "j < length (t[i := e])" "used (t[i := e] ! j)" for j
    proof
      assume eq: "cstr (nm (t[i := e] ! j)) = cstr k"
      have "j \<noteq> i" using that assms(3) i(1) by auto
      then show False using names_okD2 [OF assms(1), of j i] that eq i True by auto
    qed
    then have "table_find used nm N (t[i := e]) (Some k) = None" unfolding find_None_iff [OF ok'] by blast
    then show ?thesis using True ok' by (simp add: entry_def)
  next
    case False
    then have "table_find used nm N t (Some k) \<noteq> Some i" unfolding find_iff [OF assms(1)] using i by auto
    then show ?thesis using entry_cong [OF assms(1) ok', of k] ok' False assms(3) by auto
  qed
qed

end

end
