(* ===== verification/Plugin.thy ===== *)
theory Plugin
  imports Eventbus Name_Table
begin

text \<open>
  \<^verbatim>\<open>kernel/plugin.c\<close>: the plugin table and the life cycle of a plugin. The callbacks of a descriptor
  are function pointers; the modules and adapters of the repository install the functions named by
  \<open>plugin_fn\<close>, and what a callback does is the parameter \<open>call\<close>, a status with the new state (or nothing,
  when it does not return). The theorems on operations that run a callback are stated for callbacks
  that return and leave the plugin table alone (\<open>plugin_quiet\<close>); they say which callback ran, on which
  state, and what its status decides. For the tick, which runs many, an observer of the calls
  (\<open>plugin_logged\<close>) records them with their statuses.
\<close>

section \<open>State\<close>

abbreviation PLUGIN_MAX :: nat where "PLUGIN_MAX \<equiv> 16"
abbreviation PLUGIN_NAME_LEN :: nat where "PLUGIN_NAME_LEN \<equiv> 24"
abbreviation PLUGIN_VERSION_LEN :: nat where "PLUGIN_VERSION_LEN \<equiv> 8"

datatype plugin_state_t =
    PLUGIN_STATE_UNLOADED | PLUGIN_STATE_LOADED | PLUGIN_STATE_ACTIVE | PLUGIN_STATE_ERROR

datatype plugin_type_t =
    PLUGIN_TYPE_CORE | PLUGIN_TYPE_DRIVER | PLUGIN_TYPE_SERVICE | PLUGIN_TYPE_ADAPTER

datatype plugin_fn =
    Core_init | Core_tick | Core_shutdown | Hello_init | Hello_tick | Hello_shutdown
  | Net_init | Net_tick | Net_shutdown | Serial_plugin_init | Serial_plugin_shutdown

record plugin_desc_t =
  d_name :: string
  d_version :: string
  d_type :: plugin_type_t
  d_init :: "plugin_fn option"
  d_tick :: "plugin_fn option"
  d_shutdown :: "plugin_fn option"
  d_priv :: u32

record plugin_slot_t =
  p_desc :: plugin_desc_t
  p_state :: plugin_state_t
  p_load_tick :: u32
  p_tick_count :: u32
  p_error_count :: u32

record 'd plugin_st = "'d bus_st" +
  plugin_table :: "plugin_slot_t list"
  plugin_count_val :: int

type_synonym ('d, 'z) plugin_call =
  "plugin_fn \<Rightarrow> ('d, 'z) plugin_st_scheme \<Rightarrow> (aura_status_t \<times> ('d, 'z) plugin_st_scheme) option"

section \<open>Operations\<close>

text \<open>Updating slot \<open>i\<close> of the table.\<close>

definition set_slot :: "nat \<Rightarrow> (plugin_slot_t \<Rightarrow> plugin_slot_t) \<Rightarrow> ('d, 'z) plugin_st_scheme \<Rightarrow> ('d, 'z) plugin_st_scheme" where
  "set_slot i f s = s\<lparr>plugin_table := (plugin_table s)[i := f (plugin_table s ! i)]\<rparr>"

definition plugin_manager_init :: "('d, 'z) plugin_st_scheme \<Rightarrow> ('d, 'z) plugin_st_scheme" where
  "plugin_manager_init s =
     (fold (\<lambda>i. set_slot i (\<lambda>p. p\<lparr>p_state := PLUGIN_STATE_UNLOADED, p_tick_count := 0, p_error_count := 0\<rparr>))
        [0..<PLUGIN_MAX] s)\<lparr>plugin_count_val := 0\<rparr>"

definition slot_loaded :: "plugin_slot_t \<Rightarrow> bool" where
  "slot_loaded p \<longleftrightarrow> p_state p \<noteq> PLUGIN_STATE_UNLOADED"

text \<open>\<^verbatim>\<open>plugin_find\<close> returns a pointer into the table; the model returns the index.\<close>

definition plugin_find :: "string option \<Rightarrow> ('d, 'z) plugin_st_scheme \<Rightarrow> nat option" where
  "plugin_find name s = table_find slot_loaded (\<lambda>p. d_name (p_desc p)) PLUGIN_NAME_LEN (plugin_table s) name"

definition plugin_register :: "plugin_desc_t option \<Rightarrow> ('d, 'z) plugin_st_scheme \<Rightarrow> aura_status_t \<times> ('d, 'z) plugin_st_scheme" where
  "plugin_register desc s =
     (case desc of
        None \<Rightarrow> (AURA_ERR, s)
      | Some desc \<Rightarrow>
         (if int PLUGIN_MAX \<le> plugin_count_val s then (AURA_NOSLOT, s)
          else if plugin_find (Some (d_name desc)) s \<noteq> None then (AURA_ERR, s)
          else case find_index (\<lambda>p. p_state p = PLUGIN_STATE_UNLOADED) (plugin_table s) of
                 None \<Rightarrow> (AURA_NOSLOT, s)
               | Some slot \<Rightarrow>
                  (let s = set_slot slot (\<lambda>p. p\<lparr>p_desc := desc, p_state := PLUGIN_STATE_LOADED, p_tick_count := 0,
                                                 p_error_count := 0, p_load_tick := g_tick_count s\<rparr>) s;
                       s = s\<lparr>plugin_count_val := plugin_count_val s + 1\<rparr>;
                       s = snd (eventbus_publish TOPIC_PLUGIN_LOADED (of_nat slot) s)
                   in (AURA_OK, s))))"

definition plugin_unregister ::
    "('d, 'z) plugin_call \<Rightarrow> string option \<Rightarrow> ('d, 'z) plugin_st_scheme \<Rightarrow> (aura_status_t \<times> ('d, 'z) plugin_st_scheme) option" where
  "plugin_unregister call name s =
     (case plugin_find name s of
        None \<Rightarrow> Some (AURA_NOTFOUND, s)
      | Some i \<Rightarrow>
          do { s \<leftarrow> (if p_state (plugin_table s ! i) = PLUGIN_STATE_ACTIVE
                    then (case d_shutdown (p_desc (plugin_table s ! i)) of
                            None \<Rightarrow> Some s
                          | Some fn \<Rightarrow> map_option snd (call fn s))
                    else Some s);
               let s = snd (eventbus_publish TOPIC_PLUGIN_UNLOADED 0 s);
               let s = set_slot i (\<lambda>p. p\<lparr>p_state := PLUGIN_STATE_UNLOADED\<rparr>) s;
               Some (AURA_OK, s\<lparr>plugin_count_val := plugin_count_val s - 1\<rparr>) })"

definition plugin_activate ::
    "('d, 'z) plugin_call \<Rightarrow> string option \<Rightarrow> ('d, 'z) plugin_st_scheme \<Rightarrow> (aura_status_t \<times> ('d, 'z) plugin_st_scheme) option" where
  "plugin_activate call name s =
     (case plugin_find name s of
        None \<Rightarrow> Some (AURA_NOTFOUND, s)
      | Some i \<Rightarrow>
         (if p_state (plugin_table s ! i) \<noteq> PLUGIN_STATE_LOADED then Some (AURA_ERR, s)
          else do { (r, s) \<leftarrow> (case d_init (p_desc (plugin_table s ! i)) of
                               None \<Rightarrow> Some (AURA_OK, s)
                             | Some fn \<Rightarrow> call fn s);
                    if r \<noteq> AURA_OK
                    then Some (r, set_slot i (\<lambda>p. p\<lparr>p_state := PLUGIN_STATE_ERROR, p_error_count := p_error_count p + 1\<rparr>) s)
                    else Some (AURA_OK, set_slot i (\<lambda>p. p\<lparr>p_state := PLUGIN_STATE_ACTIVE\<rparr>) s) }))"

definition plugin_deactivate ::
    "('d, 'z) plugin_call \<Rightarrow> string option \<Rightarrow> ('d, 'z) plugin_st_scheme \<Rightarrow> (aura_status_t \<times> ('d, 'z) plugin_st_scheme) option" where
  "plugin_deactivate call name s =
     (case plugin_find name s of
        None \<Rightarrow> Some (AURA_NOTFOUND, s)
      | Some i \<Rightarrow>
         (if p_state (plugin_table s ! i) \<noteq> PLUGIN_STATE_ACTIVE then Some (AURA_ERR, s)
          else do { s \<leftarrow> (case d_shutdown (p_desc (plugin_table s ! i)) of
                          None \<Rightarrow> Some s
                        | Some fn \<Rightarrow> map_option snd (call fn s));
                    Some (AURA_OK, set_slot i (\<lambda>p. p\<lparr>p_state := PLUGIN_STATE_LOADED\<rparr>) s) }))"

text \<open>The body of the tick loop for slot \<open>i\<close>, and the loop.\<close>

definition plugin_tick_slot :: "('d, 'z) plugin_call \<Rightarrow> nat \<Rightarrow> ('d, 'z) plugin_st_scheme \<Rightarrow> ('d, 'z) plugin_st_scheme option" where
  "plugin_tick_slot call i s =
     (if p_state (plugin_table s ! i) = PLUGIN_STATE_ACTIVE then
        (case d_tick (p_desc (plugin_table s ! i)) of
           None \<Rightarrow> Some s
         | Some fn \<Rightarrow>
             do { (r, s) \<leftarrow> call fn s;
                  let s = set_slot i (\<lambda>p. p\<lparr>p_tick_count := p_tick_count p + 1\<rparr>) s;
                  Some (if r \<noteq> AURA_OK then set_slot i (\<lambda>p. p\<lparr>p_error_count := p_error_count p + 1\<rparr>) s else s) })
      else Some s)"

primrec plugin_tick_loop :: "('d, 'z) plugin_call \<Rightarrow> nat list \<Rightarrow> ('d, 'z) plugin_st_scheme \<Rightarrow> ('d, 'z) plugin_st_scheme option" where
  "plugin_tick_loop call [] s = Some s"
| "plugin_tick_loop call (i # is) s = do { s \<leftarrow> plugin_tick_slot call i s; plugin_tick_loop call is s }"

definition plugin_tick_all :: "('d, 'z) plugin_call \<Rightarrow> ('d, 'z) plugin_st_scheme \<Rightarrow> ('d, 'z) plugin_st_scheme option" where
  "plugin_tick_all call s = plugin_tick_loop call [0..<PLUGIN_MAX] s"

definition plugin_list_slot :: "'d io_dev \<Rightarrow> plugin_slot_t \<Rightarrow> ('d, 'z) plugin_st_scheme \<Rightarrow> ('d, 'z) plugin_st_scheme option" where
  "plugin_list_slot D p s =
     (if p_state p = PLUGIN_STATE_UNLOADED then Some s
      else do { s \<leftarrow> vga_print D (Some ''  ['') s;
                s \<leftarrow> vga_print D (Some (d_name (p_desc p))) s;
                s \<leftarrow> vga_print D (Some ''] v'') s;
                s \<leftarrow> vga_print D (Some (d_version (p_desc p))) s;
                s \<leftarrow> vga_print D (Some ''  state='') s;
                s \<leftarrow> vga_print D (Some (case p_state p of
                        PLUGIN_STATE_LOADED \<Rightarrow> ''LOADED''
                      | PLUGIN_STATE_ACTIVE \<Rightarrow> ''ACTIVE''
                      | PLUGIN_STATE_ERROR \<Rightarrow> ''ERROR''
                      | _ \<Rightarrow> ''?'')) s;
                s \<leftarrow> vga_print D (Some ''  ticks='') s;
                s \<leftarrow> vga_print_dec D (p_tick_count p) s;
                vga_putchar D LF s })"

primrec plugin_list_loop :: "'d io_dev \<Rightarrow> plugin_slot_t list \<Rightarrow> ('d, 'z) plugin_st_scheme \<Rightarrow> ('d, 'z) plugin_st_scheme option" where
  "plugin_list_loop D [] s = Some s"
| "plugin_list_loop D (p # ps) s = do { s \<leftarrow> plugin_list_slot D p s; plugin_list_loop D ps s }"

text \<open>Printing leaves the table alone, so the loop runs over the slots it starts with.\<close>

definition plugin_list :: "'d io_dev \<Rightarrow> ('d, 'z) plugin_st_scheme \<Rightarrow> ('d, 'z) plugin_st_scheme option" where
  "plugin_list D s =
     do { s \<leftarrow> vga_println D (Some ''--- Plugins ---'') s; plugin_list_loop D (plugin_table s) s }"

definition plugin_count :: "('d, 'z) plugin_st_scheme \<Rightarrow> int" where
  "plugin_count s = plugin_count_val s"

section \<open>Invariant\<close>

interpretation plugins: name_table slot_loaded "\<lambda>p. d_name (p_desc p)" 24
  by unfold_locales simp

definition plugin_inv :: "('d, 'z) plugin_st_scheme \<Rightarrow> bool" where
  "plugin_inv s \<longleftrightarrow> length (plugin_table s) = 16 \<and> plugins.names_ok (plugin_table s) \<and>
     plugin_count_val s = int (length (filter slot_loaded (plugin_table s)))"

text \<open>The plugin registered under a name.\<close>

definition plugin_at :: "('d, 'z) plugin_st_scheme \<Rightarrow> string \<Rightarrow> plugin_slot_t option" where
  "plugin_at s name = plugins.entry (plugin_table s) name"

section \<open>Lemmas\<close>

lemma length_filter_update:
  "i < length xs \<Longrightarrow>
   int (length (filter P (xs[i := e]))) = int (length (filter P xs)) - of_bool (P (xs ! i)) + of_bool (P e)"
proof (induction xs arbitrary: i)
  case Nil
  then show ?case by simp
next
  case (Cons x xs)
  then show ?case by (cases i) auto
qed

lemma publish_plugin_fields [simp]:
  "plugin_table (snd (eventbus_publish t x s)) = plugin_table s"
  "plugin_count_val (snd (eventbus_publish t x s)) = plugin_count_val s"
  by (simp_all add: eventbus_publish_def)

lemma publish_queue_only: "\<exists>q tl n. snd (eventbus_publish t x s) = s\<lparr>queue := q, q_tail := tl, q_count := n\<rparr>"
proof -
  let ?u = "snd (eventbus_publish t x s)"
  have "?u = s\<lparr>queue := queue ?u, q_tail := q_tail ?u, q_count := q_count ?u\<rparr>" by (simp add: eventbus_publish_def)
  then show ?thesis by blast
qed

lemma set_slot_fields [simp]:
  "plugin_table (set_slot i f s) = (plugin_table s)[i := f (plugin_table s ! i)]"
  "plugin_count_val (set_slot i f s) = plugin_count_val s"
  by (simp_all add: set_slot_def)

lemma slot_reset:
  "p\<lparr>p_desc := d, p_state := st, p_tick_count := n, p_error_count := e, p_load_tick := l\<rparr> =
     \<lparr>p_desc = d, p_state = st, p_load_tick = l, p_tick_count = n, p_error_count = e\<rparr>"
  by (cases p) simp

lemma plugin_find_Some:
  assumes "plugin_inv s" "plugin_find (Some name) s = Some i"
  shows "i < 16" "slot_loaded (plugin_table s ! i)" "plugin_at s name = Some (plugin_table s ! i)"
  using assms plugins.find_iff [of "plugin_table s" name i]
  by (auto simp: plugin_inv_def plugin_find_def plugin_at_def plugins.entry_def)

lemma plugin_at_find: "plugin_at s name = Some p \<Longrightarrow> \<exists>i. plugin_find (Some name) s = Some i \<and> plugin_table s ! i = p"
  by (auto simp: plugin_at_def plugins.entry_def plugin_find_def)

text \<open>Replacing the slot of a registered plugin by a slot with the same descriptor.\<close>

lemma plugin_replace:
  assumes inv: "plugin_inv s" and f: "plugin_find (Some name) s = Some i"
    and e: "p_desc e = p_desc (plugin_table s ! i)" "slot_loaded e"
    and t: "plugin_table s' = (plugin_table s)[i := e]" "plugin_count_val s' = plugin_count_val s"
  shows "plugin_inv s' \<and> plugin_at s' k = (if cstr k = cstr name then Some e else plugin_at s k)"
proof -
  have n: "i < length (plugin_table s)" "slot_loaded (plugin_table s ! i)" "cstr (d_name (p_desc (plugin_table s ! i))) = cstr name"
    using plugins.find_iff [of "plugin_table s" name i] f inv by (auto simp: plugin_find_def plugin_inv_def)
  have "plugins.names_ok ((plugin_table s)[i := e]) \<and>
      plugins.entry ((plugin_table s)[i := e]) k = (if cstr k = cstr name then Some e else plugins.entry (plugin_table s) k)"
    using inv f e n(3) by (intro plugins.entry_replace) (simp_all add: plugin_inv_def plugin_find_def)
  then show ?thesis
    using inv t n e(2) length_filter_update [OF n(1), of slot_loaded e] by (simp add: plugin_inv_def plugin_at_def)
qed

definition plugin_quiet :: "('d, 'z) plugin_call \<Rightarrow> bool" where
  "plugin_quiet call \<longleftrightarrow>
     (\<forall>fn s. \<exists>r s'. call fn s = Some (r, s') \<and> plugin_table s' = plugin_table s \<and> plugin_count_val s' = plugin_count_val s)"

lemma plugin_quietD:
  "plugin_quiet call \<Longrightarrow> \<exists>r s'. call fn s = Some (r, s') \<and> plugin_table s' = plugin_table s \<and> plugin_count_val s' = plugin_count_val s"
  by (simp add: plugin_quiet_def)

lemma quiet_opt:
  assumes "plugin_quiet call"
  shows "\<exists>s'. (case fn of None \<Rightarrow> Some s | Some fn \<Rightarrow> map_option snd (call fn s)) = Some s' \<and>
    plugin_table s' = plugin_table s \<and> plugin_count_val s' = plugin_count_val s"
  using plugin_quietD [OF assms] by (cases fn) fastforce+

lemma quiet_status:
  assumes "plugin_quiet call"
  shows "\<exists>r s'. (case fn of None \<Rightarrow> Some (AURA_OK, s) | Some fn \<Rightarrow> call fn s) = Some (r, s') \<and>
    plugin_table s' = plugin_table s \<and> plugin_count_val s' = plugin_count_val s"
  using plugin_quietD [OF assms] by (cases fn) fastforce+

text \<open>Registering under a new name while a slot is free.\<close>

lemma plugin_count_le: "plugin_inv s \<Longrightarrow> plugin_count_val s \<le> 16"
  using length_filter_le [of slot_loaded "plugin_table s"] by (simp add: plugin_inv_def)

lemma plugin_register_new:
  assumes inv: "plugin_inv s" and name: "length (cstr (d_name d)) < 24" and room: "plugin_count s \<noteq> 16" and none: "plugin_at s (d_name d) = None"
  shows "\<exists>s'. plugin_register (Some d) s = (AURA_OK, s') \<and> plugin_inv s' \<and> plugin_count s' = plugin_count s + 1 \<and>
    (\<exists>t c q tl n. s' = s\<lparr>plugin_table := t, plugin_count_val := c, queue := q, q_tail := tl, q_count := n\<rparr>) \<and>
    (\<forall>k. plugin_at s' k =
       (if cstr k = cstr (d_name d)
        then Some \<lparr>p_desc = d, p_state = PLUGIN_STATE_LOADED, p_load_tick = g_tick_count s, p_tick_count = 0, p_error_count = 0\<rparr>
        else plugin_at s k))"
proof -
  let ?t = "plugin_table s"
  have len: "length ?t = 16" and ok: "plugins.names_ok ?t"
    and cnt: "plugin_count_val s = int (length (filter slot_loaded ?t))"
    using inv by (simp_all add: plugin_inv_def)
  have le: "plugin_count_val s \<le> 16" by (rule plugin_count_le [OF inv])
  have find: "plugin_find (Some (d_name d)) s = None" using none by (simp add: plugin_at_def plugins.entry_def plugin_find_def)
  have "\<exists>p \<in> set ?t. p_state p = PLUGIN_STATE_UNLOADED"
  proof (rule ccontr)
    assume "\<not> ?thesis"
    then have "filter slot_loaded ?t = ?t" by (auto simp: slot_loaded_def)
    then show False using room cnt len by (simp add: plugin_count_def)
  qed
  then obtain i where fi: "find_index (\<lambda>p. p_state p = PLUGIN_STATE_UNLOADED) ?t = Some i"
    by (cases "find_index (\<lambda>p. p_state p = PLUGIN_STATE_UNLOADED) ?t") (auto simp: find_index_None)
  then have i: "i < length ?t" "\<not> slot_loaded (?t ! i)" using find_index_Some [OF fi] by (auto simp: slot_loaded_def)
  let ?e = "\<lparr>p_desc = d, p_state = PLUGIN_STATE_LOADED, p_load_tick = g_tick_count s, p_tick_count = 0, p_error_count = 0\<rparr>"
  define s' where "s' = snd (plugin_register (Some d) s)"
  have reg: "plugin_register (Some d) s = (AURA_OK, s')"
    and t: "plugin_table s' = ?t[i := ?e]" and c: "plugin_count_val s' = plugin_count_val s + 1"
    using room find le fi by (simp_all add: s'_def plugin_register_def plugin_count_def Let_def slot_reset)
  have ent: "plugins.names_ok (?t[i := ?e]) \<and>
      plugins.entry (?t[i := ?e]) k = (if cstr k = cstr (d_name d) then Some ?e else plugins.entry ?t k)" for k
    using ok i name find by (intro plugins.entry_insert) (simp_all add: slot_loaded_def plugin_find_def)
  have "plugin_inv s'"
    using ent len t c cnt i length_filter_update [OF i(1), of slot_loaded ?e] by (simp add: plugin_inv_def slot_loaded_def)
  moreover have "\<exists>t c q tl n. s' = s\<lparr>plugin_table := t, plugin_count_val := c, queue := q, q_tail := tl, q_count := n\<rparr>"
  proof -
    let ?u = "s\<lparr>plugin_table := ?t[i := ?e], plugin_count_val := plugin_count_val s + 1\<rparr>"
    have "s' = snd (eventbus_publish TOPIC_PLUGIN_LOADED (of_nat i) ?u)"
      using room find le fi by (simp add: s'_def plugin_register_def plugin_count_def set_slot_def Let_def slot_reset)
    moreover obtain q tl n where "snd (eventbus_publish TOPIC_PLUGIN_LOADED (of_nat i) ?u) = ?u\<lparr>queue := q, q_tail := tl, q_count := n\<rparr>"
      using publish_queue_only by blast
    ultimately have "s' = ?u\<lparr>queue := q, q_tail := tl, q_count := n\<rparr>" by (rule trans)
    then show ?thesis by blast
  qed
  ultimately show ?thesis using reg c ent t by (simp add: plugin_at_def plugin_count_def)
qed

text \<open>Activating a plugin that is LOADED, when its initialiser leaves the plugin table alone.\<close>

lemma plugin_activate_loaded:
  assumes inv: "plugin_inv s" and p: "plugin_at s name = Some p" and st: "p_state p = PLUGIN_STATE_LOADED"
    and u: "(case d_init (p_desc p) of None \<Rightarrow> Some (AURA_OK, s) | Some fn \<Rightarrow> call fn s) = Some (r, u)"
      "plugin_table u = plugin_table s" "plugin_count_val u = plugin_count_val s"
  shows "\<exists>t. plugin_activate call (Some name) s = Some (r, u\<lparr>plugin_table := t\<rparr>) \<and> plugin_inv (u\<lparr>plugin_table := t\<rparr>) \<and>
    (\<forall>k. plugin_at (u\<lparr>plugin_table := t\<rparr>) k = (if cstr k = cstr name
       then Some (if r = AURA_OK then p\<lparr>p_state := PLUGIN_STATE_ACTIVE\<rparr>
                  else p\<lparr>p_state := PLUGIN_STATE_ERROR, p_error_count := p_error_count p + 1\<rparr>)
       else plugin_at s k))"
proof -
  obtain i where i: "plugin_find (Some name) s = Some i" "plugin_table s ! i = p" using plugin_at_find [OF p] by blast
  let ?e = "if r = AURA_OK then p\<lparr>p_state := PLUGIN_STATE_ACTIVE\<rparr>
      else p\<lparr>p_state := PLUGIN_STATE_ERROR, p_error_count := p_error_count p + 1\<rparr>"
  let ?t = "(plugin_table s)[i := ?e]"
  have run: "plugin_activate call (Some name) s = Some (r, u\<lparr>plugin_table := ?t\<rparr>)"
    using i u st by (cases "r = AURA_OK") (simp_all add: plugin_activate_def set_slot_def)
  have "plugin_inv (u\<lparr>plugin_table := ?t\<rparr>) \<and> plugin_at (u\<lparr>plugin_table := ?t\<rparr>) k = (if cstr k = cstr name then Some ?e else plugin_at s k)" for k
    using u(3) by (intro plugin_replace [OF inv i(1), unfolded i(2)]) (simp_all add: slot_loaded_def)
  then show ?thesis using run by (intro exI [of _ ?t]) simp
qed

text \<open>Deactivating a plugin that is ACTIVE, when its shutdown function leaves the plugin table alone.\<close>

lemma plugin_deactivate_active:
  assumes inv: "plugin_inv s" and p: "plugin_at s name = Some p" and st: "p_state p = PLUGIN_STATE_ACTIVE"
    and u: "(case d_shutdown (p_desc p) of None \<Rightarrow> Some (AURA_OK, s) | Some fn \<Rightarrow> call fn s) = Some (r, u)"
      "plugin_table u = plugin_table s" "plugin_count_val u = plugin_count_val s"
  shows "\<exists>t. plugin_deactivate call (Some name) s = Some (AURA_OK, u\<lparr>plugin_table := t\<rparr>) \<and> plugin_inv (u\<lparr>plugin_table := t\<rparr>) \<and>
    (\<forall>k. plugin_at (u\<lparr>plugin_table := t\<rparr>) k = (if cstr k = cstr name then Some (p\<lparr>p_state := PLUGIN_STATE_LOADED\<rparr>) else plugin_at s k))"
proof -
  obtain i where i: "plugin_find (Some name) s = Some i" "plugin_table s ! i = p" using plugin_at_find [OF p] by blast
  let ?e = "p\<lparr>p_state := PLUGIN_STATE_LOADED\<rparr>"
  let ?t = "(plugin_table s)[i := ?e]"
  have "(case d_shutdown (p_desc p) of None \<Rightarrow> Some s | Some fn \<Rightarrow> map_option snd (call fn s)) = Some u"
    using u(1) by (cases "d_shutdown (p_desc p)") auto
  then have run: "plugin_deactivate call (Some name) s = Some (AURA_OK, u\<lparr>plugin_table := ?t\<rparr>)"
    using i u(2) st by (simp add: plugin_deactivate_def set_slot_def)
  have "plugin_inv (u\<lparr>plugin_table := ?t\<rparr>) \<and> plugin_at (u\<lparr>plugin_table := ?t\<rparr>) k = (if cstr k = cstr name then Some ?e else plugin_at s k)" for k
    using u(3) by (intro plugin_replace [OF inv i(1), unfolded i(2)]) (simp_all add: slot_loaded_def)
  then show ?thesis using run by (intro exI [of _ ?t]) simp
qed

section \<open>Properties\<close>

text \<open>A table without plugins, for the concrete instances.\<close>

definition demo_plugins :: "(plugin_fn \<times> aura_status_t) list plugin_st" where
  "demo_plugins = \<lparr>dev = [], mem = (\<lambda>_. 0), cr0 = 0, cr2 = 0,
     cr3 = 0, cr4 = 0, idtr = (0, 0), int_flag = False, g_kernel_state = KERNEL_STATE_INIT, g_tick_count = 7,
     heap_head = 0, vga_row = 0, vga_col = 0, vga_color = 0, g_serial_hook = None,
     idt_table = [], irq_handlers = [], shift_held = False, caps_active = False,
     kb_buf = [], kb_head = 0, kb_tail = 0, kb_count = 0,
     handlers = replicate 32 (replicate 8 0),
     queue = replicate 64 \<lparr>e_topic = 0, e_data = 0, e_timestamp = 0\<rparr>, q_head = 0, q_tail = 0, q_count = 0,
     plugin_table = replicate 16 \<lparr>p_desc = \<lparr>d_name = replicate 24 NUL, d_version = replicate 8 NUL, d_type = PLUGIN_TYPE_CORE,
        d_init = None, d_tick = None, d_shutdown = None, d_priv = 0\<rparr>, p_state = PLUGIN_STATE_UNLOADED, p_load_tick = 0,
        p_tick_count = 0, p_error_count = 0\<rparr>, plugin_count_val = 0\<rparr>"

definition demo_desc :: plugin_desc_t where
  "demo_desc = \<lparr>d_name = ''hello'', d_version = ''1.0'', d_type = PLUGIN_TYPE_SERVICE, d_init = Some Hello_init,
     d_tick = Some Hello_tick, d_shutdown = Some Hello_shutdown, d_priv = 0\<rparr>"

lemma demo_plugins_inv: "plugin_inv demo_plugins" "plugin_count demo_plugins = 0" "plugin_at demo_plugins k = None"
proof -
  have "\<not> slot_loaded (plugin_table demo_plugins ! i)" if "i < 16" for i
    using that by (simp add: demo_plugins_def slot_loaded_def)
  moreover have len: "length (plugin_table demo_plugins) = 16" by (simp add: demo_plugins_def)
  ultimately have ok: "plugins.names_ok (plugin_table demo_plugins)" by (simp add: plugins.names_ok_def)
  show "plugin_inv demo_plugins"
    using ok len by (simp add: plugin_inv_def) (simp add: demo_plugins_def slot_loaded_def)
  show "plugin_count demo_plugins = 0" by (simp add: plugin_count_def demo_plugins_def)
  have "table_find slot_loaded (\<lambda>p. d_name (p_desc p)) 24 (plugin_table demo_plugins) (Some k) = None"
    unfolding plugins.find_None_iff [OF ok] len using \<open>\<And>i. i < 16 \<Longrightarrow> _\<close> by blast
  then show "plugin_at demo_plugins k = None" by (simp add: plugin_at_def plugins.entry_def)
qed

text \<open>C25: registering a descriptor with a terminated name keeps the table in order (the counter equals the
  number of loaded plugins, names are distinct). It is refused with NOSLOT when 16 plugins are loaded
  and with ERR when the name is taken, without any effect on the table; otherwise the plugin is
  found under its name in state LOADED with zeroed counters, and no other lookup changes.\<close>

theorem plugin_register_correct:
  assumes inv: "plugin_inv s" and name: "length (cstr (d_name d)) < 24"
  shows "\<exists>r s'. plugin_register (Some d) s = (r, s') \<and> plugin_inv s' \<and>
    (if plugin_count s = 16 then r = AURA_NOSLOT \<and> s' = s
     else if plugin_at s (d_name d) \<noteq> None then r = AURA_ERR \<and> s' = s
     else r = AURA_OK \<and> plugin_count s' = plugin_count s + 1 \<and>
       (\<forall>k. plugin_at s' k =
          (if cstr k = cstr (d_name d)
           then Some \<lparr>p_desc = d, p_state = PLUGIN_STATE_LOADED, p_load_tick = g_tick_count s, p_tick_count = 0, p_error_count = 0\<rparr>
           else plugin_at s k)))"
proof -
  have le: "plugin_count_val s \<le> 16" by (rule plugin_count_le [OF inv])
  consider (full) "plugin_count s = 16" | (dup) "plugin_count s \<noteq> 16" "plugin_find (Some (d_name d)) s \<noteq> None"
    | (new) "plugin_count s \<noteq> 16" "plugin_find (Some (d_name d)) s = None" by blast
  then show ?thesis
  proof cases
    case full
    then show ?thesis using inv by (simp add: plugin_register_def plugin_count_def)
  next
    case dup
    then have "plugin_at s (d_name d) \<noteq> None" by (auto simp: plugin_at_def plugins.entry_def plugin_find_def)
    then show ?thesis using dup inv le by (auto simp: plugin_register_def plugin_count_def)
  next
    case new
    then have "plugin_at s (d_name d) = None" by (simp add: plugin_at_def plugins.entry_def plugin_find_def)
    then show ?thesis using plugin_register_new [OF inv name new(1)] new(1) by auto
  qed
qed

theorem plugin_register_correct_witness:
  "\<exists>s'. plugin_register (Some demo_desc) demo_plugins = (AURA_OK, s') \<and> plugin_count s' = 1 \<and>
    map_option p_state (plugin_at s' ''hello'') = Some PLUGIN_STATE_LOADED"
proof -
  have "length (cstr (d_name demo_desc)) < 24" "d_name demo_desc = ''hello''" by (simp_all add: demo_desc_def cstr_def)
  then show ?thesis
    using plugin_register_correct [OF demo_plugins_inv(1), of demo_desc] by (auto simp: demo_plugins_inv)
qed

text \<open>C26: activating a plugin that is LOADED runs its initialiser, when it has one, once on the state at hand and hands
  its status on. The result is the state \<open>u\<close> the initialiser leaves, in which only the plugin's slot is
  changed: to ACTIVE when the status \<open>r\<close> is AURA_OK, otherwise to ERROR with the error counter raised.
  Deactivating a plugin that is ACTIVE runs its shutdown function in the same way, leads back to LOADED
  whatever that returns, and succeeds. In every other state, and for an unknown name, both are refused
  without any effect. The callbacks return and leave the plugin table alone.\<close>

theorem plugin_activation_correct:
  assumes quiet: "plugin_quiet call" and inv: "plugin_inv s"
  shows "case plugin_at s name of
      None \<Rightarrow> plugin_activate call (Some name) s = Some (AURA_NOTFOUND, s) \<and>
              plugin_deactivate call (Some name) s = Some (AURA_NOTFOUND, s)
    | Some p \<Rightarrow>
       (if p_state p \<noteq> PLUGIN_STATE_LOADED then plugin_activate call (Some name) s = Some (AURA_ERR, s)
        else \<exists>r u t. (case d_init (p_desc p) of None \<Rightarrow> Some (AURA_OK, s) | Some fn \<Rightarrow> call fn s) = Some (r, u) \<and>
          plugin_activate call (Some name) s = Some (r, u\<lparr>plugin_table := t\<rparr>) \<and> plugin_inv (u\<lparr>plugin_table := t\<rparr>) \<and>
          (\<forall>k. plugin_at (u\<lparr>plugin_table := t\<rparr>) k = (if cstr k = cstr name
             then Some (if r = AURA_OK then p\<lparr>p_state := PLUGIN_STATE_ACTIVE\<rparr>
                        else p\<lparr>p_state := PLUGIN_STATE_ERROR, p_error_count := p_error_count p + 1\<rparr>)
             else plugin_at s k))) \<and>
       (if p_state p \<noteq> PLUGIN_STATE_ACTIVE then plugin_deactivate call (Some name) s = Some (AURA_ERR, s)
        else \<exists>r u t. (case d_shutdown (p_desc p) of None \<Rightarrow> Some (AURA_OK, s) | Some fn \<Rightarrow> call fn s) = Some (r, u) \<and>
          plugin_deactivate call (Some name) s = Some (AURA_OK, u\<lparr>plugin_table := t\<rparr>) \<and> plugin_inv (u\<lparr>plugin_table := t\<rparr>) \<and>
          (\<forall>k. plugin_at (u\<lparr>plugin_table := t\<rparr>) k =
             (if cstr k = cstr name then Some (p\<lparr>p_state := PLUGIN_STATE_LOADED\<rparr>) else plugin_at s k)))"
proof (cases "plugin_at s name")
  case None
  then have "plugin_find (Some name) s = None" by (cases "plugin_find (Some name) s") (auto dest: plugin_find_Some(3) [OF inv])
  then show ?thesis using None by (simp add: plugin_activate_def plugin_deactivate_def)
next
  case (Some p)
  obtain i where i: "plugin_find (Some name) s = Some i" "plugin_table s ! i = p" using plugin_at_find [OF Some] by blast
  obtain r u where u: "(case d_init (p_desc p) of None \<Rightarrow> Some (AURA_OK, s) | Some fn \<Rightarrow> call fn s) = Some (r, u)"
    "plugin_table u = plugin_table s" "plugin_count_val u = plugin_count_val s"
    using quiet_status [OF quiet] by blast
  obtain r' v where v: "(case d_shutdown (p_desc p) of None \<Rightarrow> Some (AURA_OK, s) | Some fn \<Rightarrow> call fn s) = Some (r', v)"
    "plugin_table v = plugin_table s" "plugin_count_val v = plugin_count_val s"
    using quiet_status [OF quiet] by blast
  note plugin_activate_loaded [where call = call, OF inv Some _ u] plugin_deactivate_active [where call = call, OF inv Some _ v]
  then show ?thesis
    using Some i u(1) v(1) by (simp add: plugin_activate_def plugin_deactivate_def)
qed

text \<open>Callbacks that always succeed, and callbacks that record in the device that they ran and what they returned.\<close>

definition ok_call :: "('d, 'z) plugin_call" where
  "ok_call fn s = Some (AURA_OK, s)"

lemma ok_call_quiet: "plugin_quiet ok_call"
  by (simp add: plugin_quiet_def ok_call_def)

definition log_plugin :: "(plugin_fn \<Rightarrow> aura_status_t) \<Rightarrow> ((plugin_fn \<times> aura_status_t) list, 'z) plugin_call" where
  "log_plugin res fn s = Some (res fn, s\<lparr>dev := dev s @ [(fn, res fn)]\<rparr>)"

lemma log_plugin_quiet: "plugin_quiet (log_plugin res)"
  by (simp add: plugin_quiet_def log_plugin_def)

definition demo_slot :: plugin_slot_t where
  "demo_slot = \<lparr>p_desc = demo_desc, p_state = PLUGIN_STATE_LOADED, p_load_tick = 7, p_tick_count = 0, p_error_count = 0\<rparr>"

definition demo_loaded :: "(plugin_fn \<times> aura_status_t) list plugin_st" where
  "demo_loaded = demo_plugins\<lparr>plugin_table := (plugin_table demo_plugins)[0 := demo_slot], plugin_count_val := 1\<rparr>"

lemma demo_loaded_inv: "plugin_inv demo_loaded" "plugin_at demo_loaded ''hello'' = Some demo_slot" "p_state demo_slot = PLUGIN_STATE_LOADED"
proof -
  let ?t = "plugin_table demo_plugins"
  have len: "length ?t = 16" and n: "plugins.names_ok ?t" and c: "plugin_count_val demo_plugins = 0"
    using demo_plugins_inv(1,2) by (simp_all add: plugin_inv_def plugin_count_def)
  have h: "cstr ''hello'' = ''hello''" "d_name (p_desc demo_slot) = ''hello''" "slot_loaded demo_slot"
    by (simp_all add: cstr_def demo_slot_def demo_desc_def slot_loaded_def)
  have f: "\<not> slot_loaded (?t ! 0)" by (simp add: demo_plugins_def slot_loaded_def)
  have "table_find slot_loaded (\<lambda>p. d_name (p_desc p)) 24 ?t (Some ''hello'') = None"
    using demo_plugins_inv(3) [of "''hello''"] by (simp add: plugin_at_def plugins.entry_def)
  then have e: "plugins.names_ok (?t[0 := demo_slot]) \<and> plugins.entry (?t[0 := demo_slot]) ''hello'' = Some demo_slot"
    using plugins.entry_insert [OF n _ f h(3), of "''hello''" "''hello''"] len h by simp
  show "plugin_inv demo_loaded"
    using e len c f h(3) length_filter_update [of 0 ?t slot_loaded demo_slot] demo_plugins_inv(1)
    by (simp add: plugin_inv_def demo_loaded_def)
  show "plugin_at demo_loaded ''hello'' = Some demo_slot" using e by (simp add: plugin_at_def demo_loaded_def)
  show "p_state demo_slot = PLUGIN_STATE_LOADED" by (simp add: demo_slot_def)
qed

theorem plugin_activation_correct_witness:
  "\<exists>s'. plugin_activate (log_plugin (\<lambda>_. AURA_BUSY)) (Some ''hello'') demo_loaded = Some (AURA_BUSY, s') \<and>
    dev s' = [(Hello_init, AURA_BUSY)] \<and>
    plugin_at s' ''hello'' = Some (demo_slot\<lparr>p_state := PLUGIN_STATE_ERROR, p_error_count := 1\<rparr>)"
proof -
  have d: "d_init (p_desc demo_slot) = Some Hello_init" "p_error_count demo_slot = 0" "dev demo_loaded = []"
    by (simp_all add: demo_slot_def demo_desc_def demo_loaded_def demo_plugins_def)
  show ?thesis
    using plugin_activation_correct [OF log_plugin_quiet demo_loaded_inv(1), of "\<lambda>_. AURA_BUSY" "''hello''"] demo_loaded_inv(2,3) d
    by (auto simp: log_plugin_def)
qed

text \<open>Unregistering a plugin whose shutdown callback leaves the plugin table alone succeeds, whatever its
  state: it is no longer found, the counter drops by one, the table stays in order and no other
  plugin changes. An unknown name is reported and changes nothing.\<close>

theorem plugin_unregister_correct:
  assumes quiet: "plugin_quiet call" and inv: "plugin_inv s"
  shows "\<exists>r s'. plugin_unregister call (Some name) s = Some (r, s') \<and> plugin_inv s' \<and>
    (if plugin_at s name = None then r = AURA_NOTFOUND \<and> s' = s
     else r = AURA_OK \<and> plugin_count s' = plugin_count s - 1 \<and>
       (\<forall>k. plugin_at s' k = (if cstr k = cstr name then None else plugin_at s k)))"
proof (cases "plugin_find (Some name) s")
  case None
  then have "plugin_at s name = None" by (simp add: plugin_at_def plugins.entry_def plugin_find_def)
  then show ?thesis using None inv by (simp add: plugin_unregister_def)
next
  case (Some i)
  note f = plugin_find_Some [OF inv Some]
  let ?p = "plugin_table s ! i"
  obtain u where u: "(if p_state ?p = PLUGIN_STATE_ACTIVE
      then (case d_shutdown (p_desc ?p) of None \<Rightarrow> Some s | Some fn \<Rightarrow> map_option snd (call fn s)) else Some s) = Some u"
    "plugin_table u = plugin_table s" "plugin_count_val u = plugin_count_val s"
    using quiet_opt [OF quiet, where fn = "d_shutdown (p_desc ?p)" and s = s] by (cases "p_state ?p = PLUGIN_STATE_ACTIVE") auto
  let ?e = "?p\<lparr>p_state := PLUGIN_STATE_UNLOADED\<rparr>"
  define s' where "s' = (set_slot i (\<lambda>p. p\<lparr>p_state := PLUGIN_STATE_UNLOADED\<rparr>)
      (snd (eventbus_publish TOPIC_PLUGIN_UNLOADED 0 u)))\<lparr>plugin_count_val := plugin_count_val s - 1\<rparr>"
  have run: "plugin_unregister call (Some name) s = Some (AURA_OK, s')"
    unfolding plugin_unregister_def Some option.case Let_def u(1) using u(3) by (simp add: s'_def)
  have t: "plugin_table s' = (plugin_table s)[i := ?e]" "plugin_count_val s' = plugin_count_val s - 1"
    using u(2) by (simp_all add: s'_def)
  have ent: "plugins.names_ok ((plugin_table s)[i := ?e]) \<and> plugins.entry ((plugin_table s)[i := ?e]) k =
      (if cstr k = cstr name then None else plugins.entry (plugin_table s) k)" for k
    using inv Some by (intro plugins.entry_clear) (simp_all add: plugin_inv_def plugin_find_def slot_loaded_def)
  have "plugin_inv s'"
    using ent t inv f(1,2) length_filter_update [of i "plugin_table s" slot_loaded ?e]
    by (simp add: plugin_inv_def) (simp add: slot_loaded_def)
  then show ?thesis using run ent t f(3) by (simp add: plugin_at_def plugin_count_def)
qed

theorem plugin_unregister_correct_witness:
  "\<exists>s'. plugin_unregister ok_call (Some ''hello'') demo_loaded = Some (AURA_OK, s') \<and> plugin_at s' ''hello'' = None"
  using plugin_unregister_correct [OF ok_call_quiet demo_loaded_inv(1), of "''hello''"] demo_loaded_inv(2) by auto

section \<open>The plugin tick\<close>

text \<open>An observer of the callbacks: \<open>log\<close> reads off the device which functions ran and what each returned, and a call
  appends exactly its own entry.\<close>

definition plugin_logged :: "('d \<Rightarrow> (plugin_fn \<times> aura_status_t) list) \<Rightarrow> ('d, 'z) plugin_call \<Rightarrow> bool" where
  "plugin_logged log call \<longleftrightarrow>
     (\<forall>fn s. \<exists>r s'. call fn s = Some (r, s') \<and> log (dev s') = log (dev s) @ [(fn, r)] \<and>
        plugin_table s' = plugin_table s \<and> plugin_count_val s' = plugin_count_val s)"

lemma log_plugin_logged: "plugin_logged (\<lambda>d. d) (log_plugin res)"
  by (simp add: plugin_logged_def log_plugin_def)

text \<open>The slots whose tick function a tick calls, and what the call leaves of the slot.\<close>

definition ticks :: "plugin_slot_t \<Rightarrow> bool" where
  "ticks p \<longleftrightarrow> p_state p = PLUGIN_STATE_ACTIVE \<and> d_tick (p_desc p) \<noteq> None"

definition ticked :: "aura_status_t \<Rightarrow> plugin_slot_t \<Rightarrow> plugin_slot_t" where
  "ticked r p = p\<lparr>p_tick_count := p_tick_count p + 1, p_error_count := p_error_count p + (if r = AURA_OK then 0 else 1)\<rparr>"

lemma plugin_tick_slot_idle: "\<not> ticks (plugin_table s ! i) \<Longrightarrow> plugin_tick_slot call i s = Some s"
  by (auto simp: plugin_tick_slot_def ticks_def split: option.split)

lemma plugin_tick_slot_calls:
  assumes log: "plugin_logged log call" and t: "ticks (plugin_table s ! i)" and i: "i < length (plugin_table s)"
  shows "\<exists>r s'. plugin_tick_slot call i s = Some s' \<and> plugin_count_val s' = plugin_count_val s \<and>
    log (dev s') = log (dev s) @ [(the (d_tick (p_desc (plugin_table s ! i))), r)] \<and>
    plugin_table s' = (plugin_table s)[i := ticked r (plugin_table s ! i)]"
proof -
  obtain fn where fn: "d_tick (p_desc (plugin_table s ! i)) = Some fn" "p_state (plugin_table s ! i) = PLUGIN_STATE_ACTIVE"
    using t by (auto simp: ticks_def)
  obtain r u where u: "call fn s = Some (r, u)" "log (dev u) = log (dev s) @ [(fn, r)]" "plugin_table u = plugin_table s"
    "plugin_count_val u = plugin_count_val s"
    using log unfolding plugin_logged_def by blast
  let ?s = "set_slot i (\<lambda>p. p\<lparr>p_tick_count := p_tick_count p + 1\<rparr>) u"
  let ?s' = "if r \<noteq> AURA_OK then set_slot i (\<lambda>p. p\<lparr>p_error_count := p_error_count p + 1\<rparr>) ?s else ?s"
  have "plugin_tick_slot call i s = Some ?s'" using fn u(1) by (simp add: plugin_tick_slot_def Let_def)
  moreover have "plugin_table ?s' = (plugin_table s)[i := ticked r (plugin_table s ! i)]" using i by (simp add: u(3) ticked_def)
  moreover have "dev ?s' = dev u" by (simp add: set_slot_def)
  ultimately show ?thesis using fn(1) u(2,4) by (intro exI [of _ r] exI [of _ ?s']) simp
qed

lemma plugin_tick_loop_effect:
  assumes log: "plugin_logged log call"
  shows "distinct is \<Longrightarrow> \<forall>i \<in> set is. i < length (plugin_table s) \<Longrightarrow>
    \<exists>res s'. plugin_tick_loop call is s = Some s' \<and> plugin_count_val s' = plugin_count_val s \<and>
      length (plugin_table s') = length (plugin_table s) \<and>
      log (dev s') = log (dev s) @ map (\<lambda>j. (the (d_tick (p_desc (plugin_table s ! j))), res j)) (filter (\<lambda>j. ticks (plugin_table s ! j)) is) \<and>
      (\<forall>j < length (plugin_table s). plugin_table s' ! j =
         (if j \<in> set is \<and> ticks (plugin_table s ! j) then ticked (res j) (plugin_table s ! j) else plugin_table s ! j))"
proof (induction "is" arbitrary: s)
  case Nil
  then show ?case by simp
next
  case (Cons i "is")
  obtain r u where u: "plugin_tick_slot call i s = Some u" "plugin_count_val u = plugin_count_val s"
    "plugin_table u = (if ticks (plugin_table s ! i) then (plugin_table s)[i := ticked r (plugin_table s ! i)] else plugin_table s)"
    "log (dev u) = log (dev s) @ (if ticks (plugin_table s ! i) then [(the (d_tick (p_desc (plugin_table s ! i))), r)] else [])"
  proof (cases "ticks (plugin_table s ! i)")
    case True
    then show ?thesis using plugin_tick_slot_calls [OF log True] Cons.prems(2) that by auto
  qed (use plugin_tick_slot_idle that in auto)
  have len: "length (plugin_table u) = length (plugin_table s)" using u(3) by simp
  have uj: "plugin_table u ! j = plugin_table s ! j" if "j \<noteq> i" for j using u(3) that by simp
  obtain res s' where s': "plugin_tick_loop call is u = Some s'" "plugin_count_val s' = plugin_count_val u"
    "length (plugin_table s') = length (plugin_table u)"
    "log (dev s') = log (dev u) @ map (\<lambda>j. (the (d_tick (p_desc (plugin_table u ! j))), res j)) (filter (\<lambda>j. ticks (plugin_table u ! j)) is)"
    "\<forall>j < length (plugin_table u). plugin_table s' ! j =
       (if j \<in> set is \<and> ticks (plugin_table u ! j) then ticked (res j) (plugin_table u ! j) else plugin_table u ! j)"
    using Cons.IH [of u] Cons.prems len by auto
  have rest_same: "\<forall>j \<in> set is. plugin_table u ! j = plugin_table s ! j \<and> j \<noteq> i"
  proof
    fix j
    assume "j \<in> set is"
    then have "j \<noteq> i" using Cons.prems(1) by auto
    then show "plugin_table u ! j = plugin_table s ! j \<and> j \<noteq> i" using uj by simp
  qed
  let ?res = "res(i := r)"
  have rest: "map (\<lambda>j. (the (d_tick (p_desc (plugin_table u ! j))), res j)) (filter (\<lambda>j. ticks (plugin_table u ! j)) is) =
      map (\<lambda>j. (the (d_tick (p_desc (plugin_table s ! j))), ?res j)) (filter (\<lambda>j. ticks (plugin_table s ! j)) is)"
    using rest_same by (intro map_cong filter_cong) auto
  have "plugin_table s' ! j =
      (if j \<in> set (i # is) \<and> ticks (plugin_table s ! j) then ticked (?res j) (plugin_table s ! j) else plugin_table s ! j)"
    if "j < length (plugin_table s)" for j
    using s'(5) [rule_format, of j] that len uj [of j] u(3) Cons.prems(1) by (cases "j = i") auto
  then show ?case using u(1,2,4) s'(1-4) len rest by (intro exI [of _ ?res] exI [of _ s']) auto
qed

text \<open>C27: a tick returns after calling the tick function of every ACTIVE plugin that has one exactly once, in slot order,
  and no other callback: the log of the calls is extended by exactly these functions with the statuses
  they returned. The tick counter of such a plugin rises by one, and its error counter by one exactly
  when the logged status is not AURA_OK; one that succeeds stays ACTIVE. No other slot changes. The
  statement leaves open the state of a plugin whose tick failed: the documentation of the plugin
  interface announces ERROR, and the code leaves it ACTIVE.\<close>

theorem plugin_tick_all_correct:
  assumes log: "plugin_logged log call" and len: "length (plugin_table s) = 16"
  shows "\<exists>s' res. plugin_tick_all call s = Some s' \<and> plugin_count s' = plugin_count s \<and> length (plugin_table s') = 16 \<and>
    log (dev s') = log (dev s) @
      map (\<lambda>j. (the (d_tick (p_desc (plugin_table s ! j))), res j))
        (filter (\<lambda>j. p_state (plugin_table s ! j) = PLUGIN_STATE_ACTIVE \<and> d_tick (p_desc (plugin_table s ! j)) \<noteq> None) [0..<16]) \<and>
    (\<forall>j < 16. let p = plugin_table s ! j; p' = plugin_table s' ! j in
       if p_state p = PLUGIN_STATE_ACTIVE \<and> d_tick (p_desc p) \<noteq> None
       then p_desc p' = p_desc p \<and> p_load_tick p' = p_load_tick p \<and> p_tick_count p' = p_tick_count p + 1 \<and>
            p_error_count p' = p_error_count p + (if res j = AURA_OK then 0 else 1) \<and>
            (res j = AURA_OK \<longrightarrow> p_state p' = PLUGIN_STATE_ACTIVE)
       else p' = p)"
proof -
  obtain res s' where s': "plugin_tick_loop call [0..<16] s = Some s'" "plugin_count_val s' = plugin_count_val s" "length (plugin_table s') = 16"
    "log (dev s') = log (dev s) @ map (\<lambda>j. (the (d_tick (p_desc (plugin_table s ! j))), res j)) (filter (\<lambda>j. ticks (plugin_table s ! j)) [0..<16])"
    "\<forall>j < 16. plugin_table s' ! j = (if j \<in> set [0..<16] \<and> ticks (plugin_table s ! j) then ticked (res j) (plugin_table s ! j) else plugin_table s ! j)"
    using plugin_tick_loop_effect [OF log, of "[0..<16]" s] len by (auto simp del: upt_rec_numeral)
  have "plugin_table s' ! j = (if ticks (plugin_table s ! j) then ticked (res j) (plugin_table s ! j) else plugin_table s ! j)" if "j < 16" for j
    using s'(5) that by (simp del: upt_rec_numeral)
  then show ?thesis
    using s'(1-4) unfolding plugin_tick_all_def plugin_count_def ticks_def
    by (intro exI [of _ s'] exI [of _ res]) (simp add: Let_def ticked_def del: upt_rec_numeral)
qed

text \<open>One ACTIVE plugin, whose tick fails.\<close>

theorem plugin_tick_all_correct_witness:
  "\<exists>s'. plugin_tick_all (log_plugin (\<lambda>_. AURA_ERR)) (demo_loaded\<lparr>plugin_table := [demo_slot\<lparr>p_state := PLUGIN_STATE_ACTIVE\<rparr>] @ replicate 15 demo_slot\<rparr>) = Some s' \<and>
     map fst (dev s') = [Hello_tick] \<and> p_tick_count (plugin_table s' ! 0) = 1"
proof -
  let ?s = "demo_loaded\<lparr>plugin_table := [demo_slot\<lparr>p_state := PLUGIN_STATE_ACTIVE\<rparr>] @ replicate 15 demo_slot\<rparr>"
  have len: "length (plugin_table ?s) = 16" by simp
  have p: "d_tick (p_desc demo_slot) = Some Hello_tick" "p_tick_count demo_slot = 0" "p_state demo_slot = PLUGIN_STATE_LOADED" "dev demo_loaded = []"
    by (simp_all add: demo_slot_def demo_desc_def demo_loaded_def demo_plugins_def)
  have "(p_state (plugin_table ?s ! j) = PLUGIN_STATE_ACTIVE \<and> d_tick (p_desc (plugin_table ?s ! j)) \<noteq> None) = (j = 0)" if "j < 16" for j
    using that p by (cases j) simp_all
  then have "filter (\<lambda>j. p_state (plugin_table ?s ! j) = PLUGIN_STATE_ACTIVE \<and> d_tick (p_desc (plugin_table ?s ! j)) \<noteq> None) [0..<16] = filter (\<lambda>j. j = 0) [0..<16]"
    by (intro filter_cong) auto
  also have "\<dots> = [0]" by (simp add: upt_conv_Cons filter_empty_conv)
  finally have f: "filter (\<lambda>j. p_state (plugin_table ?s ! j) = PLUGIN_STATE_ACTIVE \<and> d_tick (p_desc (plugin_table ?s ! j)) \<noteq> None) [0..<16] = [0]" .
  obtain s' res where s': "plugin_tick_all (log_plugin (\<lambda>_. AURA_ERR)) ?s = Some s'"
    "dev s' = dev ?s @ map (\<lambda>j. (the (d_tick (p_desc (plugin_table ?s ! j))), res j)) [0]"
    "\<forall>j < 16. let p = plugin_table ?s ! j; p' = plugin_table s' ! j in
       if p_state p = PLUGIN_STATE_ACTIVE \<and> d_tick (p_desc p) \<noteq> None
       then p_desc p' = p_desc p \<and> p_load_tick p' = p_load_tick p \<and> p_tick_count p' = p_tick_count p + 1 \<and>
            p_error_count p' = p_error_count p + (if res j = AURA_OK then 0 else 1) \<and>
            (res j = AURA_OK \<longrightarrow> p_state p' = PLUGIN_STATE_ACTIVE)
       else p' = p"
    using plugin_tick_all_correct [OF log_plugin_logged len, of "\<lambda>_. AURA_ERR", unfolded f] by (elim exE conjE) (rule that)
  have z: "plugin_table ?s ! 0 = demo_slot\<lparr>p_state := PLUGIN_STATE_ACTIVE\<rparr>" "dev ?s = []" using p(4) by simp_all
  have "map fst (dev s') = [Hello_tick]" using s'(2) p(1) unfolding z by simp
  moreover have "p_tick_count (plugin_table s' ! 0) = 1" using s'(3) [THEN spec, of 0] p(1,2) unfolding z Let_def by (simp split: if_splits)
  ultimately show ?thesis using s'(1) by (intro exI [of _ s'] conjI)
qed

end
