(* ===== verification/Scheduler.thy ===== *)
theory Scheduler
  imports Plugin
begin

text \<open>
  \<^verbatim>\<open>kernel/scheduler.c\<close>: the cooperative scheduler. The tasks the kernel installs are the functions
  named by \<open>task_fn\<close>; what a task does is the parameter \<open>run\<close>. A task may return, stop the processor
  (the menu can shut the kernel down) or spin forever on a device. The theorems on the tick are stated
  for tasks that return and leave the scheduler's own variables alone (\<open>cooperative\<close>), as all tasks
  of the repository do.
\<close>

section \<open>State\<close>

abbreviation SCHED_MAX_TASKS :: nat where "SCHED_MAX_TASKS \<equiv> 16"
abbreviation TASK_NAME_LEN :: nat where "TASK_NAME_LEN \<equiv> 16"

datatype task_state_t =
    TASK_STATE_EMPTY | TASK_STATE_READY | TASK_STATE_RUNNING | TASK_STATE_BLOCKED | TASK_STATE_ZOMBIE

datatype task_fn =
    Kernel_heartbeat | Eventbus_process | Mirror_sync | Plugin_tick_all | Keyboard_poll | Menu_tick | Serial_poll

record task_t =
  tk_name :: string
  tk_fn :: "task_fn option"
  tk_state :: task_state_t
  tk_tick_count :: u32
  tk_period :: u32
  tk_last_run :: u32

record 'd sched_st = "'d plugin_st" +
  task_table :: "task_t list"
  task_count_val :: int
  sched_tick :: u32

type_synonym ('d, 'z) task_run =
  "task_fn \<Rightarrow> ('d, 'z) sched_st_scheme \<Rightarrow> ('d, 'z) sched_st_scheme run_result option"

section \<open>Operations\<close>

definition set_task :: "nat \<Rightarrow> (task_t \<Rightarrow> task_t) \<Rightarrow> ('d, 'z) sched_st_scheme \<Rightarrow> ('d, 'z) sched_st_scheme" where
  "set_task i f s = s\<lparr>task_table := (task_table s)[i := f (task_table s ! i)]\<rparr>"

definition scheduler_init :: "('d, 'z) sched_st_scheme \<Rightarrow> ('d, 'z) sched_st_scheme" where
  "scheduler_init s =
     (fold (\<lambda>i. set_task i (\<lambda>t. t\<lparr>tk_state := TASK_STATE_EMPTY, tk_tick_count := 0\<rparr>)) [0..<SCHED_MAX_TASKS] s)
       \<lparr>task_count_val := 0, sched_tick := 0\<rparr>"

definition scheduler_add_task ::
    "string option \<Rightarrow> task_fn option \<Rightarrow> u32 \<Rightarrow> ('d, 'z) sched_st_scheme \<Rightarrow> aura_status_t \<times> ('d, 'z) sched_st_scheme" where
  "scheduler_add_task name fn period s =
     (case (name, fn) of
        (Some name, Some fn) \<Rightarrow>
          (if int SCHED_MAX_TASKS \<le> task_count_val s then (AURA_NOSLOT, s)
           else case find_index (\<lambda>t. tk_state t = TASK_STATE_EMPTY) (task_table s) of
                  None \<Rightarrow> (AURA_NOSLOT, s)
                | Some slot \<Rightarrow>
                    (AURA_OK,
                     (set_task slot (\<lambda>t. t\<lparr>tk_name := set_name (tk_name t) name TASK_NAME_LEN, tk_fn := Some fn,
                                          tk_state := TASK_STATE_READY, tk_period := period, tk_last_run := 0,
                                          tk_tick_count := 0\<rparr>) s)
                       \<lparr>task_count_val := task_count_val s + 1\<rparr>))
      | _ \<Rightarrow> (AURA_ERR, s))"

definition task_used :: "task_t \<Rightarrow> bool" where
  "task_used t \<longleftrightarrow> tk_state t \<noteq> TASK_STATE_EMPTY"

definition scheduler_remove_task ::
    "string option \<Rightarrow> ('d, 'z) sched_st_scheme \<Rightarrow> aura_status_t \<times> ('d, 'z) sched_st_scheme" where
  "scheduler_remove_task name s =
     (case table_find task_used tk_name TASK_NAME_LEN (task_table s) name of
        None \<Rightarrow> (AURA_NOTFOUND, s)
      | Some i \<Rightarrow> (AURA_OK, (set_task i (\<lambda>t. t\<lparr>tk_state := TASK_STATE_ZOMBIE\<rparr>) s)
                            \<lparr>task_count_val := task_count_val s - 1\<rparr>))"

text \<open>The first loop of the tick.\<close>

definition reap_slot :: "nat \<Rightarrow> ('d, 'z) sched_st_scheme \<Rightarrow> ('d, 'z) sched_st_scheme" where
  "reap_slot i s =
     (if tk_state (task_table s ! i) = TASK_STATE_ZOMBIE
      then set_task i (\<lambda>t. t\<lparr>tk_state := TASK_STATE_EMPTY\<rparr>) s else s)"

text \<open>The body of the second loop; \<open>and_then\<close> goes on after a task that returns. A null function pointer
  cannot be stored by \<^const>\<open>scheduler_add_task\<close>; calling one is outside the model and given no result.\<close>

definition task_due :: "u32 \<Rightarrow> task_t \<Rightarrow> bool" where
  "task_due now t \<longleftrightarrow> tk_state t = TASK_STATE_READY \<and> (tk_period t = 0 \<or> tk_period t \<le> now - tk_last_run t)"

definition run_slot :: "('d, 'z) task_run \<Rightarrow> nat \<Rightarrow> ('d, 'z) sched_st_scheme \<Rightarrow> ('d, 'z) sched_st_scheme run_result option" where
  "run_slot run i s =
     (if task_due (sched_tick s) (task_table s ! i) then
        (let s = set_task i (\<lambda>t. t\<lparr>tk_state := TASK_STATE_RUNNING, tk_last_run := sched_tick s\<rparr>) s
         in and_then (case tk_fn (task_table s ! i) of None \<Rightarrow> None | Some fn \<Rightarrow> run fn s)
              (\<lambda>s. Some (Ret (set_task i (\<lambda>t. t\<lparr>tk_tick_count := tk_tick_count t + 1, tk_state := TASK_STATE_READY\<rparr>) s))))
      else Some (Ret s))"

primrec run_slots :: "('d, 'z) task_run \<Rightarrow> nat list \<Rightarrow> ('d, 'z) sched_st_scheme \<Rightarrow> ('d, 'z) sched_st_scheme run_result option" where
  "run_slots run [] s = Some (Ret s)"
| "run_slots run (i # is) s = and_then (run_slot run i s) (run_slots run is)"

definition scheduler_tick :: "('d, 'z) task_run \<Rightarrow> ('d, 'z) sched_st_scheme \<Rightarrow> ('d, 'z) sched_st_scheme run_result option" where
  "scheduler_tick run s =
     (let s = s\<lparr>sched_tick := sched_tick s + 1\<rparr>;
          s = fold reap_slot [0..<SCHED_MAX_TASKS] s
      in and_then (run_slots run [0..<SCHED_MAX_TASKS] s)
           (\<lambda>s. Some (Ret (snd (eventbus_publish TOPIC_SCHEDULER_SWITCH (sched_tick s) s)))))"

definition scheduler_task_count :: "('d, 'z) sched_st_scheme \<Rightarrow> int" where
  "scheduler_task_count s = task_count_val s"

definition scheduler_list_slot :: "'d io_dev \<Rightarrow> task_t \<Rightarrow> ('d, 'z) sched_st_scheme \<Rightarrow> ('d, 'z) sched_st_scheme option" where
  "scheduler_list_slot D t s =
     (if tk_state t = TASK_STATE_EMPTY then Some s
      else do { s \<leftarrow> vga_print D (Some ''  ['') s;
                s \<leftarrow> vga_print D (Some (tk_name t)) s;
                s \<leftarrow> vga_print D (Some ''] state='') s;
                s \<leftarrow> vga_print D (Some (case tk_state t of
                        TASK_STATE_READY \<Rightarrow> ''READY''
                      | TASK_STATE_RUNNING \<Rightarrow> ''RUNNING''
                      | TASK_STATE_BLOCKED \<Rightarrow> ''BLOCKED''
                      | _ \<Rightarrow> ''?'')) s;
                s \<leftarrow> vga_print D (Some '' period='') s;
                s \<leftarrow> vga_print_dec D (tk_period t) s;
                s \<leftarrow> vga_print D (Some '' runs='') s;
                s \<leftarrow> vga_print_dec D (tk_tick_count t) s;
                vga_putchar D LF s })"

primrec scheduler_list_loop :: "'d io_dev \<Rightarrow> task_t list \<Rightarrow> ('d, 'z) sched_st_scheme \<Rightarrow> ('d, 'z) sched_st_scheme option" where
  "scheduler_list_loop D [] s = Some s"
| "scheduler_list_loop D (t # ts) s = do { s \<leftarrow> scheduler_list_slot D t s; scheduler_list_loop D ts s }"

text \<open>Printing leaves the table alone, so the loop runs over the tasks it starts with.\<close>

definition scheduler_list :: "'d io_dev \<Rightarrow> ('d, 'z) sched_st_scheme \<Rightarrow> ('d, 'z) sched_st_scheme option" where
  "scheduler_list D s =
     do { s \<leftarrow> vga_println D (Some ''--- Scheduler Tasks ---'') s; scheduler_list_loop D (task_table s) s }"

section \<open>One tick\<close>

lemma set_task_fields [simp]:
  "task_table (set_task i f s) = (task_table s)[i := f (task_table s ! i)]"
  "task_count_val (set_task i f s) = task_count_val s"
  "sched_tick (set_task i f s) = sched_tick s"
  "dev (set_task i f s) = dev s"
  by (simp_all add: set_task_def)

lemma publish_sched_fields [simp]:
  "task_table (snd (eventbus_publish t x s)) = task_table s"
  "task_count_val (snd (eventbus_publish t x s)) = task_count_val s"
  "sched_tick (snd (eventbus_publish t x s)) = sched_tick s"
  "dev (snd (eventbus_publish t x s)) = dev s"
  by (simp_all add: eventbus_publish_def)

text \<open>Reaping acts on every slot of the table.\<close>

definition reaped :: "task_t \<Rightarrow> task_t" where
  "reaped t = (if tk_state t = TASK_STATE_ZOMBIE then t\<lparr>tk_state := TASK_STATE_EMPTY\<rparr> else t)"

lemma reap_slot_eq: "reap_slot i s = s\<lparr>task_table := (task_table s)[i := reaped (task_table s ! i)]\<rparr>"
  by (simp add: reap_slot_def reaped_def set_task_def)

lemma fold_reap_slot:
  "n \<le> length (task_table s) \<Longrightarrow>
   fold reap_slot [0..<n] s = s\<lparr>task_table := map reaped (take n (task_table s)) @ drop n (task_table s)\<rparr>"
proof (induction n)
  case 0
  then show ?case by simp
next
  case (Suc n)
  let ?t = "task_table s"
  have d: "drop n ?t = ?t ! n # drop (Suc n) ?t" using Suc.prems by (simp add: Cons_nth_drop_Suc)
  have "fold reap_slot [0..<Suc n] s = reap_slot n (s\<lparr>task_table := map reaped (take n ?t) @ drop n ?t\<rparr>)"
    using Suc by simp
  also have "\<dots> = s\<lparr>task_table := map reaped (take (Suc n) ?t) @ drop (Suc n) ?t\<rparr>"
    using Suc.prems by (simp add: reap_slot_eq d nth_append list_update_append take_Suc_conv_app_nth)
  finally show ?case .
qed

text \<open>Tasks that return, leave the scheduler alone, and are recorded by \<open>log\<close> in the outside world.\<close>

definition cooperative :: "('d, 'z) task_run \<Rightarrow> ('d \<Rightarrow> task_fn list) \<Rightarrow> bool" where
  "cooperative run log \<longleftrightarrow>
     (\<forall>fn s. \<exists>s'. run fn s = Some (Ret s') \<and> task_table s' = task_table s \<and>
        task_count_val s' = task_count_val s \<and> sched_tick s' = sched_tick s \<and> log (dev s') = log (dev s) @ [fn])"

lemma cooperativeD:
  "cooperative run log \<Longrightarrow> \<exists>s'. run fn s = Some (Ret s') \<and> task_table s' = task_table s \<and>
     task_count_val s' = task_count_val s \<and> sched_tick s' = sched_tick s \<and> log (dev s') = log (dev s) @ [fn]"
  by (simp add: cooperative_def)

text \<open>What a tick at time \<open>now\<close> makes of a task, and the function it calls for it.\<close>

definition task_after :: "u32 \<Rightarrow> task_t \<Rightarrow> task_t" where
  "task_after now t =
     (if task_due now t then t\<lparr>tk_last_run := now, tk_tick_count := tk_tick_count t + 1\<rparr> else reaped t)"

definition task_calls :: "u32 \<Rightarrow> task_t \<Rightarrow> task_fn list" where
  "task_calls now t = (if task_due now t then [the (tk_fn t)] else [])"

lemma task_after_reaped: "task_after now (reaped t) = task_after now t"
  by (auto simp: task_after_def reaped_def task_due_def)

lemma task_calls_reaped: "task_calls now (reaped t) = task_calls now t"
  by (simp add: task_calls_def reaped_def task_due_def)

lemma reaped_idem: "reaped (reaped t) = reaped t"
  by (simp add: reaped_def)

definition callable :: "task_t \<Rightarrow> bool" where
  "callable t \<longleftrightarrow> (tk_state t = TASK_STATE_READY \<longrightarrow> tk_fn t \<noteq> None)"

lemma run_slot_effect:
  assumes co: "cooperative run log" and i: "i < length (task_table s)" and t: "task_table s ! i = reaped u" and c: "callable u"
  shows "\<exists>s'. run_slot run i s = Some (Ret s') \<and> task_table s' = (task_table s)[i := task_after (sched_tick s) u] \<and>
    task_count_val s' = task_count_val s \<and> sched_tick s' = sched_tick s \<and>
    log (dev s') = log (dev s) @ task_calls (sched_tick s) u"
proof (cases "task_due (sched_tick s) (reaped u)")
  case False
  then have "task_after (sched_tick s) u = reaped u" "task_calls (sched_tick s) u = []"
    using task_after_reaped [of "sched_tick s" u] task_calls_reaped [of "sched_tick s" u] reaped_idem [of u]
    by (simp_all add: task_after_def task_calls_def)
  moreover have "(task_table s)[i := reaped u] = task_table s" using t by (metis list_update_id)
  ultimately show ?thesis using False t by (simp add: run_slot_def)
next
  case True
  then have ready: "tk_state u = TASK_STATE_READY" and ru: "reaped u = u" and due: "task_due (sched_tick s) u"
    by (auto simp: task_due_def reaped_def split: if_splits)
  obtain fn where fn: "tk_fn u = Some fn" using c ready by (auto simp: callable_def)
  let ?s = "set_task i (\<lambda>t. t\<lparr>tk_state := TASK_STATE_RUNNING, tk_last_run := sched_tick s\<rparr>) s"
  obtain v where v: "run fn ?s = Some (Ret v)" "task_table v = task_table ?s"
    "task_count_val v = task_count_val ?s" "sched_tick v = sched_tick ?s" "log (dev v) = log (dev ?s) @ [fn]"
    using cooperativeD [OF co] by blast
  have "run_slot run i s = Some (Ret (set_task i (\<lambda>t. t\<lparr>tk_tick_count := tk_tick_count t + 1, tk_state := TASK_STATE_READY\<rparr>) v))"
    using True t i fn ru v(1) by (simp add: run_slot_def Let_def)
  moreover have "u\<lparr>tk_last_run := l, tk_tick_count := n, tk_state := TASK_STATE_READY\<rparr> = u\<lparr>tk_last_run := l, tk_tick_count := n\<rparr>" for l n
    using ready by (cases u) simp
  ultimately show ?thesis using v i t ru due fn by (simp add: task_after_def task_calls_def)
qed

lemma run_slots_effect:
  assumes co: "cooperative run log"
  shows "distinct is \<Longrightarrow> (\<forall>j \<in> set is. j < length (task_table s) \<and> task_table s ! j = reaped (ts ! j) \<and> callable (ts ! j)) \<Longrightarrow>
    \<exists>s'. run_slots run is s = Some (Ret s') \<and> length (task_table s') = length (task_table s) \<and>
      (\<forall>j. task_table s' ! j = (if j \<in> set is then task_after (sched_tick s) (ts ! j) else task_table s ! j)) \<and>
      task_count_val s' = task_count_val s \<and> sched_tick s' = sched_tick s \<and>
      log (dev s') = log (dev s) @ concat (map (\<lambda>j. task_calls (sched_tick s) (ts ! j)) is)"
proof (induction "is" arbitrary: s)
  case Nil
  then show ?case by simp
next
  case (Cons i "is")
  obtain u where u: "run_slot run i s = Some (Ret u)" "task_table u = (task_table s)[i := task_after (sched_tick s) (ts ! i)]"
    "task_count_val u = task_count_val s" "sched_tick u = sched_tick s"
    "log (dev u) = log (dev s) @ task_calls (sched_tick s) (ts ! i)"
    using run_slot_effect [OF co, of i s "ts ! i"] Cons.prems by auto
  have "\<forall>j \<in> set is. j < length (task_table u) \<and> task_table u ! j = reaped (ts ! j) \<and> callable (ts ! j)"
    using Cons.prems u(2) by (auto simp: nth_list_update)
  then obtain s' where s': "run_slots run is u = Some (Ret s')" "length (task_table s') = length (task_table u)"
    "\<forall>j. task_table s' ! j = (if j \<in> set is then task_after (sched_tick u) (ts ! j) else task_table u ! j)"
    "task_count_val s' = task_count_val u" "sched_tick s' = sched_tick u"
    "log (dev s') = log (dev u) @ concat (map (\<lambda>j. task_calls (sched_tick u) (ts ! j)) is)"
    using Cons.IH [of u] Cons.prems(1) by auto
  have "task_table s' ! j = (if j \<in> set (i # is) then task_after (sched_tick s) (ts ! j) else task_table s ! j)" for j
    using s'(3) u(2,4) Cons.prems by (cases "j = i") auto
  then show ?case using u s' by simp
qed

lemma scheduler_tick_effect:
  assumes co: "cooperative run log" and len: "length (task_table s) = 16" and c: "\<forall>t \<in> set (task_table s). callable t"
  shows "\<exists>s'. scheduler_tick run s = Some (Ret s') \<and>
    task_table s' = map (task_after (sched_tick s + 1)) (task_table s) \<and>
    task_count_val s' = task_count_val s \<and> sched_tick s' = sched_tick s + 1 \<and>
    log (dev s') = log (dev s) @ concat (map (task_calls (sched_tick s + 1)) (task_table s))"
proof -
  define r where "r = fold reap_slot [0..<16] (s\<lparr>sched_tick := sched_tick s + 1\<rparr>)"
  have r: "task_table r = map reaped (task_table s)" "task_count_val r = task_count_val s" "sched_tick r = sched_tick s + 1"
    "dev r = dev s"
    unfolding r_def using fold_reap_slot [of 16 "s\<lparr>sched_tick := sched_tick s + 1\<rparr>"] len by (simp_all del: upt_rec_numeral)
  have "\<forall>j \<in> set [0..<16]. j < length (task_table r) \<and> task_table r ! j = reaped (task_table s ! j) \<and> callable (task_table s ! j)"
    using r(1) len c by (simp del: upt_rec_numeral)
  then obtain v where v: "run_slots run [0..<16] r = Some (Ret v)" "length (task_table v) = length (task_table r)"
    "\<forall>j. task_table v ! j = (if j \<in> set [0..<16] then task_after (sched_tick r) (task_table s ! j) else task_table r ! j)"
    "task_count_val v = task_count_val r" "sched_tick v = sched_tick r"
    "log (dev v) = log (dev r) @ concat (map (\<lambda>j. task_calls (sched_tick r) (task_table s ! j)) [0..<16])"
    using run_slots_effect [OF co, of "[0..<16]" r "task_table s"] by (auto simp del: upt_rec_numeral)
  have "task_table v = map (task_after (sched_tick s + 1)) (task_table s)"
    using v(2,3) r len by (intro nth_equalityI) (simp_all del: upt_rec_numeral)
  moreover have "map (\<lambda>j. task_calls (sched_tick r) (task_table s ! j)) [0..<16] = map (task_calls (sched_tick s + 1)) (task_table s)"
    using r len map_nth [of "map (task_calls (sched_tick s + 1)) (task_table s)"]
    by (auto intro: nth_equalityI simp del: upt_rec_numeral)
  ultimately show ?thesis using v r
    by (auto simp: scheduler_tick_def Let_def r_def [symmetric] simp del: upt_rec_numeral)
qed

section \<open>Many ticks\<close>

primrec scheduler_ticks :: "('d, 'z) task_run \<Rightarrow> nat \<Rightarrow> ('d, 'z) sched_st_scheme \<Rightarrow> ('d, 'z) sched_st_scheme run_result option" where
  "scheduler_ticks run 0 s = Some (Ret s)"
| "scheduler_ticks run (Suc n) s = and_then (scheduler_ticks run n s) (scheduler_tick run)"

text \<open>The time a task has waited, and the runs of a task with period \<open>p\<close> that has waited \<open>e\<close> ticks, in \<open>n\<close> ticks.\<close>

definition waited :: "u32 \<Rightarrow> task_t \<Rightarrow> nat" where
  "waited now t = unat (now - tk_last_run t)"

definition runs_in :: "nat \<Rightarrow> nat \<Rightarrow> nat \<Rightarrow> nat" where
  "runs_in p e n = (if p = 0 then n else (e + n) div p)"

lemma task_after_waited:
  assumes "tk_state t = TASK_STATE_READY" "0 < tk_period t" "waited now t < unat (tk_period t)"
  shows "waited (now + 1) (task_after (now + 1) t) = Suc (waited now t) mod unat (tk_period t)"
    "tk_tick_count (task_after (now + 1) t) = tk_tick_count t + of_nat (Suc (waited now t) div unat (tk_period t))"
proof -
  let ?p = "unat (tk_period t)" and ?e = "waited now t"
  have "?p < 2 ^ 32" using unsigned_less [of "tk_period t", where ?'a = nat] by simp
  then have e1: "unat (now + 1 - tk_last_run t) = Suc ?e"
    using assms(3) unat_Suc_less [of "now - tk_last_run t"] by (simp add: waited_def algebra_simps)
  have due: "task_due (now + 1) t \<longleftrightarrow> ?p \<le> Suc ?e"
    using assms(1,2) e1 by (auto simp: task_due_def word_le_nat_alt)
  show "waited (now + 1) (task_after (now + 1) t) = Suc ?e mod ?p"
    using assms due e1 by (cases "Suc ?e = ?p") (simp_all add: task_after_def waited_def reaped_def)
  show "tk_tick_count (task_after (now + 1) t) = tk_tick_count t + of_nat (Suc ?e div ?p)"
    using assms due by (cases "Suc ?e = ?p") (simp_all add: task_after_def reaped_def)
qed

lemma task_after_kept:
  assumes "tk_state t = TASK_STATE_READY"
  shows "tk_state (task_after now t) = TASK_STATE_READY" "tk_period (task_after now t) = tk_period t" "callable (task_after now t) = callable t"
  using assms by (auto simp: task_after_def reaped_def callable_def)

lemma callable_after: "callable t \<Longrightarrow> callable (task_after now t)"
  by (auto simp: task_after_def reaped_def callable_def)


text \<open>An observed task over \<open>n\<close> ticks.\<close>

lemma scheduler_ticks_task:
  assumes co: "cooperative run log" and len: "length (task_table s) = 16" and c: "\<forall>t \<in> set (task_table s). callable t"
    and i: "i < 16" and t: "task_table s ! i = t" "tk_state t = TASK_STATE_READY"
      "tk_period t = 0 \<or> waited (sched_tick s) t < unat (tk_period t)"
  shows "\<exists>s' t'. scheduler_ticks run n s = Some (Ret s') \<and> sched_tick s' = sched_tick s + of_nat n \<and>
    length (task_table s') = 16 \<and> (\<forall>t \<in> set (task_table s'). callable t) \<and> task_table s' ! i = t' \<and>
    tk_state t' = TASK_STATE_READY \<and> tk_period t' = tk_period t \<and>
    tk_tick_count t' = tk_tick_count t + of_nat (runs_in (unat (tk_period t)) (waited (sched_tick s) t) n) \<and>
    (tk_period t \<noteq> 0 \<longrightarrow> waited (sched_tick s') t' = (waited (sched_tick s) t + n) mod unat (tk_period t))"
proof (induction n)
  case 0
  then show ?case using len c t by (auto simp: runs_in_def)
next
  case (Suc n)
  let ?p = "unat (tk_period t)" and ?e = "waited (sched_tick s) t"
  obtain u v where u: "scheduler_ticks run n s = Some (Ret u)" "sched_tick u = sched_tick s + of_nat n"
    "length (task_table u) = 16" "\<forall>t \<in> set (task_table u). callable t" "task_table u ! i = v"
    and v: "tk_state v = TASK_STATE_READY" "tk_period v = tk_period t"
      "tk_tick_count v = tk_tick_count t + of_nat (runs_in ?p ?e n)"
      "tk_period t \<noteq> 0 \<longrightarrow> waited (sched_tick u) v = (?e + n) mod ?p"
    using Suc.IH by blast
  obtain s' where s': "scheduler_tick run u = Some (Ret s')" "task_table s' = map (task_after (sched_tick u + 1)) (task_table u)"
    "sched_tick s' = sched_tick u + 1"
    using scheduler_tick_effect [OF co u(3,4)] by blast
  let ?v = "task_after (sched_tick u + 1) v"
  have "tk_tick_count ?v = tk_tick_count t + of_nat (runs_in ?p ?e (Suc n)) \<and>
      (tk_period t \<noteq> 0 \<longrightarrow> waited (sched_tick s') ?v = (?e + Suc n) mod ?p)"
  proof (cases "tk_period t = 0")
    case True
    then show ?thesis using v by (simp add: task_after_def task_due_def runs_in_def)
  next
    case False
    then have p: "0 < ?p" by (simp add: unat_gt_0)
    have d: "(?e + Suc n) div ?p = (?e + n) div ?p + Suc ((?e + n) mod ?p) div ?p" (is "_ = ?q + _")
    proof -
      have "?e + Suc n = Suc ((?e + n) mod ?p) + ?p * ?q" using div_mult_mod_eq [of "?e + n" ?p] by (simp add: mult.commute)
      then show ?thesis using p by (metis add.commute div_mult_self2 nat_neq_iff)
    qed
    have w: "waited (sched_tick u) v = (?e + n) mod ?p" using v(4) False by simp
    then have "waited (sched_tick u) v < unat (tk_period v)" using p v(2) by simp
    then show ?thesis
      using task_after_waited [OF v(1), of "sched_tick u"] v(2,3) w d False s'(3) p
      by (simp add: runs_in_def mod_Suc_eq word_gt_0)
  qed
  then show ?case using u(1,2,4) s' task_after_kept [OF v(1)] v(2) callable_after u(3,5) i
    by (intro exI [of _ s'] exI [of _ ?v]) auto
qed

section \<open>Invariant\<close>

definition task_live :: "task_t \<Rightarrow> bool" where
  "task_live t \<longleftrightarrow> tk_state t \<noteq> TASK_STATE_EMPTY \<and> tk_state t \<noteq> TASK_STATE_ZOMBIE"

definition task_ok :: "task_t \<Rightarrow> bool" where
  "task_ok t \<longleftrightarrow> length (tk_name t) = 16 \<and> callable t \<and> (task_used t \<longrightarrow> length (cstr (tk_name t)) < 16)"

definition sched_inv :: "('d, 'z) sched_st_scheme \<Rightarrow> bool" where
  "sched_inv s \<longleftrightarrow> length (task_table s) = 16 \<and> (\<forall>t \<in> set (task_table s). task_ok t) \<and>
     task_count_val s = int (length (filter task_live (task_table s)))"

lemma sched_inv_update:
  assumes inv: "sched_inv s" and i: "i < 16" and e: "task_ok e"
    and s': "task_table s' = (task_table s)[i := e]"
  shows "sched_inv s' \<longleftrightarrow> task_count_val s' = task_count_val s - of_bool (task_live (task_table s ! i)) + of_bool (task_live e)"
proof -
  have "\<forall>t \<in> set ((task_table s)[i := e]). task_ok t" using inv e set_update_subset_insert [of "task_table s" i e]
    by (auto simp: sched_inv_def)
  then show ?thesis using inv s' i length_filter_update [of i "task_table s" task_live e] by (simp add: sched_inv_def)
qed

section \<open>Properties\<close>

text \<open>A scheduler without tasks over a device that records the calls, for the concrete instances.\<close>

definition blank_task :: task_t where
  "blank_task = \<lparr>tk_name = replicate 16 NUL, tk_fn = None, tk_state = TASK_STATE_EMPTY, tk_tick_count = 0, tk_period = 0, tk_last_run = 0\<rparr>"

definition blank_sched :: "'d \<Rightarrow> 'z \<Rightarrow> ('d, 'z) sched_st_scheme" where
  "blank_sched d z = \<lparr>dev = d, mem = (\<lambda>_. 0), cr0 = 0, cr2 = 0,
     cr3 = 0, cr4 = 0, idtr = (0, 0), int_flag = False, g_kernel_state = KERNEL_STATE_INIT, g_tick_count = 0,
     heap_head = 0, vga_row = 0, vga_col = 0, vga_color = 0, g_serial_hook = None,
     idt_table = [], irq_handlers = [], shift_held = False, caps_active = False,
     kb_buf = [], kb_head = 0, kb_tail = 0, kb_count = 0,
     handlers = replicate 32 (replicate 8 0),
     queue = replicate 64 \<lparr>e_topic = 0, e_data = 0, e_timestamp = 0\<rparr>, q_head = 0, q_tail = 0, q_count = 0,
     plugin_table = plugin_table demo_plugins, plugin_count_val = 0,
     task_table = replicate 16 blank_task, task_count_val = 0, sched_tick = 0, \<dots> = z\<rparr>"

lemma blank_sched_fields [simp]:
  "task_table (blank_sched d z) = replicate 16 blank_task" "task_count_val (blank_sched d z) = 0"
  "sched_tick (blank_sched d z) = 0" "dev (blank_sched d z) = d"
  by (simp_all only: blank_sched_def sched_st.simps machine.simps)

lemma blank_sched_inv: "sched_inv (blank_sched d z)"
  unfolding sched_inv_def blank_sched_fields by (simp add: task_ok_def callable_def task_used_def task_live_def blank_task_def)

definition log_run :: "(task_fn list, 'z) task_run" where
  "log_run fn s = Some (Ret (s\<lparr>dev := dev s @ [fn]\<rparr>))"

lemma log_run_cooperative: "cooperative log_run (\<lambda>d. d)"
  by (simp add: cooperative_def log_run_def)

definition demo_task :: task_t where
  "demo_task = \<lparr>tk_name = ''pulse'' @ replicate 11 NUL, tk_fn = Some Kernel_heartbeat, tk_state = TASK_STATE_READY,
     tk_tick_count = 0, tk_period = 3, tk_last_run = 0\<rparr>"

definition demo_tasks :: "task_fn list sched_st" where
  "demo_tasks = (blank_sched [] ())\<lparr>task_table := demo_task # replicate 15 blank_task, task_count_val := 1\<rparr>"

lemma demo_tasks_fields:
  "task_table demo_tasks = demo_task # replicate 15 blank_task" "task_count_val demo_tasks = 1" "dev demo_tasks = []"
  "sched_tick demo_tasks = 0"
  by (simp_all add: demo_tasks_def)

lemma demo_tasks_inv: "sched_inv demo_tasks"
  unfolding sched_inv_def demo_tasks_fields
  by (simp add: task_ok_def callable_def task_used_def task_live_def blank_task_def demo_task_def cstr_def)

text \<open>Adding a task is refused with NOSLOT, without any effect, when every slot is taken; otherwise it fills
  the first empty slot with a READY task that has never run, whose stored name is the given name cut
  at 15 characters, and counts it. All other slots stay, and the scheduler's table stays in order (the
  counter equals the number of live tasks, every READY task has a function, every name is terminated).
  Null arguments are refused.\<close>

theorem scheduler_add_task_correct:
  assumes inv: "sched_inv s"
  shows "scheduler_add_task None fo p s = (AURA_ERR, s) \<and> scheduler_add_task no None p s = (AURA_ERR, s) \<and>
    (\<exists>r s'. scheduler_add_task (Some name) (Some fn) p s = (r, s') \<and> sched_inv s' \<and>
      (if \<forall>t \<in> set (task_table s). tk_state t \<noteq> TASK_STATE_EMPTY then r = AURA_NOSLOT \<and> s' = s
       else r = AURA_OK \<and> scheduler_task_count s' = scheduler_task_count s + 1 \<and>
         (\<exists>i nm. i < 16 \<and> tk_state (task_table s ! i) = TASK_STATE_EMPTY \<and>
            (\<forall>j < i. tk_state (task_table s ! j) \<noteq> TASK_STATE_EMPTY) \<and> cstr nm = take 15 (cstr name) \<and>
            task_table s' = (task_table s)[i := \<lparr>tk_name = nm, tk_fn = Some fn, tk_state = TASK_STATE_READY,
               tk_tick_count = 0, tk_period = p, tk_last_run = 0\<rparr>])))"
proof -
  let ?ts = "task_table s"
  have len: "length ?ts = 16" and cnt: "task_count_val s = int (length (filter task_live ?ts))"
    using inv by (simp_all add: sched_inv_def)
  have "\<exists>r s'. scheduler_add_task (Some name) (Some fn) p s = (r, s') \<and> sched_inv s' \<and>
      (if \<forall>t \<in> set (task_table s). tk_state t \<noteq> TASK_STATE_EMPTY then r = AURA_NOSLOT \<and> s' = s
       else r = AURA_OK \<and> scheduler_task_count s' = scheduler_task_count s + 1 \<and>
         (\<exists>i nm. i < 16 \<and> tk_state (task_table s ! i) = TASK_STATE_EMPTY \<and>
            (\<forall>j < i. tk_state (task_table s ! j) \<noteq> TASK_STATE_EMPTY) \<and> cstr nm = take 15 (cstr name) \<and>
            task_table s' = (task_table s)[i := \<lparr>tk_name = nm, tk_fn = Some fn, tk_state = TASK_STATE_READY,
               tk_tick_count = 0, tk_period = p, tk_last_run = 0\<rparr>]))"
  proof (cases "find_index (\<lambda>t. tk_state t = TASK_STATE_EMPTY) ?ts")
    case None
    then have "\<forall>t \<in> set ?ts. tk_state t \<noteq> TASK_STATE_EMPTY" by (simp add: find_index_None)
    moreover have "scheduler_add_task (Some name) (Some fn) p s = (AURA_NOSLOT, s)" using None by (simp add: scheduler_add_task_def)
    ultimately show ?thesis using inv by simp
  next
    case (Some i)
    have i: "i < 16" "tk_state (?ts ! i) = TASK_STATE_EMPTY" "\<forall>j < i. tk_state (?ts ! j) \<noteq> TASK_STATE_EMPTY"
      using find_index_Some [OF Some] len by auto
    then have "\<not> (\<forall>t \<in> set ?ts. tk_state t \<noteq> TASK_STATE_EMPTY)" using len by (metis nth_mem)
    have "filter task_live ?ts \<noteq> ?ts" using i len by (metis filter_id_conv nth_mem task_live_def)
    then have "length (filter task_live ?ts) < 16" using len
      by (metis filter_True length_filter_le length_filter_less nat_less_le filter_id_conv)
    then have lt: "task_count_val s < 16" using cnt by simp
    have tok: "task_ok (?ts ! i)" using inv i len by (simp add: sched_inv_def)
    define nm where "nm = set_name (tk_name (?ts ! i)) name 16"
    let ?e = "\<lparr>tk_name = nm, tk_fn = Some fn, tk_state = TASK_STATE_READY, tk_tick_count = 0, tk_period = p, tk_last_run = 0\<rparr>"
    have nm: "length nm = 16" "cstr nm = take 15 (cstr name)"
      using tok by (simp_all add: nm_def task_ok_def cstr_set_name)
    have e: "t\<lparr>tk_name := n, tk_fn := f, tk_state := st, tk_period := q, tk_last_run := l, tk_tick_count := c\<rparr> =
        \<lparr>tk_name = n, tk_fn = f, tk_state = st, tk_tick_count = c, tk_period = q, tk_last_run = l\<rparr>" for t n f st q l c
      by (cases t) simp
    define s' where "s' = snd (scheduler_add_task (Some name) (Some fn) p s)"
    have s': "scheduler_add_task (Some name) (Some fn) p s = (AURA_OK, s')" "task_table s' = ?ts[i := ?e]"
      "task_count_val s' = task_count_val s + 1"
      unfolding s'_def using Some lt by (simp_all add: scheduler_add_task_def e nm_def)
    have "task_ok ?e" using nm by (simp add: task_ok_def callable_def min_def)
    then have "sched_inv s'" using sched_inv_update [OF inv i(1) _ s'(2)] s'(3) i(2) by (simp add: task_live_def)
    then show ?thesis
      using s' i nm \<open>\<not> (\<forall>t \<in> set ?ts. _ t)\<close> by (auto simp: scheduler_task_count_def)
  qed
  then show ?thesis by (simp add: scheduler_add_task_def split: option.split)
qed

theorem scheduler_add_task_correct_witness:
  "\<exists>s'. scheduler_add_task (Some ''heartbeat'') (Some Kernel_heartbeat) 1 (blank_sched () ()) = (AURA_OK, s') \<and>
     scheduler_task_count s' = 1"
proof -
  have "\<not> (\<forall>t \<in> set (task_table (blank_sched () ())). tk_state t \<noteq> TASK_STATE_EMPTY)"
    "scheduler_task_count (blank_sched () ()) = 0"
    by (simp_all add: blank_task_def scheduler_task_count_def)
  then show ?thesis
    using scheduler_add_task_correct [OF blank_sched_inv [of "()" "()"], of None 1 None "''heartbeat''" Kernel_heartbeat] by auto
qed

text \<open>C33: removing a task marks the first used slot with that name as ZOMBIE and lowers the counter, and
  reports NOTFOUND without effect when no used slot has the name. The table stays in order unless that
  slot already was a ZOMBIE, which the search does not skip: removing a task twice before the next
  tick lowers the counter twice.\<close>

theorem scheduler_remove_task_correct:
  assumes inv: "sched_inv s"
  shows "\<exists>r s'. scheduler_remove_task (Some name) s = (r, s') \<and>
    (if \<forall>t \<in> set (task_table s). tk_state t \<noteq> TASK_STATE_EMPTY \<longrightarrow> cstr (tk_name t) \<noteq> cstr name
     then r = AURA_NOTFOUND \<and> s' = s
     else r = AURA_OK \<and> scheduler_task_count s' = scheduler_task_count s - 1 \<and>
       (\<exists>i < 16. let t = task_table s ! i in
          tk_state t \<noteq> TASK_STATE_EMPTY \<and> cstr (tk_name t) = cstr name \<and>
          (\<forall>j < i. tk_state (task_table s ! j) \<noteq> TASK_STATE_EMPTY \<longrightarrow> cstr (tk_name (task_table s ! j)) \<noteq> cstr name) \<and>
          task_table s' = (task_table s)[i := t\<lparr>tk_state := TASK_STATE_ZOMBIE\<rparr>] \<and>
          (sched_inv s' \<longleftrightarrow> tk_state t \<noteq> TASK_STATE_ZOMBIE)))"
proof -
  let ?ts = "task_table s"
  let ?m = "\<lambda>t. task_used t \<and> strncmp_k (Some (tk_name t)) (Some name) 16 = 0"
  have len: "length ?ts = 16" using inv by (simp add: sched_inv_def)
  have ok: "task_ok t" if "t \<in> set ?ts" for t using inv that by (simp add: sched_inv_def)
  have m: "?m t \<longleftrightarrow> tk_state t \<noteq> TASK_STATE_EMPTY \<and> cstr (tk_name t) = cstr name" if "t \<in> set ?ts" for t
    using ok [OF that] stored_name_match [of "tk_name t" 16 name] by (auto simp: task_ok_def task_used_def)
  show ?thesis
  proof (cases "find_index ?m ?ts")
    case None
    then have "\<forall>t \<in> set ?ts. tk_state t \<noteq> TASK_STATE_EMPTY \<longrightarrow> cstr (tk_name t) \<noteq> cstr name"
      unfolding find_index_None using m by blast
    then show ?thesis using None by (simp add: scheduler_remove_task_def table_find_def)
  next
    case (Some i)
    have i: "i < 16" "?m (?ts ! i)" "\<forall>j < i. \<not> ?m (?ts ! j)" using find_index_Some [OF Some] len by auto
    have mem: "?ts ! j \<in> set ?ts" if "j \<le> i" for j using that i(1) len by simp
    let ?e = "(?ts ! i)\<lparr>tk_state := TASK_STATE_ZOMBIE\<rparr>"
    define s' where "s' = snd (scheduler_remove_task (Some name) s)"
    have s': "scheduler_remove_task (Some name) s = (AURA_OK, s')" "task_table s' = ?ts[i := ?e]" "task_count_val s' = task_count_val s - 1"
      unfolding s'_def using Some by (simp_all add: scheduler_remove_task_def table_find_def)
    have "task_ok ?e" using ok [OF mem [of i]] i(2) by (simp add: task_ok_def callable_def task_used_def)
    then have "sched_inv s' \<longleftrightarrow> tk_state (?ts ! i) \<noteq> TASK_STATE_ZOMBIE"
      using sched_inv_update [OF inv i(1) _ s'(2)] s'(3) i(2) by (simp add: task_live_def task_used_def)
    moreover have "\<forall>j < i. tk_state (?ts ! j) \<noteq> TASK_STATE_EMPTY \<longrightarrow> cstr (tk_name (?ts ! j)) \<noteq> cstr name"
      using i(3) m [OF mem] by (meson less_imp_le)
    moreover have hit: "tk_state (?ts ! i) \<noteq> TASK_STATE_EMPTY" "cstr (tk_name (?ts ! i)) = cstr name"
      using i(2) m [OF mem] by blast+
    moreover have "\<not> (\<forall>t \<in> set ?ts. tk_state t \<noteq> TASK_STATE_EMPTY \<longrightarrow> cstr (tk_name t) \<noteq> cstr name)"
      using hit mem [of i] by blast
    ultimately show ?thesis using s' i(1) by (auto simp: scheduler_task_count_def Let_def)
  qed
qed

theorem scheduler_remove_task_correct_witness:
  "\<exists>s'. scheduler_remove_task (Some ''pulse'') demo_tasks = (AURA_OK, s') \<and> scheduler_task_count s' = 0"
proof -
  have h: "\<not> (\<forall>t \<in> set (task_table demo_tasks). tk_state t \<noteq> TASK_STATE_EMPTY \<longrightarrow> cstr (tk_name t) \<noteq> cstr ''pulse'')"
    "scheduler_task_count demo_tasks = 1"
    using demo_tasks_fields by (simp_all add: demo_task_def scheduler_task_count_def cstr_def)
  show ?thesis using scheduler_remove_task_correct [OF demo_tasks_inv, of "''pulse''"] unfolding if_not_P [OF h(1)] h(2) by auto
qed

text \<open>C9: with tasks that return and leave the scheduler alone, a tick returns after it has called the function of
  every due task exactly once and in slot order. A task is due when it is READY and its period is 0 or
  has passed since its last run. Due tasks get one more run counted and the new time as their last
  run, zombies become empty slots, everything else stays as it was.\<close>

theorem scheduler_tick_correct:
  assumes "cooperative run log" "sched_inv s"
  shows "\<exists>s'. scheduler_tick run s = Some (Ret s') \<and> sched_inv s' \<and> (let now = sched_tick s + 1 in
    sched_tick s' = now \<and>
    log (dev s') = log (dev s) @ map (the \<circ> tk_fn) (filter (task_due now) (task_table s)) \<and>
    (\<forall>i < 16. let t = task_table s ! i in task_table s' ! i =
       (if task_due now t then t\<lparr>tk_last_run := now, tk_tick_count := tk_tick_count t + 1\<rparr>
        else if tk_state t = TASK_STATE_ZOMBIE then t\<lparr>tk_state := TASK_STATE_EMPTY\<rparr> else t)))"
proof -
  let ?now = "sched_tick s + 1"
  have s: "length (task_table s) = 16" "\<forall>t \<in> set (task_table s). task_ok t" using assms(2) by (simp_all add: sched_inv_def)
  then have "\<forall>t \<in> set (task_table s). callable t" by (simp add: task_ok_def)
  then obtain s' where s': "scheduler_tick run s = Some (Ret s')" "task_table s' = map (task_after ?now) (task_table s)"
    "task_count_val s' = task_count_val s" "sched_tick s' = ?now"
    "log (dev s') = log (dev s) @ concat (map (task_calls ?now) (task_table s))"
    using scheduler_tick_effect [OF assms(1) s(1)] by blast
  have "concat (map (task_calls ?now) ts) = map (the \<circ> tk_fn) (filter (task_due ?now) ts)" for ts
    by (induction ts) (simp_all add: task_calls_def)
  moreover have "task_ok (task_after ?now t)" if "task_ok t" for t
    using that callable_after [of t ?now] by (auto simp: task_ok_def task_after_def reaped_def task_used_def)
  moreover have "task_live (task_after ?now t) = task_live t" for t
    by (auto simp: task_live_def task_after_def reaped_def task_due_def)
  ultimately have "sched_inv s'" "log (dev s') = log (dev s) @ map (the \<circ> tk_fn) (filter (task_due ?now) (task_table s))"
    using s s' assms(2) by (simp_all add: sched_inv_def filter_map comp_def)
  then show ?thesis using s(1) s' by (simp add: Let_def task_after_def reaped_def)
qed

theorem scheduler_tick_correct_witness:
  "\<exists>s'. scheduler_tick log_run (demo_tasks\<lparr>sched_tick := 2\<rparr>) = Some (Ret s') \<and> dev s' = [Kernel_heartbeat] \<and>
     tk_tick_count (task_table s' ! 0) = 1"
proof -
  let ?s = "demo_tasks\<lparr>sched_tick := 2\<rparr>"
  have inv: "sched_inv ?s" using demo_tasks_inv by (simp add: sched_inv_def)
  have "\<not> task_due 3 blank_task" "task_due 3 demo_task" by (simp_all add: task_due_def demo_task_def blank_task_def word_le_nat_alt)
  then have f: "map (the \<circ> tk_fn) (filter (task_due 3) (task_table ?s)) = [Kernel_heartbeat]" "task_due 3 (task_table ?s ! 0)" "dev ?s = []" "sched_tick ?s + 1 = 3"
    by (simp_all add: demo_tasks_fields) (simp add: demo_task_def)
  have n: "tk_tick_count (task_table ?s ! 0) = 0" using demo_tasks_fields(1) by simp (simp add: demo_task_def)
  obtain s' where s': "scheduler_tick log_run ?s = Some (Ret s')" "dev s' = [Kernel_heartbeat]"
      "task_table s' ! 0 = (task_table ?s ! 0)\<lparr>tk_last_run := 3, tk_tick_count := tk_tick_count (task_table ?s ! 0) + 1\<rparr>"
    using scheduler_tick_correct [OF log_run_cooperative inv] f by (auto simp: Let_def)
  have "tk_tick_count (task_table s' ! 0) = 1" unfolding s'(3) using n by simp
  then show ?thesis using s'(1,2) by blast
qed

text \<open>C8: a READY task with period \<open>p\<close> that is up to date (its last run is less than \<open>p\<close> ticks ago) is never
  starved: over any number \<open>n\<close> of ticks, and across the wrap-around of the 32-bit tick counter, it runs
  exactly \<open>(e + n) div p\<close> times, \<open>e\<close> being the ticks since its last run, and \<open>n\<close> times when the period is 0.\<close>

theorem scheduler_period_exact:
  assumes "cooperative run log" "sched_inv s" "i < 16" "task_table s ! i = t" "tk_state t = TASK_STATE_READY"
    "tk_period t = 0 \<or> sched_tick s - tk_last_run t < tk_period t"
  shows "\<exists>s' t'. scheduler_ticks run n s = Some (Ret s') \<and> task_table s' ! i = t' \<and> tk_state t' = TASK_STATE_READY \<and>
    tk_tick_count t' = tk_tick_count t +
      of_nat (if tk_period t = 0 then n else (unat (sched_tick s - tk_last_run t) + n) div unat (tk_period t))"
proof -
  have "length (task_table s) = 16" "\<forall>t \<in> set (task_table s). callable t" using assms(2) by (simp_all add: sched_inv_def task_ok_def)
  moreover have "tk_period t = 0 \<or> waited (sched_tick s) t < unat (tk_period t)"
    using assms(6) by (simp add: waited_def word_less_nat_alt)
  ultimately show ?thesis
    using scheduler_ticks_task [OF assms(1) _ _ assms(3-5), of n] by (auto simp: runs_in_def waited_def unat_eq_zero)
qed

theorem scheduler_period_exact_witness:
  "\<exists>s' t'. scheduler_ticks log_run 10 demo_tasks = Some (Ret s') \<and> task_table s' ! 0 = t' \<and> tk_tick_count t' = 3"
proof -
  have "task_table demo_tasks ! 0 = demo_task" "tk_state demo_task = TASK_STATE_READY" "tk_period demo_task = 3"
    "tk_last_run demo_task = 0" "tk_tick_count demo_task = 0" "sched_tick demo_tasks = 0"
    using demo_tasks_fields by (simp_all add: demo_task_def)
  then show ?thesis
    using scheduler_period_exact [OF log_run_cooperative demo_tasks_inv, of 0 demo_task 10] by auto
qed

end
