(* ===== verification/Ata.thy ===== *)
theory Ata
  imports Machine
begin

unbundle bit_operations_syntax

text \<open>
  \<^verbatim>\<open>adapters/ata.c\<close>: programmed I/O on the primary master drive. A C buffer is the list of its bytes;
  an operation that fills a buffer returns it. Every wait is bounded by the constant of the source, so
  all operations are total functions: a drive that stays busy gives \<^const>\<open>AURA_ERR\<close>.

  The drive is hardware: \<open>ata_ok\<close> states the documented protocol the code relies on (task-file
  registers, a busy phase of bounded length after each command and between sectors, 256 words per
  sector) for a drive with \<open>cap\<close> sectors, through a view of the device state, and \<open>ata_emu\<close> is an
  emulation. The locale \<open>block_device\<close> is what the file system above relies on: single sectors that
  are read back as they were last written.
\<close>

section \<open>Operations\<close>

abbreviation ATA_REG_DATA :: u16 where "ATA_REG_DATA \<equiv> 0x1F0"
abbreviation ATA_REG_FEATURES :: u16 where "ATA_REG_FEATURES \<equiv> 0x1F1"
abbreviation ATA_REG_SECCOUNT :: u16 where "ATA_REG_SECCOUNT \<equiv> 0x1F2"
abbreviation ATA_REG_LBA0 :: u16 where "ATA_REG_LBA0 \<equiv> 0x1F3"
abbreviation ATA_REG_LBA1 :: u16 where "ATA_REG_LBA1 \<equiv> 0x1F4"
abbreviation ATA_REG_LBA2 :: u16 where "ATA_REG_LBA2 \<equiv> 0x1F5"
abbreviation ATA_REG_HDSEL :: u16 where "ATA_REG_HDSEL \<equiv> 0x1F6"
abbreviation ATA_REG_STATUS :: u16 where "ATA_REG_STATUS \<equiv> 0x1F7"
abbreviation ATA_REG_COMMAND :: u16 where "ATA_REG_COMMAND \<equiv> 0x1F7"

abbreviation ATA_SR_ERR :: u8 where "ATA_SR_ERR \<equiv> 0x01"
abbreviation ATA_SR_DRQ :: u8 where "ATA_SR_DRQ \<equiv> 0x08"
abbreviation ATA_SR_DF :: u8 where "ATA_SR_DF \<equiv> 0x20"
abbreviation ATA_SR_BSY :: u8 where "ATA_SR_BSY \<equiv> 0x80"

abbreviation ATA_CMD_IDENTIFY :: u8 where "ATA_CMD_IDENTIFY \<equiv> 0xEC"
abbreviation ATA_CMD_READ_PIO :: u8 where "ATA_CMD_READ_PIO \<equiv> 0x20"
abbreviation ATA_CMD_WRITE_PIO :: u8 where "ATA_CMD_WRITE_PIO \<equiv> 0x30"

definition ATA_POLLS :: nat where "ATA_POLLS = 0x100000"

text \<open>The polling loops with the number of iterations left.\<close>

primrec poll_bsy_loop :: "'d io_dev \<Rightarrow> nat \<Rightarrow> ('d, 'z) machine_scheme \<Rightarrow> aura_status_t \<times> ('d, 'z) machine_scheme" where
  "poll_bsy_loop D 0 s = (AURA_ERR, s)"
| "poll_bsy_loop D (Suc n) s =
     (let (st, s) = inb D ATA_REG_STATUS s
      in if st AND ATA_SR_BSY = 0 then (AURA_OK, s) else poll_bsy_loop D n s)"

definition ata_poll_bsy :: "'d io_dev \<Rightarrow> ('d, 'z) machine_scheme \<Rightarrow> aura_status_t \<times> ('d, 'z) machine_scheme" where
  "ata_poll_bsy D s = poll_bsy_loop D ATA_POLLS s"

primrec poll_drq_loop :: "'d io_dev \<Rightarrow> nat \<Rightarrow> ('d, 'z) machine_scheme \<Rightarrow> aura_status_t \<times> ('d, 'z) machine_scheme" where
  "poll_drq_loop D 0 s = (AURA_ERR, s)"
| "poll_drq_loop D (Suc n) s =
     (let (st, s) = inb D ATA_REG_STATUS s
      in if st AND ATA_SR_ERR \<noteq> 0 then (AURA_ERR, s)
         else if st AND ATA_SR_DF \<noteq> 0 then (AURA_ERR, s)
         else if st AND ATA_SR_DRQ \<noteq> 0 then (AURA_OK, s)
         else poll_drq_loop D n s)"

definition ata_poll_drq :: "'d io_dev \<Rightarrow> ('d, 'z) machine_scheme \<Rightarrow> aura_status_t \<times> ('d, 'z) machine_scheme" where
  "ata_poll_drq D s = poll_drq_loop D ATA_POLLS s"

definition ata_setup_lba :: "'d io_dev \<Rightarrow> u32 \<Rightarrow> u8 \<Rightarrow> ('d, 'z) machine_scheme \<Rightarrow> ('d, 'z) machine_scheme" where
  "ata_setup_lba D lba count s =
     (let s = outb D ATA_REG_HDSEL (ucast (0xE0 OR (drop_bit 24 lba AND 0x0F))) s;
          s = outb D ATA_REG_FEATURES 0x00 s;
          s = outb D ATA_REG_SECCOUNT count s;
          s = outb D ATA_REG_LBA0 (ucast (lba AND 0xFF)) s;
          s = outb D ATA_REG_LBA1 (ucast (drop_bit 8 lba AND 0xFF)) s
      in outb D ATA_REG_LBA2 (ucast (drop_bit 16 lba AND 0xFF)) s)"

definition ata_init :: "'d io_dev \<Rightarrow> ('d, 'z) machine_scheme \<Rightarrow> aura_status_t \<times> ('d, 'z) machine_scheme" where
  "ata_init D s =
     (let s = outb D ATA_REG_HDSEL 0xA0 s;
          s = outb D ATA_REG_COMMAND ATA_CMD_IDENTIFY s;
          (st, s) = inb D ATA_REG_STATUS s
      in if st = 0 then (AURA_ERR, s)
         else let (r, s) = ata_poll_bsy D s
              in if r \<noteq> AURA_OK then (AURA_ERR, s)
                 else let (cl, s) = inb D ATA_REG_LBA1 s; (ch, s) = inb D ATA_REG_LBA2 s
                      in if cl \<noteq> 0 \<or> ch \<noteq> 0 then (AURA_ERR, s)
                         else let (r, s) = ata_poll_drq D s
                              in if r \<noteq> AURA_OK then (AURA_ERR, s)
                                 else (AURA_OK, fold (\<lambda>_ s. snd (inw D ATA_REG_DATA s)) [0..<256] s))"

text \<open>\<^verbatim>\<open>ptr[i] = inw(...)\<close> for the sector at offset \<open>off\<close> of the buffer, and the loop over the sectors.\<close>

definition ata_read_word :: "'d io_dev \<Rightarrow> nat \<Rightarrow> nat \<Rightarrow> u8 list \<times> ('d, 'z) machine_scheme \<Rightarrow> u8 list \<times> ('d, 'z) machine_scheme" where
  "ata_read_word D off i = (\<lambda>(buf, s).
     let (w, s) = inw D ATA_REG_DATA s
     in (buf[off + 2 * i := ucast w, off + 2 * i + 1 := ucast (drop_bit 8 w)], s))"

primrec ata_read_loop ::
    "'d io_dev \<Rightarrow> nat list \<Rightarrow> u8 list \<Rightarrow> ('d, 'z) machine_scheme \<Rightarrow> aura_status_t \<times> u8 list \<times> ('d, 'z) machine_scheme" where
  "ata_read_loop D [] buf s = (AURA_OK, buf, s)"
| "ata_read_loop D (k # ks) buf s =
     (let (r, s) = ata_poll_bsy D s
      in if r \<noteq> AURA_OK then (AURA_ERR, buf, s)
         else let (r, s) = ata_poll_drq D s
              in if r \<noteq> AURA_OK then (AURA_ERR, buf, s)
                 else let (buf, s) = fold (ata_read_word D (k * 512)) [0..<256] (buf, s)
                      in ata_read_loop D ks buf s)"

definition ata_read_sectors ::
    "'d io_dev \<Rightarrow> u32 \<Rightarrow> u8 \<Rightarrow> u8 list option \<Rightarrow> ('d, 'z) machine_scheme \<Rightarrow> aura_status_t \<times> u8 list option \<times> ('d, 'z) machine_scheme" where
  "ata_read_sectors D lba count buf s =
     (case buf of
        None \<Rightarrow> (AURA_ERR, None, s)
      | Some b \<Rightarrow>
         (if count = 0 then (AURA_ERR, buf, s)
          else let (r, s) = ata_poll_bsy D s
               in if r \<noteq> AURA_OK then (AURA_ERR, buf, s)
                  else let s = ata_setup_lba D lba count s;
                           s = outb D ATA_REG_COMMAND ATA_CMD_READ_PIO s;
                           (r, b, s) = ata_read_loop D [0..<unat count] b s
                       in (r, Some b, s)))"

definition word_at :: "u8 list \<Rightarrow> nat \<Rightarrow> u16" where
  "word_at b i = ucast (b ! (2 * i)) OR push_bit 8 (ucast (b ! (2 * i + 1)))"

definition ata_write_word :: "'d io_dev \<Rightarrow> u8 list \<Rightarrow> nat \<Rightarrow> ('d, 'z) machine_scheme \<Rightarrow> ('d, 'z) machine_scheme" where
  "ata_write_word D b i s = outw D ATA_REG_DATA (word_at b i) s"

primrec ata_write_loop ::
    "'d io_dev \<Rightarrow> u8 list \<Rightarrow> nat list \<Rightarrow> ('d, 'z) machine_scheme \<Rightarrow> aura_status_t \<times> ('d, 'z) machine_scheme" where
  "ata_write_loop D b [] s = (AURA_OK, s)"
| "ata_write_loop D b (k # ks) s =
     (let (r, s) = ata_poll_bsy D s
      in if r \<noteq> AURA_OK then (AURA_ERR, s)
         else let (r, s) = ata_poll_drq D s
              in if r \<noteq> AURA_OK then (AURA_ERR, s)
                 else let s = fold (ata_write_word D (drop (k * 512) b)) [0..<256] s;
                          s = outb D ATA_REG_COMMAND 0xE7 s;
                          (r, s) = ata_poll_bsy D s
                      in if r \<noteq> AURA_OK then (AURA_ERR, s) else ata_write_loop D b ks s)"

definition ata_write_sectors ::
    "'d io_dev \<Rightarrow> u32 \<Rightarrow> u8 \<Rightarrow> u8 list option \<Rightarrow> ('d, 'z) machine_scheme \<Rightarrow> aura_status_t \<times> ('d, 'z) machine_scheme" where
  "ata_write_sectors D lba count buf s =
     (case buf of
        None \<Rightarrow> (AURA_ERR, s)
      | Some b \<Rightarrow>
         (if count = 0 then (AURA_ERR, s)
          else let (r, s) = ata_poll_bsy D s
               in if r \<noteq> AURA_OK then (AURA_ERR, s)
                  else let s = ata_setup_lba D lba count s;
                           s = outb D ATA_REG_COMMAND ATA_CMD_WRITE_PIO s
                       in ata_write_loop D b [0..<unat count] s))"

section \<open>The drive\<close>

text \<open>A transfer in progress: address and number of the sectors left, and the words moved so far.\<close>

datatype ata_phase = Idle | Rd nat nat nat | Wr nat nat "u16 list"

record drive =
  r_hd :: u8
  r_cnt :: u8
  r_lba0 :: u8
  r_lba1 :: u8
  r_lba2 :: u8
  r_phase :: ata_phase
  r_busy :: nat
  r_disk :: "nat \<Rightarrow> u8 list"

definition drive_lba :: "drive \<Rightarrow> nat" where
  "drive_lba x = unat (r_lba0 x) + 2 ^ 8 * unat (r_lba1 x) + 2 ^ 16 * unat (r_lba2 x) + 2 ^ 24 * unat (r_hd x AND 0x0F)"

definition words_bytes :: "u16 list \<Rightarrow> u8 list" where
  "words_bytes ws = concat (map (\<lambda>w. [ucast w, ucast (drop_bit 8 w)]) ws)"

definition ready :: "drive \<Rightarrow> bool" where
  "ready x \<longleftrightarrow> r_busy x = 0 \<and> r_phase x = Idle"

text \<open>The view after a word has been moved, up to the length of the next busy phase.\<close>

definition after_read :: "drive \<Rightarrow> nat \<Rightarrow> nat \<Rightarrow> nat \<Rightarrow> nat \<Rightarrow> drive" where
  "after_read x L n i b =
     (if i < 255 then x\<lparr>r_phase := Rd L n (Suc i)\<rparr>
      else x\<lparr>r_phase := (if n = 1 then Idle else Rd (Suc L) (n - 1) 0), r_busy := b\<rparr>)"

definition after_write :: "drive \<Rightarrow> nat \<Rightarrow> nat \<Rightarrow> u16 list \<Rightarrow> u16 \<Rightarrow> nat \<Rightarrow> drive" where
  "after_write x L n ws w b =
     (if length ws < 255 then x\<lparr>r_phase := Wr L n (ws @ [w])\<rparr>
      else x\<lparr>r_phase := (if n = 1 then Idle else Wr (Suc L) (n - 1) []), r_busy := b,
             r_disk := (r_disk x)(L := words_bytes (ws @ [w]))\<rparr>)"

definition ata_ok :: "'d io_dev \<Rightarrow> ('d \<Rightarrow> drive) \<Rightarrow> nat \<Rightarrow> bool" where
  "ata_ok D view cap \<longleftrightarrow> cap \<le> 2 ^ 28 \<and>
     (\<forall>d. 0 < r_busy (view d) \<longrightarrow> fst (in8 D ATA_REG_STATUS d) AND ATA_SR_BSY \<noteq> 0 \<and>
        view (snd (in8 D ATA_REG_STATUS d)) = (view d)\<lparr>r_busy := r_busy (view d) - 1\<rparr>) \<and>
     (\<forall>d. r_busy (view d) = 0 \<longrightarrow> fst (in8 D ATA_REG_STATUS d) AND ATA_SR_BSY = 0 \<and>
        fst (in8 D ATA_REG_STATUS d) AND ATA_SR_ERR = 0 \<and> fst (in8 D ATA_REG_STATUS d) AND ATA_SR_DF = 0 \<and>
        (fst (in8 D ATA_REG_STATUS d) AND ATA_SR_DRQ \<noteq> 0 \<longleftrightarrow> r_phase (view d) \<noteq> Idle) \<and>
        view (snd (in8 D ATA_REG_STATUS d)) = view d) \<and>
     (\<forall>v d. ready (view d) \<longrightarrow>
        view (out8 D ATA_REG_HDSEL v d) = (view d)\<lparr>r_hd := v\<rparr> \<and>
        view (out8 D ATA_REG_FEATURES v d) = view d \<and>
        view (out8 D ATA_REG_SECCOUNT v d) = (view d)\<lparr>r_cnt := v\<rparr> \<and>
        view (out8 D ATA_REG_LBA0 v d) = (view d)\<lparr>r_lba0 := v\<rparr> \<and>
        view (out8 D ATA_REG_LBA1 v d) = (view d)\<lparr>r_lba1 := v\<rparr> \<and>
        view (out8 D ATA_REG_LBA2 v d) = (view d)\<lparr>r_lba2 := v\<rparr>) \<and>
     (\<forall>d. ready (view d) \<and> r_cnt (view d) \<noteq> 0 \<and> drive_lba (view d) + unat (r_cnt (view d)) \<le> cap \<longrightarrow>
        (\<exists>b < ATA_POLLS. view (out8 D ATA_REG_COMMAND ATA_CMD_READ_PIO d) =
           (view d)\<lparr>r_phase := Rd (drive_lba (view d)) (unat (r_cnt (view d))) 0, r_busy := b\<rparr>) \<and>
        (\<exists>b < ATA_POLLS. view (out8 D ATA_REG_COMMAND ATA_CMD_WRITE_PIO d) =
           (view d)\<lparr>r_phase := Wr (drive_lba (view d)) (unat (r_cnt (view d))) [], r_busy := b\<rparr>)) \<and>
     (\<forall>d. r_phase (view d) = Idle \<longrightarrow>
        (\<exists>b < ATA_POLLS. view (out8 D ATA_REG_COMMAND 0xE7 d) = (view d)\<lparr>r_busy := b\<rparr>)) \<and>
     (\<forall>d L n i. r_busy (view d) = 0 \<and> r_phase (view d) = Rd L n i \<longrightarrow>
        fst (in16 D ATA_REG_DATA d) = word_at (r_disk (view d) L) i \<and>
        (\<exists>b < ATA_POLLS. view (snd (in16 D ATA_REG_DATA d)) = after_read (view d) L n i b)) \<and>
     (\<forall>d L n ws w. r_busy (view d) = 0 \<and> r_phase (view d) = Wr L n ws \<longrightarrow>
        (\<exists>b < ATA_POLLS. view (out16 D ATA_REG_DATA w d) = after_write (view d) L n ws w b))"

text \<open>An emulated drive that is busy for three polls after each command and each sector.\<close>

definition ata_emu :: "drive io_dev" where
  "ata_emu = \<lparr>
     in8 = (\<lambda>p d. if p = ATA_REG_STATUS
       then (if r_busy d = 0 then (if r_phase d = Idle then 0x40 else 0x48, d) else (0x80, d\<lparr>r_busy := r_busy d - 1\<rparr>))
       else (0, d)),
     out8 = (\<lambda>p v d.
       if p = ATA_REG_HDSEL then d\<lparr>r_hd := v\<rparr>
       else if p = ATA_REG_SECCOUNT then d\<lparr>r_cnt := v\<rparr>
       else if p = ATA_REG_LBA0 then d\<lparr>r_lba0 := v\<rparr>
       else if p = ATA_REG_LBA1 then d\<lparr>r_lba1 := v\<rparr>
       else if p = ATA_REG_LBA2 then d\<lparr>r_lba2 := v\<rparr>
       else if p = ATA_REG_COMMAND \<and> v = ATA_CMD_READ_PIO
         then d\<lparr>r_phase := Rd (drive_lba d) (unat (r_cnt d)) 0, r_busy := 3\<rparr>
       else if p = ATA_REG_COMMAND \<and> v = ATA_CMD_WRITE_PIO
         then d\<lparr>r_phase := Wr (drive_lba d) (unat (r_cnt d)) [], r_busy := 3\<rparr>
       else if p = ATA_REG_COMMAND then d\<lparr>r_busy := 3\<rparr>
       else d),
     in16 = (\<lambda>p d. case r_phase d of Rd L n i \<Rightarrow> (word_at (r_disk d L) i, after_read d L n i 3) | _ \<Rightarrow> (0, d)),
     out16 = (\<lambda>p w d. case r_phase d of Wr L n ws \<Rightarrow> after_write d L n ws w 3 | _ \<Rightarrow> d)\<rparr>"

lemma ata_emu_ok: "ata_ok ata_emu (\<lambda>d. d) 2880"
proof -
  have "3 < ATA_POLLS" by (simp add: ATA_POLLS_def)
  then show ?thesis
    unfolding ata_ok_def by (intro conjI allI impI) (auto simp: ata_emu_def intro!: exI [of _ 3])
qed

section \<open>The waits\<close>

lemma ata_laws:
  assumes "ata_ok D view cap"
  shows "cap \<le> 2 ^ 28"
    "0 < r_busy (view d) \<Longrightarrow> fst (in8 D ATA_REG_STATUS d) AND ATA_SR_BSY \<noteq> 0"
    "0 < r_busy (view d) \<Longrightarrow> view (snd (in8 D ATA_REG_STATUS d)) = (view d)\<lparr>r_busy := r_busy (view d) - 1\<rparr>"
    "r_busy (view d) = 0 \<Longrightarrow> fst (in8 D ATA_REG_STATUS d) AND ATA_SR_BSY = 0"
    "r_busy (view d) = 0 \<Longrightarrow> fst (in8 D ATA_REG_STATUS d) AND ATA_SR_ERR = 0"
    "r_busy (view d) = 0 \<Longrightarrow> fst (in8 D ATA_REG_STATUS d) AND ATA_SR_DF = 0"
    "r_busy (view d) = 0 \<Longrightarrow> r_phase (view d) \<noteq> Idle \<Longrightarrow> fst (in8 D ATA_REG_STATUS d) AND ATA_SR_DRQ \<noteq> 0"
    "r_busy (view d) = 0 \<Longrightarrow> view (snd (in8 D ATA_REG_STATUS d)) = view d"
  using assms unfolding ata_ok_def by blast+

lemma ata_reg_laws:
  assumes "ata_ok D view cap" "ready (view d)"
  shows "view (out8 D ATA_REG_HDSEL v d) = (view d)\<lparr>r_hd := v\<rparr>"
    "view (out8 D ATA_REG_FEATURES v d) = view d"
    "view (out8 D ATA_REG_SECCOUNT v d) = (view d)\<lparr>r_cnt := v\<rparr>"
    "view (out8 D ATA_REG_LBA0 v d) = (view d)\<lparr>r_lba0 := v\<rparr>"
    "view (out8 D ATA_REG_LBA1 v d) = (view d)\<lparr>r_lba1 := v\<rparr>"
    "view (out8 D ATA_REG_LBA2 v d) = (view d)\<lparr>r_lba2 := v\<rparr>"
  using assms unfolding ata_ok_def by blast+

lemma ata_data_laws:
  assumes "ata_ok D view cap" "r_busy (view d) = 0"
  shows "r_phase (view d) = Rd L n i \<Longrightarrow> fst (in16 D ATA_REG_DATA d) = word_at (r_disk (view d) L) i"
    "r_phase (view d) = Rd L n i \<Longrightarrow> \<exists>b < ATA_POLLS. view (snd (in16 D ATA_REG_DATA d)) = after_read (view d) L n i b"
    "r_phase (view d) = Wr L n ws \<Longrightarrow> \<exists>b < ATA_POLLS. view (out16 D ATA_REG_DATA w d) = after_write (view d) L n ws w b"
  using assms unfolding ata_ok_def by blast+

lemma ata_command_laws:
  assumes "ata_ok D view cap"
  shows "ready (view d) \<Longrightarrow> r_cnt (view d) \<noteq> 0 \<Longrightarrow> drive_lba (view d) + unat (r_cnt (view d)) \<le> cap \<Longrightarrow>
      \<exists>b < ATA_POLLS. view (out8 D ATA_REG_COMMAND ATA_CMD_READ_PIO d) =
        (view d)\<lparr>r_phase := Rd (drive_lba (view d)) (unat (r_cnt (view d))) 0, r_busy := b\<rparr>"
    "ready (view d) \<Longrightarrow> r_cnt (view d) \<noteq> 0 \<Longrightarrow> drive_lba (view d) + unat (r_cnt (view d)) \<le> cap \<Longrightarrow>
      \<exists>b < ATA_POLLS. view (out8 D ATA_REG_COMMAND ATA_CMD_WRITE_PIO d) =
        (view d)\<lparr>r_phase := Wr (drive_lba (view d)) (unat (r_cnt (view d))) [], r_busy := b\<rparr>"
    "r_phase (view d) = Idle \<Longrightarrow> \<exists>b < ATA_POLLS. view (out8 D ATA_REG_COMMAND 0xE7 d) = (view d)\<lparr>r_busy := b\<rparr>"
  using assms unfolding ata_ok_def by blast+

lemma inb_eq: "inb D p s = (fst (in8 D p (dev s)), s\<lparr>dev := snd (in8 D p (dev s))\<rparr>)"
  by (simp add: inb_def split: prod.split)

lemma inw_eq: "inw D p s = (fst (in16 D p (dev s)), s\<lparr>dev := snd (in16 D p (dev s))\<rparr>)"
  by (simp add: inw_def split: prod.split)

lemma poll_bsy_loop_ok:
  fixes s :: "('d, 'z) machine_scheme"
  assumes ok: "ata_ok D view cap"
  shows "r_busy (view (dev s)) < n \<Longrightarrow>
    \<exists>d. poll_bsy_loop D n s = (AURA_OK, s\<lparr>dev := d\<rparr>) \<and> view d = (view (dev s))\<lparr>r_busy := 0\<rparr>"
proof (induction n arbitrary: s)
  case 0
  then show ?case by simp
next
  case (Suc n)
  show ?case
  proof (cases "r_busy (view (dev s)) = 0")
    case True
    then show ?thesis using ata_laws(4,8) [OF ok True]
      by (intro exI [of _ "snd (in8 D ATA_REG_STATUS (dev s))"]) (simp add: inb_eq)
  next
    case False
    let ?s = "s\<lparr>dev := snd (in8 D ATA_REG_STATUS (dev s))\<rparr>"
    have v: "view (dev ?s) = (view (dev s))\<lparr>r_busy := r_busy (view (dev s)) - 1\<rparr>"
      using ata_laws(3) [OF ok, of "dev s"] False by simp
    then have "r_busy (view (dev ?s)) < n" using Suc.prems False by simp
    then obtain d where "poll_bsy_loop D n ?s = (AURA_OK, ?s\<lparr>dev := d\<rparr>)" "view d = (view (dev ?s))\<lparr>r_busy := 0\<rparr>"
      using Suc.IH by blast
    then show ?thesis using ata_laws(2) [OF ok, of "dev s"] False v by (intro exI [of _ d]) (simp add: inb_eq)
  qed
qed

lemma ata_poll_bsy_ok:
  assumes "ata_ok D view cap" "r_busy (view (dev s)) < ATA_POLLS"
  shows "\<exists>d. ata_poll_bsy D s = (AURA_OK, s\<lparr>dev := d\<rparr>) \<and> view d = (view (dev s))\<lparr>r_busy := 0\<rparr>"
  using poll_bsy_loop_ok [OF assms] by (simp add: ata_poll_bsy_def)

lemma ata_poll_drq_ok:
  assumes "ata_ok D view cap" "r_busy (view (dev s)) = 0" "r_phase (view (dev s)) \<noteq> Idle"
  shows "\<exists>d. ata_poll_drq D s = (AURA_OK, s\<lparr>dev := d\<rparr>) \<and> view d = view (dev s)"
proof -
  have "poll_drq_loop D (Suc n) s = (AURA_OK, s\<lparr>dev := snd (in8 D ATA_REG_STATUS (dev s))\<rparr>)" for n
    using ata_laws(5-8) [OF assms(1,2)] assms(3) by (simp add: inb_eq)
  moreover obtain n where "ATA_POLLS = Suc n" by (metis ATA_POLLS_def Suc_pred zero_less_numeral)
  ultimately show ?thesis unfolding ata_poll_drq_def by (metis ata_laws(8) [OF assms(1,2)])
qed

section \<open>Addressing\<close>

lemma radix_256:
  "a + 256 * u = y \<Longrightarrow> b + 256 * v = u \<Longrightarrow> c + 256 * e = v \<Longrightarrow> a + 2 ^ 8 * b + 2 ^ 16 * c + 2 ^ 24 * e = (y :: nat)"
  by simp

lemma lba_bytes:
  assumes "unat (lba :: u32) < 2 ^ 28"
  shows "unat (ucast (lba AND 0xFF) :: u8) + 2 ^ 8 * unat (ucast (drop_bit 8 lba AND 0xFF) :: u8) +
    2 ^ 16 * unat (ucast (drop_bit 16 lba AND 0xFF) :: u8) +
    2 ^ 24 * unat ((ucast (0xE0 OR (drop_bit 24 lba AND 0x0F)) :: u8) AND 0x0F) = unat lba"
proof -
  have dr: "unat (drop_bit k lba) = unat lba div 2 ^ k" for k
  proof -
    have "take_bit 32 (unat lba) = unat lba"
      using unsigned_less [of lba, where ?'a = nat] by (intro take_bit_nat_eq_self) simp
    then have "unat (drop_bit k lba) = drop_bit k (unat lba)" by (simp add: unsigned_drop_bit_eq)
    then show ?thesis by (simp only: drop_bit_eq_div)
  qed
  have m: "unat (ucast (drop_bit k lba AND 0xFF) :: u8) = unat lba div 2 ^ k mod 256" for k
  proof -
    have "(0xFF :: u32) = mask 8" by (simp add: mask_eq_exp_minus_1)
    moreover have "(ucast (drop_bit k lba AND mask 8) :: u8) = ucast (drop_bit k lba)"
      by (rule bit_word_eqI) (auto simp: bit_simps simp del: mask_numeral)
    ultimately have "(ucast (drop_bit k lba AND 0xFF) :: u8) = ucast (drop_bit k lba)" by (simp only:)
    then show ?thesis by (simp add: unsigned_ucast_eq take_bit_eq_mod dr)
  qed
  have "((ucast (0xE0 OR (drop_bit 24 lba AND 0x0F)) :: u8) AND 0x0F) = take_bit 4 (ucast (drop_bit 24 lba))"
  proof (rule bit_word_eqI)
    fix n
    assume "n < LENGTH(8)"
    then have "n \<in> {0, 1, 2, 3, 4, 5, 6, 7}" by auto
    then show "bit ((ucast (0xE0 OR (drop_bit 24 lba AND 0x0F)) :: u8) AND 0x0F) n = bit (take_bit 4 (ucast (drop_bit 24 lba) :: u8)) n"
      by (auto simp: bit_simps)
  qed
  then have "unat ((ucast (0xE0 OR (drop_bit 24 lba AND 0x0F)) :: u8) AND 0x0F) = take_bit 4 (unat (ucast (drop_bit 24 lba) :: u8))"
    by (simp only: unsigned_take_bit_eq)
  also have "\<dots> = unat lba div 2 ^ 24 mod 256 mod 16"
    by (simp add: take_bit_eq_mod unsigned_ucast_eq dr)
  finally have "unat ((ucast (0xE0 OR (drop_bit 24 lba AND 0x0F)) :: u8) AND 0x0F) = unat lba div 2 ^ 24 mod 256 mod 16" .
  moreover have "x mod 256 + 2 ^ 8 * (x div 2 ^ 8 mod 256) + 2 ^ 16 * (x div 2 ^ 16 mod 256) + 2 ^ 24 * (x div 2 ^ 24 mod 256 mod 16) = x"
    if "x < 2 ^ 28" for x :: nat
  proof -
    have q: "x div 2 ^ 8 = x div 256" "x div 2 ^ 16 = x div 256 div 256" "x div 2 ^ 24 = x div 256 div 256 div 256"
      by (simp_all add: div_mult2_eq [symmetric])
    have "x div 256 div 256 div 256 < 16" using that by (simp add: div_mult2_eq [symmetric] less_mult_imp_div_less)
    then have "x div 256 div 256 div 256 mod 256 mod 16 = x div 256 div 256 div 256" by simp
    then show ?thesis
      unfolding q using radix_256 [OF mod_mult_div_eq [of x 256] mod_mult_div_eq [of "x div 256" 256] mod_mult_div_eq [of "x div 256 div 256" 256]]
      by (simp only:)
  qed
  ultimately show ?thesis using m [of 0] m [of 8] m [of 16] assms by simp
qed

lemma ata_setup_lba_ok:
  assumes ok: "ata_ok D view cap" and r: "ready (view (dev s))" and lba: "unat lba < 2 ^ 28"
  shows "\<exists>d. ata_setup_lba D lba count s = s\<lparr>dev := d\<rparr> \<and> ready (view d) \<and> drive_lba (view d) = unat lba \<and>
    r_cnt (view d) = count \<and> r_disk (view d) = r_disk (view (dev s))"
proof -
  let ?d = "dev (ata_setup_lba D lba count s)"
  have "ata_setup_lba D lba count s = s\<lparr>dev := ?d\<rparr>" by (simp add: ata_setup_lba_def outb_def Let_def)
  moreover have "view ?d = (view (dev s))\<lparr>r_hd := ucast (0xE0 OR (drop_bit 24 lba AND 0x0F)), r_cnt := count,
      r_lba0 := ucast (lba AND 0xFF), r_lba1 := ucast (drop_bit 8 lba AND 0xFF), r_lba2 := ucast (drop_bit 16 lba AND 0xFF)\<rparr>"
    using r ata_reg_laws [OF ok] by (simp add: ata_setup_lba_def outb_def Let_def ready_def)
  ultimately show ?thesis using r lba_bytes [OF lba]
    by (intro exI [of _ ?d]) (simp add: drive_lba_def ready_def)
qed

section \<open>Transfers\<close>

lemma word_at_low: "ucast (word_at b i) = b ! (2 * i)"
  by (rule bit_word_eqI) (auto simp: word_at_def bit_simps)

lemma word_at_high: "ucast (drop_bit 8 (word_at b i)) = b ! (2 * i + 1)"
  by (rule bit_word_eqI) (auto simp: word_at_def bit_simps dest: bit_imp_le_length)

lemma words_bytes_word_at: "2 * n \<le> length b \<Longrightarrow> words_bytes (map (word_at b) [0..<n]) = take (2 * n) b"
proof (induction n)
  case 0
  then show ?case by (simp add: words_bytes_def)
next
  case (Suc n)
  have "take (2 * Suc n) b = take (2 * n) b @ [b ! (2 * n), b ! (2 * n + 1)]"
    using Suc.prems by (simp add: take_Suc_conv_app_nth)
  then show ?case using Suc by (simp add: words_bytes_def word_at_low word_at_high)
qed

text \<open>The first \<open>m\<close> words of a sector that is being read.\<close>

lemma read_words:
  fixes s :: "('d, 'z) machine_scheme"
  assumes ok: "ata_ok D view cap" and x: "view (dev s) = x" "r_busy x = 0" "r_phase x = Rd L n 0"
    and len: "length (r_disk x L) = 512" "off + 512 \<le> length buf"
  shows "m \<le> 256 \<Longrightarrow> \<exists>d b. fold (ata_read_word D off) [0..<m] (buf, s) =
      (take off buf @ take (2 * m) (r_disk x L) @ drop (off + 2 * m) buf, s\<lparr>dev := d\<rparr>) \<and> b < ATA_POLLS \<and>
      view d = (if m < 256 then x\<lparr>r_phase := Rd L n m\<rparr> else x\<lparr>r_phase := (if n = 1 then Idle else Rd (Suc L) (n - 1) 0), r_busy := b\<rparr>)"
proof (induction m)
  case 0
  have "(0 :: nat) < ATA_POLLS" by (simp add: ATA_POLLS_def)
  moreover have "x\<lparr>r_phase := Rd L n 0\<rparr> = x" using x(3) by (cases x) simp
  ultimately show ?case using x(1) by (intro exI [of _ "dev s"] exI [of _ 0]) simp
next
  case (Suc m)
  let ?b = "\<lambda>m. take off buf @ take (2 * m) (r_disk x L) @ drop (off + 2 * m) buf"
  obtain d where d: "fold (ata_read_word D off) [0..<m] (buf, s) = (?b m, s\<lparr>dev := d\<rparr>)" "view d = x\<lparr>r_phase := Rd L n m\<rparr>"
    using Suc by auto
  have v: "r_busy (view d) = 0" "r_phase (view d) = Rd L n m" "r_disk (view d) = r_disk x" using d(2) x(2) by simp_all
  have w: "fst (in16 D ATA_REG_DATA d) = word_at (r_disk x L) m" using ata_data_laws(1) [OF ok v(1,2)] v(3) by simp
  obtain b where b: "b < ATA_POLLS" "view (snd (in16 D ATA_REG_DATA d)) = after_read (view d) L n m b"
    using ata_data_laws(2) [OF ok v(1,2)] by blast
  have dr: "drop (off + 2 * m) buf = buf ! (off + 2 * m) # buf ! Suc (off + 2 * m) # drop (off + 2 * Suc m) buf"
    using len(2) Suc.prems by (simp add: Cons_nth_drop_Suc)
  have "(?b m)[off + 2 * m := r_disk x L ! (2 * m), off + 2 * m + 1 := r_disk x L ! (2 * m + 1)] = ?b (Suc m)"
    using len Suc.prems by (simp add: dr list_update_append min_def take_Suc_conv_app_nth)
  then have "fold (ata_read_word D off) [0..<Suc m] (buf, s) = (?b (Suc m), s\<lparr>dev := snd (in16 D ATA_REG_DATA d)\<rparr>)"
    using d(1) by (simp add: ata_read_word_def inw_eq w word_at_low word_at_high)
  moreover have "view (snd (in16 D ATA_REG_DATA d)) =
      (if Suc m < 256 then x\<lparr>r_phase := Rd L n (Suc m)\<rparr> else x\<lparr>r_phase := (if n = 1 then Idle else Rd (Suc L) (n - 1) 0), r_busy := b\<rparr>)"
    using b(2) d(2) by (simp add: after_read_def)
  ultimately show ?case using b(1) by blast
qed

lemma write_words:
  fixes s :: "('d, 'z) machine_scheme"
  assumes ok: "ata_ok D view cap" and x: "view (dev s) = x" "r_busy x = 0" "r_phase x = Wr L n []"
  shows "m \<le> 256 \<Longrightarrow> \<exists>d b. fold (ata_write_word D buf) [0..<m] s = s\<lparr>dev := d\<rparr> \<and> b < ATA_POLLS \<and>
      view d = (if m < 256 then x\<lparr>r_phase := Wr L n (map (word_at buf) [0..<m])\<rparr>
                else x\<lparr>r_phase := (if n = 1 then Idle else Wr (Suc L) (n - 1) []), r_busy := b,
                       r_disk := (r_disk x)(L := words_bytes (map (word_at buf) [0..<m]))\<rparr>)"
proof (induction m)
  case 0
  have "(0 :: nat) < ATA_POLLS" by (simp add: ATA_POLLS_def)
  moreover have "x\<lparr>r_phase := Wr L n []\<rparr> = x" using x(3) by (cases x) simp
  ultimately show ?case using x(1) by (intro exI [of _ "dev s"] exI [of _ 0]) simp
next
  case (Suc m)
  let ?ws = "map (word_at buf) [0..<m]"
  obtain d where d: "fold (ata_write_word D buf) [0..<m] s = s\<lparr>dev := d\<rparr>" "view d = x\<lparr>r_phase := Wr L n ?ws\<rparr>"
    using Suc by auto
  obtain b where b: "b < ATA_POLLS" "view (out16 D ATA_REG_DATA (word_at buf m) d) = after_write (view d) L n ?ws (word_at buf m) b"
    using ata_data_laws(3) [OF ok, of d L n ?ws "word_at buf m"] d(2) x(2) by auto
  have "fold (ata_write_word D buf) [0..<Suc m] s = s\<lparr>dev := out16 D ATA_REG_DATA (word_at buf m) d\<rparr>"
    using d(1) by (simp add: ata_write_word_def outw_def)
  moreover have "view (out16 D ATA_REG_DATA (word_at buf m) d) =
      (if Suc m < 256 then x\<lparr>r_phase := Wr L n (map (word_at buf) [0..<Suc m])\<rparr>
       else x\<lparr>r_phase := (if n = 1 then Idle else Wr (Suc L) (n - 1) []), r_busy := b,
              r_disk := (r_disk x)(L := words_bytes (map (word_at buf) [0..<Suc m]))\<rparr>)"
    using b(2) d(2) by (simp add: after_write_def)
  ultimately show ?case using b(1) by blast
qed

text \<open>Between two operations the drive has no transfer in progress and is busy for a bounded time at most.\<close>

definition drive_idle :: "drive \<Rightarrow> bool" where
  "drive_idle x \<longleftrightarrow> r_phase x = Idle \<and> r_busy x < ATA_POLLS"

definition disk_wf :: "nat \<Rightarrow> drive \<Rightarrow> bool" where
  "disk_wf cap x \<longleftrightarrow> (\<forall>L < cap. length (r_disk x L) = 512)"

lemma ata_read_loop_ok:
  fixes s :: "('d, 'z) machine_scheme"
  assumes ok: "ata_ok D view cap"
  shows "view (dev s) = x \<Longrightarrow> r_busy x < ATA_POLLS \<Longrightarrow> r_phase x = (if n = 0 then Idle else Rd L n 0) \<Longrightarrow>
    \<forall>k < n. length (r_disk x (L + k)) = 512 \<Longrightarrow> (j + n) * 512 \<le> length buf \<Longrightarrow>
    \<exists>d. ata_read_loop D [j..<j + n] buf s =
        (AURA_OK, take (j * 512) buf @ concat (map (r_disk x) [L..<L + n]) @ drop ((j + n) * 512) buf, s\<lparr>dev := d\<rparr>) \<and>
      drive_idle (view d) \<and> r_disk (view d) = r_disk x"
proof (induction n arbitrary: s x L j buf)
  case 0
  then show ?case by (intro exI [of _ "dev s"]) (simp add: drive_idle_def)
next
  case (Suc n)
  obtain d1 where d1: "ata_poll_bsy D s = (AURA_OK, s\<lparr>dev := d1\<rparr>)" "view d1 = x\<lparr>r_busy := 0\<rparr>"
    using ata_poll_bsy_ok [OF ok, of s] Suc.prems(1,2) by auto
  obtain d2 where d2: "ata_poll_drq D (s\<lparr>dev := d1\<rparr>) = (AURA_OK, s\<lparr>dev := d2\<rparr>)" "view d2 = x\<lparr>r_busy := 0\<rparr>"
    using ata_poll_drq_ok [OF ok, of "s\<lparr>dev := d1\<rparr>"] d1(2) Suc.prems(3) by auto
  have len: "length (r_disk x L) = 512" "j * 512 + 512 \<le> length buf" using Suc.prems(4) [rule_format, of 0] Suc.prems(5) by simp_all
  define buf1 where "buf1 = take (j * 512) buf @ r_disk x L @ drop (j * 512 + 512) buf"
  obtain d3 b where d3: "fold (ata_read_word D (j * 512)) [0..<256] (buf, s\<lparr>dev := d2\<rparr>) = (buf1, s\<lparr>dev := d3\<rparr>)"
    "b < ATA_POLLS" "view d3 = x\<lparr>r_busy := b, r_phase := (if n = 0 then Idle else Rd (Suc L) n 0)\<rparr>"
    using read_words [OF ok, of "s\<lparr>dev := d2\<rparr>" "x\<lparr>r_busy := 0\<rparr>" L "Suc n" "j * 512" buf 256] d2(2) Suc.prems(3) len
    by (auto simp: buf1_def simp del: upt_rec_numeral)
  have "\<exists>d. ata_read_loop D [Suc j..<Suc j + n] buf1 (s\<lparr>dev := d3\<rparr>) =
        (AURA_OK, take (Suc j * 512) buf1 @ concat (map (r_disk (view d3)) [Suc L..<Suc L + n]) @ drop ((Suc j + n) * 512) buf1,
         s\<lparr>dev := d3\<rparr>\<lparr>dev := d\<rparr>) \<and> drive_idle (view d) \<and> r_disk (view d) = r_disk (view d3)"
  proof (rule Suc.IH)
    show "\<forall>k < n. length (r_disk (view d3) (Suc L + k)) = 512" using Suc.prems(4) d3(3) by auto
  qed (use d3 Suc.prems(5) len in \<open>auto simp: buf1_def\<close>)
  then obtain d where d: "ata_read_loop D [Suc j..<Suc j + n] buf1 (s\<lparr>dev := d3\<rparr>) =
      (AURA_OK, take (Suc j * 512) buf1 @ concat (map (r_disk x) [Suc L..<Suc L + n]) @ drop ((Suc j + n) * 512) buf1, s\<lparr>dev := d\<rparr>)"
    "drive_idle (view d)" "r_disk (view d) = r_disk x" using d3(3) by auto
  have "take (Suc j * 512) buf1 = take (j * 512) buf @ r_disk x L"
    "drop ((Suc j + n) * 512) buf1 = drop ((j + Suc n) * 512) buf"
    using len by (simp_all add: buf1_def min_def algebra_simps)
  moreover have "[j..<j + Suc n] = j # [Suc j..<Suc j + n]" "[L..<L + Suc n] = L # [Suc L..<Suc L + n]"
    by (simp_all add: upt_conv_Cons)
  ultimately show ?case using d d1(1) d2(1) d3(1) by (intro exI [of _ d]) (simp del: upt_Suc upt_rec_numeral)
qed

lemma ata_write_loop_ok:
  assumes ok: "ata_ok D view cap" and x: "view (dev s) = x" "r_busy x < ATA_POLLS" "r_phase x = Wr L 1 []"
    and len: "512 \<le> length buf"
  shows "\<exists>d. ata_write_loop D buf [0..<1] s = (AURA_OK, s\<lparr>dev := d\<rparr>) \<and>
      drive_idle (view d) \<and> r_disk (view d) = (r_disk x)(L := take 512 buf)"
proof -
  obtain d1 where d1: "ata_poll_bsy D s = (AURA_OK, s\<lparr>dev := d1\<rparr>)" "view d1 = x\<lparr>r_busy := 0\<rparr>"
    using ata_poll_bsy_ok [OF ok, of s] x(1,2) by auto
  obtain d2 where d2: "ata_poll_drq D (s\<lparr>dev := d1\<rparr>) = (AURA_OK, s\<lparr>dev := d2\<rparr>)" "view d2 = x\<lparr>r_busy := 0\<rparr>"
    using ata_poll_drq_ok [OF ok, of "s\<lparr>dev := d1\<rparr>"] d1(2) x(3) by auto
  obtain d3 b where d3: "fold (ata_write_word D buf) [0..<256] (s\<lparr>dev := d2\<rparr>) = s\<lparr>dev := d3\<rparr>" "b < ATA_POLLS"
    "view d3 = x\<lparr>r_busy := b, r_phase := Idle, r_disk := (r_disk x)(L := take 512 buf)\<rparr>"
    using write_words [OF ok, of "s\<lparr>dev := d2\<rparr>" "x\<lparr>r_busy := 0\<rparr>" L 1 256 buf] d2(2) x(3) len words_bytes_word_at [of 256 buf]
    by (auto simp del: upt_rec_numeral)
  obtain b' where b': "b' < ATA_POLLS" "view (out8 D ATA_REG_COMMAND 0xE7 d3) = (view d3)\<lparr>r_busy := b'\<rparr>"
    using ata_command_laws(3) [OF ok, of d3] d3(3) by auto
  obtain d4 where d4: "ata_poll_bsy D (s\<lparr>dev := out8 D ATA_REG_COMMAND 0xE7 d3\<rparr>) = (AURA_OK, s\<lparr>dev := d4\<rparr>)"
    "view d4 = (view d3)\<lparr>r_busy := 0\<rparr>"
    using ata_poll_bsy_ok [OF ok, of "s\<lparr>dev := out8 D ATA_REG_COMMAND 0xE7 d3\<rparr>"] b' by auto
  show ?thesis using d1(1) d2(1) d3 d4 ATA_POLLS_def
    by (intro exI [of _ d4]) (simp add: outb_def drive_idle_def del: upt_rec_numeral)
qed

text \<open>The commands with their set-up.\<close>

lemma ata_start:
  assumes ok: "ata_ok D view cap" and x: "drive_idle (view (dev s))" and lba: "unat lba + unat count \<le> cap" "count \<noteq> 0"
  shows "\<exists>d d'. ata_poll_bsy D s = (AURA_OK, s\<lparr>dev := d\<rparr>) \<and> ata_setup_lba D lba count (s\<lparr>dev := d\<rparr>) = s\<lparr>dev := d'\<rparr> \<and>
    ready (view d') \<and> drive_lba (view d') = unat lba \<and> r_cnt (view d') = count \<and> r_disk (view d') = r_disk (view (dev s))"
proof -
  obtain d where d: "ata_poll_bsy D s = (AURA_OK, s\<lparr>dev := d\<rparr>)" "view d = (view (dev s))\<lparr>r_busy := 0\<rparr>"
    using ata_poll_bsy_ok [OF ok, of s] x by (auto simp: drive_idle_def)
  have "0 < unat count" using lba(2) by (simp add: unat_gt_0)
  then have "unat lba < 2 ^ 28" using lba(1) ata_laws(1) [OF ok] by linarith
  moreover have "ready (view d)" using d(2) x by (simp add: ready_def drive_idle_def)
  ultimately show ?thesis using ata_setup_lba_ok [OF ok, of "s\<lparr>dev := d\<rparr>" lba count] d by auto
qed

lemma ata_read_sectors_ok:
  assumes ok: "ata_ok D view cap" and x: "drive_idle (view (dev s))" "disk_wf cap (view (dev s))"
    and lba: "unat lba + unat count \<le> cap" "count \<noteq> 0" and len: "unat count * 512 \<le> length buf"
  shows "\<exists>d. ata_read_sectors D lba count (Some buf) s =
      (AURA_OK, Some (concat (map (r_disk (view (dev s))) [unat lba..<unat lba + unat count]) @ drop (unat count * 512) buf), s\<lparr>dev := d\<rparr>) \<and>
    drive_idle (view d) \<and> r_disk (view d) = r_disk (view (dev s))"
proof -
  let ?disk = "r_disk (view (dev s))"
  obtain d1 d2 where d: "ata_poll_bsy D s = (AURA_OK, s\<lparr>dev := d1\<rparr>)" "ata_setup_lba D lba count (s\<lparr>dev := d1\<rparr>) = s\<lparr>dev := d2\<rparr>"
    "ready (view d2)" "drive_lba (view d2) = unat lba" "r_cnt (view d2) = count" "r_disk (view d2) = ?disk"
    using ata_start [OF ok x(1) lba] by blast
  let ?d3 = "out8 D ATA_REG_COMMAND ATA_CMD_READ_PIO d2"
  obtain b where b: "b < ATA_POLLS" "view ?d3 = (view d2)\<lparr>r_phase := Rd (unat lba) (unat count) 0, r_busy := b\<rparr>"
    using ata_command_laws(1) [OF ok d(3)] d(4,5) lba by auto
  have "unat count \<noteq> 0" using lba(2) by (simp add: unat_eq_zero)
  moreover have "\<forall>k < unat count. length (?disk (unat lba + k)) = 512" using x(2) lba(1) by (simp add: disk_wf_def)
  ultimately obtain d4 where "ata_read_loop D [0..<0 + unat count] buf (s\<lparr>dev := ?d3\<rparr>) =
      (AURA_OK, take (0 * 512) buf @ concat (map ?disk [unat lba..<unat lba + unat count]) @ drop ((0 + unat count) * 512) buf, s\<lparr>dev := d4\<rparr>)"
      "drive_idle (view d4)" "r_disk (view d4) = ?disk"
    using ata_read_loop_ok [OF ok, of "s\<lparr>dev := ?d3\<rparr>" "view ?d3" "unat count" "unat lba" 0 buf] b d(6) len by auto
  then show ?thesis using d(1,2) lba(2) by (intro exI [of _ d4]) (simp add: ata_read_sectors_def outb_def)
qed

lemma ata_write_sector_ok:
  assumes ok: "ata_ok D view cap" and x: "drive_idle (view (dev s))" and lba: "unat lba < cap" and len: "512 \<le> length buf"
  shows "\<exists>d. ata_write_sectors D lba 1 (Some buf) s = (AURA_OK, s\<lparr>dev := d\<rparr>) \<and> drive_idle (view d) \<and>
    r_disk (view d) = (r_disk (view (dev s)))(unat lba := take 512 buf)"
proof -
  let ?disk = "r_disk (view (dev s))"
  obtain d1 d2 where d: "ata_poll_bsy D s = (AURA_OK, s\<lparr>dev := d1\<rparr>)" "ata_setup_lba D lba 1 (s\<lparr>dev := d1\<rparr>) = s\<lparr>dev := d2\<rparr>"
    "ready (view d2)" "drive_lba (view d2) = unat lba" "r_cnt (view d2) = 1" "r_disk (view d2) = ?disk"
    using ata_start [OF ok x(1), of lba 1] lba by auto
  let ?d3 = "out8 D ATA_REG_COMMAND ATA_CMD_WRITE_PIO d2"
  obtain b where b: "b < ATA_POLLS" "view ?d3 = (view d2)\<lparr>r_phase := Wr (unat lba) 1 [], r_busy := b\<rparr>"
    using ata_command_laws(2) [OF ok d(3)] d(4,5) lba by auto
  obtain d4 where "ata_write_loop D buf [0..<1] (s\<lparr>dev := ?d3\<rparr>) = (AURA_OK, s\<lparr>dev := d4\<rparr>)"
      "drive_idle (view d4)" "r_disk (view d4) = ?disk(unat lba := take 512 buf)"
    using ata_write_loop_ok [OF ok, of "s\<lparr>dev := ?d3\<rparr>" "view ?d3" "unat lba" buf] b d(6) len by auto
  then show ?thesis using d(1,2) by (intro exI [of _ d4]) (simp add: ata_write_sectors_def outb_def)
qed

section \<open>The interface to the file system\<close>

text \<open>The two calls the file system makes: one sector, and a buffer that is never null.\<close>

definition ata_read1 :: "'d io_dev \<Rightarrow> u32 \<Rightarrow> u8 list \<Rightarrow> ('d, 'z) machine_scheme \<Rightarrow> aura_status_t \<times> u8 list \<times> ('d, 'z) machine_scheme" where
  "ata_read1 D lba buf s = (let (r, b, s) = ata_read_sectors D lba 1 (Some buf) s in (r, the b, s))"

definition ata_write1 :: "'d io_dev \<Rightarrow> u32 \<Rightarrow> u8 list \<Rightarrow> ('d, 'z) machine_scheme \<Rightarrow> aura_status_t \<times> ('d, 'z) machine_scheme" where
  "ata_write1 D lba buf s = ata_write_sectors D lba 1 (Some buf) s"

text \<open>Runs of sectors that are read into or written from consecutive parts of a buffer.\<close>

primrec read_run :: "(u32 \<Rightarrow> u8 list \<Rightarrow> 's \<Rightarrow> aura_status_t \<times> u8 list \<times> 's) \<Rightarrow> u32 \<Rightarrow> nat list \<Rightarrow> u8 list \<Rightarrow> 's \<Rightarrow> aura_status_t \<times> u8 list \<times> 's" where
  "read_run rd base [] buf s = (AURA_OK, buf, s)"
| "read_run rd base (k # ks) buf s =
     (let (r, b, s) = rd (base + of_nat k) (drop (k * 512) buf) s;
          buf = take (k * 512) buf @ b
      in if r \<noteq> AURA_OK then (AURA_ERR, buf, s) else read_run rd base ks buf s)"

primrec write_run :: "(u32 \<Rightarrow> u8 list \<Rightarrow> 's \<Rightarrow> aura_status_t \<times> 's) \<Rightarrow> u32 \<Rightarrow> nat list \<Rightarrow> u8 list \<Rightarrow> 's \<Rightarrow> aura_status_t \<times> 's" where
  "write_run wr base [] buf s = (AURA_OK, s)"
| "write_run wr base (k # ks) buf s =
     (let (r, s) = wr (base + of_nat k) (drop (k * 512) buf) s
      in if r \<noteq> AURA_OK then (AURA_ERR, s) else write_run wr base ks buf s)"

locale block_device =
  fixes rd :: "u32 \<Rightarrow> u8 list \<Rightarrow> 's \<Rightarrow> aura_status_t \<times> u8 list \<times> 's"
    and wr :: "u32 \<Rightarrow> u8 list \<Rightarrow> 's \<Rightarrow> aura_status_t \<times> 's"
    and put :: "'d \<Rightarrow> 's \<Rightarrow> 's"
    and good :: "'s \<Rightarrow> bool"
    and sector :: "'s \<Rightarrow> nat \<Rightarrow> u8 list"
    and cap :: nat
  assumes put_put: "put d (put e s) = put d s"
    and put_id: "\<exists>d. put d s = s"
    and sector_len: "good s \<Longrightarrow> L < cap \<Longrightarrow> length (sector s L) = 512"
    and rd_ok: "good s \<Longrightarrow> unat lba < cap \<Longrightarrow> 512 \<le> length buf \<Longrightarrow>
      \<exists>d. rd lba buf s = (AURA_OK, sector s (unat lba) @ drop 512 buf, put d s) \<and> good (put d s) \<and> sector (put d s) = sector s"
    and wr_ok: "good s \<Longrightarrow> unat lba < cap \<Longrightarrow> 512 \<le> length buf \<Longrightarrow>
      \<exists>d. wr lba buf s = (AURA_OK, put d s) \<and> good (put d s) \<and> sector (put d s) = (sector s)(unat lba := take 512 buf)"
begin

lemma read_run_ok:
  "good s \<Longrightarrow> (\<forall>k < n. unat (base + of_nat (j + k)) = unat base + j + k) \<Longrightarrow> unat base + j + n \<le> cap \<Longrightarrow> (j + n) * 512 \<le> length buf \<Longrightarrow>
   \<exists>d. read_run rd base [j..<j + n] buf s =
      (AURA_OK, take (j * 512) buf @ concat (map (sector s) [unat base + j..<unat base + j + n]) @ drop ((j + n) * 512) buf, put d s) \<and>
      good (put d s) \<and> sector (put d s) = sector s"
proof (induction n arbitrary: j buf s)
  case 0
  obtain d where "put d s = s" using put_id by blast
  then show ?case using 0 by (intro exI [of _ d]) simp
next
  case (Suc n)
  have lba: "unat (base + of_nat j) = unat base + j" using Suc.prems(2) [rule_format, of 0] by simp
  obtain d where d: "rd (base + of_nat j) (drop (j * 512) buf) s =
      (AURA_OK, sector s (unat base + j) @ drop 512 (drop (j * 512) buf), put d s)" "good (put d s)" "sector (put d s) = sector s"
    using rd_ok [OF Suc.prems(1), of "base + of_nat j" "drop (j * 512) buf"] Suc.prems(3,4) lba by force
  define b where "b = take (j * 512) buf @ sector s (unat base + j) @ drop (Suc j * 512) buf"
  have len: "length (sector s (unat base + j)) = 512" using sector_len [OF Suc.prems(1)] Suc.prems(3) by simp
  have "\<exists>e. read_run rd base [Suc j..<Suc j + n] b (put d s) =
      (AURA_OK, take (Suc j * 512) b @ concat (map (sector (put d s)) [unat base + Suc j..<unat base + Suc j + n]) @ drop ((Suc j + n) * 512) b,
       put e (put d s)) \<and> good (put e (put d s)) \<and> sector (put e (put d s)) = sector (put d s)"
  proof (rule Suc.IH [OF d(2)])
    show "\<forall>k < n. unat (base + of_nat (Suc j + k)) = unat base + Suc j + k"
      using Suc.prems(2) by (metis Suc_less_eq add_Suc add_Suc_right)
  qed (use Suc.prems len in \<open>simp_all add: b_def\<close>)
  then obtain e where e: "read_run rd base [Suc j..<Suc j + n] b (put d s) =
      (AURA_OK, take (Suc j * 512) b @ concat (map (sector s) [unat base + Suc j..<unat base + Suc j + n]) @ drop ((Suc j + n) * 512) b, put e s)"
    "good (put e s)" "sector (put e s) = sector s" using d(3) put_put by auto
  have "take (Suc j * 512) b = take (j * 512) buf @ sector s (unat base + j)" "drop ((Suc j + n) * 512) b = drop ((j + Suc n) * 512) buf"
    using len Suc.prems(4) by (simp_all add: b_def min_def algebra_simps)
  moreover have "[j..<j + Suc n] = j # [Suc j..<Suc j + n]"
    "[unat base + j..<unat base + j + Suc n] = (unat base + j) # [unat base + Suc j..<unat base + Suc j + n]"
    by (simp_all add: upt_conv_Cons)
  ultimately show ?case using d(1) e by (intro exI [of _ e]) (simp add: b_def add.commute del: upt_Suc)
qed

lemma write_run_ok:
  "good s \<Longrightarrow> (\<forall>k < n. unat (base + of_nat k) = unat base + k) \<Longrightarrow> unat base + n \<le> cap \<Longrightarrow> n * 512 \<le> length buf \<Longrightarrow>
   \<exists>d. write_run wr base [0..<n] buf s = (AURA_OK, put d s) \<and> good (put d s) \<and>
      sector (put d s) = (\<lambda>L. if unat base \<le> L \<and> L < unat base + n then take 512 (drop ((L - unat base) * 512) buf) else sector s L)"
proof (induction n)
  case 0
  obtain d where "put d s = s" using put_id by blast
  then show ?case using 0 by (intro exI [of _ d]) (auto simp: fun_eq_iff)
next
  case (Suc n)
  have snoc: "write_run wr base (ks @ [k]) buf s = (let (r, s) = write_run wr base ks buf s
      in if r \<noteq> AURA_OK then (AURA_ERR, s) else write_run wr base [k] buf s)" for ks k s
    by (induction ks arbitrary: s) (auto split: prod.split)
  obtain d where d: "write_run wr base [0..<n] buf s = (AURA_OK, put d s)" "good (put d s)"
    "sector (put d s) = (\<lambda>L. if unat base \<le> L \<and> L < unat base + n then take 512 (drop ((L - unat base) * 512) buf) else sector s L)"
    using Suc by auto
  have "unat (base + of_nat n) = unat base + n" using Suc.prems(2) by simp
  then obtain e where e: "wr (base + of_nat n) (drop (n * 512) buf) (put d s) = (AURA_OK, put e (put d s))" "good (put e (put d s))"
    "sector (put e (put d s)) = (sector (put d s))(unat base + n := take 512 (drop (n * 512) buf))"
    using wr_ok [OF d(2), of "base + of_nat n" "drop (n * 512) buf"] Suc.prems(3,4) by force
  have "write_run wr base [0..<Suc n] buf s = (AURA_OK, put e s)" using snoc [of "[0..<n]" n s] d(1) e(1) put_put by simp
  moreover have "sector (put e s) = (\<lambda>L. if unat base \<le> L \<and> L < unat base + Suc n then take 512 (drop ((L - unat base) * 512) buf) else sector s L)"
    using e(3) d(3) put_put by (auto simp: fun_eq_iff)
  ultimately show ?case using e(2) put_put by auto
qed

end

text \<open>A drive in order between two operations.\<close>

definition drive_good :: "'d io_dev \<Rightarrow> ('d \<Rightarrow> drive) \<Rightarrow> nat \<Rightarrow> ('d, 'z) machine_scheme \<Rightarrow> bool" where
  "drive_good D view cap s \<longleftrightarrow> ata_ok D view cap \<and> drive_idle (view (dev s)) \<and> disk_wf cap (view (dev s))"

definition sector_of :: "('d \<Rightarrow> drive) \<Rightarrow> ('d, 'z) machine_scheme \<Rightarrow> nat \<Rightarrow> u8 list" where
  "sector_of view s = r_disk (view (dev s))"

interpretation ata: block_device "ata_read1 D" "ata_write1 D" "\<lambda>d s. s\<lparr>dev := d\<rparr>" "drive_good D view cap" "sector_of view" cap
  for D :: "'d io_dev" and view cap
proof
  fix s :: "('d, 'z) machine_scheme" and lba :: u32 and buf :: "u8 list" and L
  show "\<exists>d. s\<lparr>dev := d\<rparr> = s" by (intro exI [of _ "dev s"]) simp
  show "drive_good D view cap s \<Longrightarrow> L < cap \<Longrightarrow> length (sector_of view s L) = 512"
    by (simp add: drive_good_def disk_wf_def sector_of_def)
  assume g: "drive_good D view cap s" and lba: "unat lba < cap" and len: "512 \<le> length buf"
  then have x: "ata_ok D view cap" "drive_idle (view (dev s))" "disk_wf cap (view (dev s))" by (simp_all add: drive_good_def)
  show "\<exists>d. ata_read1 D lba buf s = (AURA_OK, sector_of view s (unat lba) @ drop 512 buf, s\<lparr>dev := d\<rparr>) \<and>
      drive_good D view cap (s\<lparr>dev := d\<rparr>) \<and> sector_of view (s\<lparr>dev := d\<rparr>) = sector_of view s"
  proof -
    obtain d where d: "ata_read_sectors D lba 1 (Some buf) s = (AURA_OK, Some (r_disk (view (dev s)) (unat lba) @ drop 512 buf), s\<lparr>dev := d\<rparr>)"
      "drive_idle (view d)" "r_disk (view d) = r_disk (view (dev s))"
      using ata_read_sectors_ok [OF x, of lba 1 buf] lba len by auto
    then show ?thesis using x by (intro exI [of _ d]) (simp add: ata_read1_def sector_of_def drive_good_def disk_wf_def)
  qed
  show "\<exists>d. ata_write1 D lba buf s = (AURA_OK, s\<lparr>dev := d\<rparr>) \<and> drive_good D view cap (s\<lparr>dev := d\<rparr>) \<and>
      sector_of view (s\<lparr>dev := d\<rparr>) = (sector_of view s)(unat lba := take 512 buf)"
  proof -
    obtain d where d: "ata_write_sectors D lba 1 (Some buf) s = (AURA_OK, s\<lparr>dev := d\<rparr>)" "drive_idle (view d)"
      "r_disk (view d) = (r_disk (view (dev s)))(unat lba := take 512 buf)"
      using ata_write_sector_ok [OF x(1,2) lba len] by blast
    then show ?thesis using x len by (intro exI [of _ d]) (simp add: ata_write1_def sector_of_def drive_good_def disk_wf_def)
  qed
qed simp

section \<open>Properties\<close>

text \<open>An emulated drive whose sectors are filled with zeros, for the concrete instances.\<close>

definition demo_drive :: drive where
  "demo_drive = \<lparr>r_hd = 0, r_cnt = 0, r_lba0 = 0, r_lba1 = 0, r_lba2 = 0, r_phase = Idle, r_busy = 5, r_disk = (\<lambda>_. replicate 512 0)\<rparr>"

definition demo_machine :: "'d \<Rightarrow> 'd machine" where
  "demo_machine d = \<lparr>dev = d, mem = (\<lambda>_. 0), cr0 = 0, cr2 = 0, cr3 = 0, cr4 = 0, idtr = (0, 0), int_flag = False,
     g_kernel_state = KERNEL_STATE_INIT, g_tick_count = 0\<rparr>"

lemma demo_drive_good: "dev s = demo_drive \<Longrightarrow> drive_good ata_emu (\<lambda>d. d) 2880 s"
  by (simp add: drive_good_def ata_emu_ok drive_idle_def disk_wf_def demo_drive_def ATA_POLLS_def)

text \<open>On a drive that follows the protocol and is between two operations, reading \<open>count\<close> sectors inside the
  drive's capacity succeeds, fills the buffer with exactly these sectors in order and leaves the rest of
  the buffer, the sectors and everything but the device state alone.\<close>

theorem ata_read_sectors_correct:
  assumes "drive_good D view cap s" "unat lba + unat count \<le> cap" "count \<noteq> 0" "unat count * 512 \<le> length buf"
  shows "\<exists>d. ata_read_sectors D lba count (Some buf) s =
      (AURA_OK, Some (concat (map (sector_of view s) [unat lba..<unat lba + unat count]) @ drop (unat count * 512) buf), s\<lparr>dev := d\<rparr>) \<and>
    drive_good D view cap (s\<lparr>dev := d\<rparr>) \<and> sector_of view (s\<lparr>dev := d\<rparr>) = sector_of view s"
  using assms ata_read_sectors_ok [of D view cap s lba count buf] by (auto simp: drive_good_def sector_of_def disk_wf_def)

theorem ata_read_sectors_correct_witness:
  "\<exists>d. ata_read_sectors ata_emu 100 2 (Some (replicate 1024 7)) (demo_machine demo_drive) =
     (AURA_OK, Some (replicate 1024 0), (demo_machine demo_drive)\<lparr>dev := d\<rparr>)"
proof -
  have "dev (demo_machine demo_drive) = demo_drive" "sector_of (\<lambda>d. d) (demo_machine demo_drive) = (\<lambda>_. replicate 512 0)"
    by (simp_all add: demo_machine_def sector_of_def demo_drive_def)
  then show ?thesis
    using ata_read_sectors_correct [OF demo_drive_good, of "demo_machine demo_drive" 100 2 "replicate 1024 7"]
    by (auto simp: upt_rec replicate_add [symmetric])
qed

text \<open>C30: a sector written to such a drive is read back, and no other sector changes.\<close>

theorem ata_write_read:
  assumes "drive_good D view cap s" "unat lba < cap" "length b = 512" "unat lba' < cap" "length buf = 512"
  shows "\<exists>s' s''. ata_write_sectors D lba 1 (Some b) s = (AURA_OK, s') \<and>
    ata_read_sectors D lba' 1 (Some buf) s' = (AURA_OK, Some (if lba' = lba then b else sector_of view s (unat lba')), s'') \<and>
    drive_good D view cap s''"
proof -
  obtain d where d: "ata_write1 D lba b s = (AURA_OK, s\<lparr>dev := d\<rparr>)" "drive_good D view cap (s\<lparr>dev := d\<rparr>)"
    "sector_of view (s\<lparr>dev := d\<rparr>) = (sector_of view s)(unat lba := b)"
    using ata.wr_ok [OF assms(1,2), of b] assms(3) by auto
  have "sector_of view (s\<lparr>dev := d\<rparr>) (unat lba') = (if lba' = lba then b else sector_of view s (unat lba'))"
    using d(3) by (auto simp: word_unat_eq_iff)
  moreover obtain e where "ata_read_sectors D lba' 1 (Some buf) (s\<lparr>dev := d\<rparr>) =
      (AURA_OK, Some (sector_of view (s\<lparr>dev := d\<rparr>) (unat lba')), s\<lparr>dev := e\<rparr>)" "drive_good D view cap (s\<lparr>dev := e\<rparr>)"
    using ata_read_sectors_ok [of D view cap "s\<lparr>dev := d\<rparr>" lba' 1 buf] d(2) assms(4,5)
    by (auto simp: drive_good_def sector_of_def disk_wf_def)
  ultimately show ?thesis using d(1) by (auto simp: ata_write1_def)
qed

theorem ata_write_read_witness:
  "\<exists>s' s''. ata_write_sectors ata_emu 40 1 (Some (replicate 512 7)) (demo_machine demo_drive) = (AURA_OK, s') \<and>
    ata_read_sectors ata_emu 40 1 (Some (replicate 512 0)) s' = (AURA_OK, Some (replicate 512 7), s'')"
proof -
  have "dev (demo_machine demo_drive) = demo_drive" by (simp add: demo_machine_def)
  then show ?thesis
    using ata_write_read [OF demo_drive_good, of "demo_machine demo_drive" 40 "replicate 512 7" 40 "replicate 512 0"] by auto
qed

text \<open>C31: a drive that never leaves its busy state cannot hang the kernel: identification, reads and writes give up
  with an error after the bounded number of status reads, and the buffer is untouched.\<close>

theorem ata_timeout:
  assumes "\<forall>d. fst (in8 D ATA_REG_STATUS d) AND ATA_SR_BSY \<noteq> 0" "count \<noteq> 0"
  shows "(\<exists>s'. ata_init D s = (AURA_ERR, s')) \<and>
    (let s' = s\<lparr>dev := ((snd \<circ> in8 D ATA_REG_STATUS) ^^ ATA_POLLS) (dev s)\<rparr>
     in ata_read_sectors D lba count (Some buf) s = (AURA_ERR, Some buf, s') \<and>
        ata_write_sectors D lba count (Some buf) s = (AURA_ERR, s'))"
proof -
  have "poll_bsy_loop D n t = (AURA_ERR, t\<lparr>dev := ((snd \<circ> in8 D ATA_REG_STATUS) ^^ n) (dev t)\<rparr>)" for n and t :: "('a, 'b) machine_scheme"
    using assms(1) by (induction n arbitrary: t) (simp_all add: inb_eq funpow_swap1)
  then have "ata_poll_bsy D t = (AURA_ERR, t\<lparr>dev := ((snd \<circ> in8 D ATA_REG_STATUS) ^^ ATA_POLLS) (dev t)\<rparr>)" for t :: "('a, 'b) machine_scheme"
    by (simp add: ata_poll_bsy_def)
  then show ?thesis
    using assms(2) by (simp add: ata_init_def ata_read_sectors_def ata_write_sectors_def Let_def split: prod.split)
qed

definition stuck_dev :: "unit io_dev" where
  "stuck_dev = \<lparr>in8 = (\<lambda>p d. (0x80, d)), out8 = (\<lambda>p v d. d), in16 = (\<lambda>p d. (0, d)), out16 = (\<lambda>p v d. d)\<rparr>"

theorem ata_timeout_witness:
  "\<exists>s'. ata_read_sectors stuck_dev 5 1 (Some [1, 2]) (demo_machine ()) = (AURA_ERR, Some [1, 2], s')"
proof -
  have "\<forall>d. fst (in8 stuck_dev ATA_REG_STATUS d) AND ATA_SR_BSY \<noteq> 0" by (simp add: stuck_dev_def)
  then show ?thesis using ata_timeout [of stuck_dev 1 "demo_machine ()" 5 "[1, 2]"] by (auto simp: Let_def)
qed

end
