(* ===== verification/Fat12.thy ===== *)
theory Fat12
  imports Scheduler Ata
begin

unbundle bit_operations_syntax

text \<open>
  \<^verbatim>\<open>env/fat12.c\<close>: a FAT12 volume with files of one cluster on the drive of theory \<open>Ata\<close>. The static
  buffers are fields of the state, a directory entry is 32 bytes of the sector buffer at an offset, and
  the packed 12-bit entries of the file allocation table are read and written in its bytes. The
  abstract directory is the list of the 224 entries on the disk; \<open>dir_lookup\<close> and \<open>dir_free\<close> say which
  entry a name refers to and which one is free.
\<close>

section \<open>State\<close>

record 'd fat_st = "'d sched_st" +
  s_sector_buf :: "u8 list"
  s_fat_buf :: "u8 list"
  s_fat_loaded :: bool

abbreviation BYTES_PER_SECTOR :: u32 where "BYTES_PER_SECTOR \<equiv> 512"
abbreviation FAT_SIZE_SECTORS :: nat where "FAT_SIZE_SECTORS \<equiv> 9"
abbreviation ROOT_ENTRY_COUNT :: nat where "ROOT_ENTRY_COUNT \<equiv> 224"
abbreviation FAT1_LBA :: u32 where "FAT1_LBA \<equiv> 1"
abbreviation FAT2_LBA :: u32 where "FAT2_LBA \<equiv> 10"
abbreviation ROOT_LBA :: u32 where "ROOT_LBA \<equiv> 19"
abbreviation DATA_LBA :: u32 where "DATA_LBA \<equiv> 33"
abbreviation FAT_BYTES :: nat where "FAT_BYTES \<equiv> 4608"

section \<open>The allocation table\<close>

definition cluster_to_lba :: "u16 \<Rightarrow> u32" where
  "cluster_to_lba cluster = DATA_LBA + (ucast cluster - 2) * 1"

text \<open>The byte offset of a cluster's entry; the 32-bit sum of the source cannot overflow.\<close>

definition fat_offset :: "u16 \<Rightarrow> nat" where
  "fat_offset cluster = unat cluster + unat cluster div 2"

definition fat_get :: "u8 list \<Rightarrow> u16 \<Rightarrow> u16" where
  "fat_get fat cluster =
     (let offset = fat_offset cluster
      in if FAT_BYTES \<le> offset + 1 then 0xFFF
         else let entry = ucast (fat ! offset) OR push_bit 8 (ucast (fat ! (offset + 1)))
              in if cluster AND 1 \<noteq> 0 then drop_bit 4 entry else entry AND 0x0FFF)"

definition fat_put :: "u16 \<Rightarrow> u16 \<Rightarrow> u8 list \<Rightarrow> u8 list" where
  "fat_put cluster val fat =
     (let offset = fat_offset cluster
      in if FAT_BYTES \<le> offset + 1 then fat
         else if cluster AND 1 \<noteq> 0
              then fat[offset := (fat ! offset AND 0x0F) OR ucast (push_bit 4 val AND 0xF0), offset + 1 := ucast (drop_bit 4 val)]
              else fat[offset := ucast (val AND 0xFF),
                       offset + 1 := (fat ! (offset + 1) AND 0xF0) OR ucast (drop_bit 8 val AND 0x0F)])"

definition fat12_next_cluster :: "u16 \<Rightarrow> ('d, 'z) fat_st_scheme \<Rightarrow> u16" where
  "fat12_next_cluster cluster s = fat_get (s_fat_buf s) cluster"

definition fat12_set_cluster :: "u16 \<Rightarrow> u16 \<Rightarrow> ('d, 'z) fat_st_scheme \<Rightarrow> ('d, 'z) fat_st_scheme" where
  "fat12_set_cluster cluster val s = s\<lparr>s_fat_buf := fat_put cluster val (s_fat_buf s)\<rparr>"

definition fat12_flush_fat :: "'d io_dev \<Rightarrow> ('d, 'z) fat_st_scheme \<Rightarrow> aura_status_t \<times> ('d, 'z) fat_st_scheme" where
  "fat12_flush_fat D s =
     (let (r, s) = write_run (ata_write1 D) FAT1_LBA [0..<FAT_SIZE_SECTORS] (s_fat_buf s) s
      in if r \<noteq> AURA_OK then (AURA_ERR, s)
         else write_run (ata_write1 D) FAT2_LBA [0..<FAT_SIZE_SECTORS] (s_fat_buf s) s)"

definition fat12_alloc_cluster :: "('d, 'z) fat_st_scheme \<Rightarrow> u16" where
  "fat12_alloc_cluster s =
     (case find (\<lambda>c. fat12_next_cluster c s = 0) (map of_nat [2..<2848]) of None \<Rightarrow> 0 | Some c \<Rightarrow> c)"

section \<open>Names and directory entries\<close>

definition upper_c :: "char \<Rightarrow> char" where
  "upper_c c = (if (97 :: nat) \<le> of_char c \<and> of_char c \<le> (122 :: nat) then char_of (of_char c - 32 :: nat) else c)"

fun name83_loop :: "string \<Rightarrow> nat \<Rightarrow> u8 list \<Rightarrow> u8 list" where
  "name83_loop [] di dst = dst"
| "name83_loop (c # cs) di dst =
     (if c = NUL \<or> 11 \<le> di then dst
      else if c = CHR ''.'' then name83_loop cs 8 dst
      else name83_loop cs (Suc di) (dst[di := byte_of (upper_c c)]))"

definition name_to_fat83 :: "string \<Rightarrow> u8 list" where
  "name_to_fat83 src = name83_loop src 0 (replicate 11 0x20)"

definition de_attr :: "u8 list \<Rightarrow> nat \<Rightarrow> u8" where
  "de_attr b off = b ! (off + 11)"

definition de_cluster :: "u8 list \<Rightarrow> nat \<Rightarrow> u16" where
  "de_cluster b off = ucast (b ! (off + 26)) OR push_bit 8 (ucast (b ! (off + 27)))"

definition de_size :: "u8 list \<Rightarrow> nat \<Rightarrow> u32" where
  "de_size b off = ucast (b ! (off + 28)) OR push_bit 8 (ucast (b ! (off + 29))) OR
     push_bit 16 (ucast (b ! (off + 30))) OR push_bit 24 (ucast (b ! (off + 31)))"

definition de_match :: "u8 list \<Rightarrow> nat \<Rightarrow> u8 list \<Rightarrow> bool" where
  "de_match b off fat83 \<longleftrightarrow> list_all (\<lambda>i. b ! (off + i) = fat83 ! i) [0..<11]"

definition de_skip :: "u8 list \<Rightarrow> nat \<Rightarrow> bool" where
  "de_skip b off \<longleftrightarrow> de_attr b off = 0x08 \<or> de_attr b off = 0x10 \<or> de_attr b off = 0x0F"

text \<open>The byte loops that copy \<open>n\<close> bytes to the start of a buffer, or store a list at an offset.\<close>

definition copy_bytes :: "u8 list \<Rightarrow> nat \<Rightarrow> u8 list \<Rightarrow> u8 list" where
  "copy_bytes src n dst = fold (\<lambda>i b. b[i := src ! i]) [0..<n] dst"

definition store_bytes :: "nat \<Rightarrow> u8 list \<Rightarrow> u8 list \<Rightarrow> u8 list" where
  "store_bytes off xs dst = fold (\<lambda>i b. b[off + i := xs ! i]) [0..<length xs] dst"

text \<open>Phase 4 of \<^verbatim>\<open>fat12_write_file\<close>: the fields of the entry in the order the source assigns them.\<close>

definition set_dirent :: "u8 list \<Rightarrow> nat \<Rightarrow> u8 list \<Rightarrow> u16 \<Rightarrow> u32 \<Rightarrow> u8 list" where
  "set_dirent b off fat83 cluster len =
     (let b = store_bytes off fat83 b;
          b = b[off + 11 := 0x20];
          b = store_bytes (off + 26) [ucast cluster, ucast (drop_bit 8 cluster)] b;
          b = store_bytes (off + 28) [ucast len, ucast (drop_bit 8 len), ucast (drop_bit 16 len), ucast (drop_bit 24 len)] b;
          b = store_bytes (off + 22) [0, 0] b;
          b = store_bytes (off + 24) [0, 0] b
      in store_bytes (off + 12) (replicate 10 0) b)"

section \<open>Files\<close>

definition fat12_init :: "'d io_dev \<Rightarrow> ('d, 'z) fat_st_scheme \<Rightarrow> aura_status_t \<times> ('d, 'z) fat_st_scheme" where
  "fat12_init D s =
     (let (r, b, s) = read_run (ata_read1 D) FAT1_LBA [0..<FAT_SIZE_SECTORS] (s_fat_buf s) s;
          s = s\<lparr>s_fat_buf := b\<rparr>
      in if r \<noteq> AURA_OK then (AURA_ERR, s) else (AURA_OK, s\<lparr>s_fat_loaded := True\<rparr>))"

text \<open>Reading a sector into \<^verbatim>\<open>s_sector_buf\<close>, and the place of a directory entry.\<close>

definition read_sector :: "'d io_dev \<Rightarrow> u32 \<Rightarrow> ('d, 'z) fat_st_scheme \<Rightarrow> aura_status_t \<times> ('d, 'z) fat_st_scheme" where
  "read_sector D lba s = (let (r, b, s) = ata_read1 D lba (s_sector_buf s) s in (r, s\<lparr>s_sector_buf := b\<rparr>))"

definition entry_sector :: "nat \<Rightarrow> u32" where
  "entry_sector entry = ROOT_LBA + (of_nat entry * 32) div BYTES_PER_SECTOR"

definition entry_off :: "nat \<Rightarrow> nat" where
  "entry_off entry = unat ((of_nat entry * 32) mod BYTES_PER_SECTOR)"

text \<open>The part of \<^verbatim>\<open>fat12_read_file\<close> after the entry has been found.\<close>

definition read_data :: "'d io_dev \<Rightarrow> nat \<Rightarrow> u8 list \<Rightarrow> u32 \<Rightarrow> ('d, 'z) fat_st_scheme \<Rightarrow> int \<times> u8 list \<times> ('d, 'z) fat_st_scheme" where
  "read_data D off buf len s =
     (let size = de_size (s_sector_buf s) off;
          to_read = if size < len then size else len;
          lba = cluster_to_lba (de_cluster (s_sector_buf s) off);
          (r, s) = read_sector D lba s
      in if r \<noteq> AURA_OK then (- 1, buf, s)
         else let copy = if to_read < BYTES_PER_SECTOR then to_read else BYTES_PER_SECTOR
              in (uint copy, copy_bytes (s_sector_buf s) (unat copy) buf, s))"

primrec fat12_read_loop ::
    "'d io_dev \<Rightarrow> u8 list \<Rightarrow> u8 list \<Rightarrow> u32 \<Rightarrow> nat list \<Rightarrow> ('d, 'z) fat_st_scheme \<Rightarrow> int \<times> u8 list \<times> ('d, 'z) fat_st_scheme" where
  "fat12_read_loop D fat83 buf len [] s = (- 1, buf, s)"
| "fat12_read_loop D fat83 buf len (entry # entries) s =
     (let off = entry_off entry;
          (r, s) = read_sector D (entry_sector entry) s
      in if r \<noteq> AURA_OK then (- 1, buf, s)
         else if s_sector_buf s ! off = 0x00 then (- 1, buf, s)
         else if s_sector_buf s ! off = 0xE5 then fat12_read_loop D fat83 buf len entries s
         else if de_skip (s_sector_buf s) off then fat12_read_loop D fat83 buf len entries s
         else if \<not> de_match (s_sector_buf s) off fat83 then fat12_read_loop D fat83 buf len entries s
         else read_data D off buf len s)"

definition fat12_read_file ::
    "'d io_dev \<Rightarrow> string option \<Rightarrow> u8 list option \<Rightarrow> u32 \<Rightarrow> ('d, 'z) fat_st_scheme \<Rightarrow> int \<times> u8 list option \<times> ('d, 'z) fat_st_scheme" where
  "fat12_read_file D name buf len s =
     (case (name, buf) of
        (Some name, Some b) \<Rightarrow>
          (if \<not> s_fat_loaded s \<or> len = 0 then (- 1, buf, s)
           else let (n, b, s) = fat12_read_loop D (name_to_fat83 name) b len [0..<ROOT_ENTRY_COUNT] s in (n, Some b, s))
      | _ \<Rightarrow> (- 1, buf, s))"

text \<open>Phase 1 of \<^verbatim>\<open>fat12_write_file\<close>: the entry found (sector, offset, cluster) and the first free one.\<close>

primrec fat12_scan ::
    "'d io_dev \<Rightarrow> u8 list \<Rightarrow> nat list \<Rightarrow> (u32 \<times> nat) option \<Rightarrow> ('d, 'z) fat_st_scheme \<Rightarrow>
     aura_status_t \<times> (u32 \<times> nat \<times> u16) option \<times> (u32 \<times> nat) option \<times> ('d, 'z) fat_st_scheme" where
  "fat12_scan D fat83 [] free s = (AURA_OK, None, free, s)"
| "fat12_scan D fat83 (entry # entries) free s =
     (let sector = entry_sector entry;
          off = entry_off entry;
          (r, s) = read_sector D sector s;
          free' = (case free of None \<Rightarrow> Some (sector, off) | Some f \<Rightarrow> Some f)
      in if r \<noteq> AURA_OK then (AURA_ERR, None, free, s)
         else if s_sector_buf s ! off = 0x00 then (AURA_OK, None, free', s)
         else if s_sector_buf s ! off = 0xE5 then fat12_scan D fat83 entries free' s
         else if de_skip (s_sector_buf s) off then fat12_scan D fat83 entries free s
         else if de_match (s_sector_buf s) off fat83 then (AURA_OK, Some (sector, off, de_cluster (s_sector_buf s) off), free, s)
         else fat12_scan D fat83 entries free s)"

text \<open>Phases 3 to 5, for the cluster and the directory entry chosen.\<close>

definition write_entry ::
    "'d io_dev \<Rightarrow> u8 list \<Rightarrow> u8 list \<Rightarrow> u32 \<Rightarrow> u16 \<Rightarrow> u32 \<Rightarrow> nat \<Rightarrow> ('d, 'z) fat_st_scheme \<Rightarrow> int \<times> ('d, 'z) fat_st_scheme" where
  "write_entry D fat83 buf len cluster target_sector target_off s =
     (let s = s\<lparr>s_sector_buf := copy_bytes buf (unat len) (replicate 512 0)\<rparr>;
          (r, s) = ata_write1 D (cluster_to_lba cluster) (s_sector_buf s) s
      in if r \<noteq> AURA_OK then (- 1, s)
         else let (r, s) = read_sector D target_sector s
              in if r \<noteq> AURA_OK then (- 1, s)
                 else let s = s\<lparr>s_sector_buf := set_dirent (s_sector_buf s) target_off fat83 cluster len\<rparr>;
                          (r, s) = ata_write1 D target_sector (s_sector_buf s) s
                      in if r \<noteq> AURA_OK then (- 1, s)
                         else let (r, s) = fat12_flush_fat D s
                              in if r \<noteq> AURA_OK then (- 1, s) else (uint len, s))"

definition fat12_write_file ::
    "'d io_dev \<Rightarrow> string option \<Rightarrow> u8 list option \<Rightarrow> u32 \<Rightarrow> ('d, 'z) fat_st_scheme \<Rightarrow> int \<times> ('d, 'z) fat_st_scheme" where
  "fat12_write_file D name buf len s =
     (case (name, buf) of
        (Some name, Some buf) \<Rightarrow>
          (if \<not> s_fat_loaded s then (- 1, s)
           else let len = (if BYTES_PER_SECTOR < len then BYTES_PER_SECTOR else len);
                    fat83 = name_to_fat83 name;
                    (r, found, free, s) = fat12_scan D fat83 [0..<ROOT_ENTRY_COUNT] None s
                in if r \<noteq> AURA_OK then (- 1, s)
                   else case found of
                          Some (sector, off, cluster) \<Rightarrow>
                            write_entry D fat83 buf len cluster sector off (fat12_set_cluster cluster 0xFFF s)
                        | None \<Rightarrow>
                            (case free of
                               None \<Rightarrow> (- 1, s)
                             | Some (sector, off) \<Rightarrow>
                                 let cluster = fat12_alloc_cluster s
                                 in if cluster = 0 then (- 1, s)
                                    else write_entry D fat83 buf len cluster sector off (fat12_set_cluster cluster 0xFFF s)))
      | _ \<Rightarrow> (- 1, s))"

section \<open>Lemmas on the allocation table\<close>

lemma bit_consts:
  "bit (0x0F :: int) n \<longleftrightarrow> n < 4" "bit (0xF0 :: int) n \<longleftrightarrow> 4 \<le> n \<and> n < 8" "bit (0xFF :: int) n \<longleftrightarrow> n < 8" "bit (0xFFF :: int) n \<longleftrightarrow> n < 12"
proof -
  have e: "(0x0F :: int) = mask 4" "(0xF0 :: int) = push_bit 4 (mask 4)" "(0xFF :: int) = mask 8" "(0xFFF :: int) = mask 12"
    by (simp_all add: mask_eq_exp_minus_1)
  show "bit (0x0F :: int) n \<longleftrightarrow> n < 4" unfolding e(1) by (auto simp: bit_simps simp del: mask_numeral)
  show "bit (0xF0 :: int) n \<longleftrightarrow> 4 \<le> n \<and> n < 8" unfolding e(2) by (auto simp: bit_simps simp del: mask_numeral)
  show "bit (0xFF :: int) n \<longleftrightarrow> n < 8" unfolding e(3) by (auto simp: bit_simps simp del: mask_numeral)
  show "bit (0xFFF :: int) n \<longleftrightarrow> n < 12" unfolding e(4) by (auto simp: bit_simps simp del: mask_numeral)
qed

text \<open>The bits of an entry, spread over two bytes.\<close>

lemma odd_cluster: "c AND 1 \<noteq> (0 :: u16) \<longleftrightarrow> odd (unat c)"
  using bit_unsigned_iff [of c 0, where ?'a = nat] by (simp add: and_one_eq mod_2_eq_odd bit_0)

lemma bit_fat_get:
  assumes "fat_offset c + 1 < 4608"
  shows "bit (fat_get fat c) n \<longleftrightarrow> n < 12 \<and>
    (if odd (unat c) then (if n < 4 then bit (fat ! fat_offset c) (n + 4) else bit (fat ! (fat_offset c + 1)) (n - 4))
     else (if n < 8 then bit (fat ! fat_offset c) n else bit (fat ! (fat_offset c + 1)) (n - 8)))"
  using assms by (cases "odd (unat c)")
    (auto simp: fat_get_def Let_def odd_cluster bit_simps bit_consts add.commute dest: bit_imp_le_length)

lemma length_fat_put [simp]: "length (fat_put c v fat) = length fat"
  by (simp add: fat_put_def Let_def)

lemma fat_put_nth:
  assumes "length fat = 4608" "fat_offset c + 1 < 4608"
  shows "fat_put c v fat ! i =
    (if i = fat_offset c then (if odd (unat c) then (fat ! i AND 0x0F) OR ucast (push_bit 4 v AND 0xF0) else ucast (v AND 0xFF))
     else if i = fat_offset c + 1 then (if odd (unat c) then ucast (drop_bit 4 v) else (fat ! i AND 0xF0) OR ucast (drop_bit 8 v AND 0x0F))
     else fat ! i)"
  using assms by (simp add: fat_put_def Let_def odd_cluster nth_list_update)

lemma fat_get_put_same:
  assumes "length fat = 4608" "fat_offset c + 1 < 4608"
  shows "fat_get (fat_put c v fat) c = v AND 0xFFF"
proof (rule bit_word_eqI)
  fix n
  assume "n < LENGTH(16)"
  show "bit (fat_get (fat_put c v fat) c) n = bit (v AND 0xFFF) n"
    using assms by (auto simp: bit_fat_get fat_put_nth bit_simps bit_consts)
qed

lemma fat_offset_cases:
  assumes "c \<noteq> c'"
  shows "fat_offset c' \<notin> {fat_offset c, fat_offset c + 1} \<and> fat_offset c' + 1 \<notin> {fat_offset c, fat_offset c + 1} \<or>
    even (unat c) \<and> odd (unat c') \<and> fat_offset c' = fat_offset c + 1 \<or>
    odd (unat c) \<and> even (unat c') \<and> fat_offset c = fat_offset c' + 1"
proof -
  have "unat c \<noteq> unat c'" using assms by (simp add: word_unat_eq_iff)
  then show ?thesis unfolding fat_offset_def
    by (cases "even (unat c)"; cases "even (unat c')") (auto elim!: evenE oddE)
qed

lemma fat_get_put_other:
  assumes "length fat = 4608" "c \<noteq> c'"
  shows "fat_get (fat_put c v fat) c' = fat_get fat c'"
proof (cases "fat_offset c + 1 < 4608 \<and> fat_offset c' + 1 < 4608")
  case True
  show ?thesis
  proof (rule bit_word_eqI)
    fix n
    assume "n < LENGTH(16)"
    show "bit (fat_get (fat_put c v fat) c') n = bit (fat_get fat c') n"
      using fat_offset_cases [OF assms(2)] True assms(1)
      by (elim disjE) (auto simp: bit_fat_get fat_put_nth bit_simps bit_consts)
  qed
next
  case False
  then show ?thesis by (auto simp: fat_get_def fat_put_def Let_def)
qed

section \<open>Lemmas on bytes and names\<close>

lemma copy_bytes_eq: "n \<le> length src \<Longrightarrow> n \<le> length dst \<Longrightarrow> copy_bytes src n dst = take n src @ drop n dst"
proof (induction n)
  case 0
  then show ?case by (simp add: copy_bytes_def)
next
  case (Suc n)
  have "drop n dst = dst ! n # drop (Suc n) dst" using Suc.prems by (simp add: Cons_nth_drop_Suc)
  then show ?case using Suc by (simp add: copy_bytes_def take_Suc_conv_app_nth list_update_append)
qed

lemma store_bytes_nth:
  assumes "off + length xs \<le> length dst"
  shows "length (store_bytes off xs dst) = length dst \<and>
    store_bytes off xs dst ! i = (if off \<le> i \<and> i < off + length xs then xs ! (i - off) else dst ! i)"
proof -
  have "length (fold (\<lambda>i b. b[off + i := xs ! i]) [0..<n] dst) = length dst \<and>
      fold (\<lambda>i b. b[off + i := xs ! i]) [0..<n] dst ! i = (if off \<le> i \<and> i < off + n then xs ! (i - off) else dst ! i)"
    if "n \<le> length xs" for n
    using that
  proof (induction n)
    case 0
    then show ?case by auto
  next
    case (Suc n)
    then show ?case using assms by (cases "i = off + n") auto
  qed
  from this [of "length xs"] show ?thesis by (simp add: store_bytes_def)
qed

lemma set_dirent_nth:
  assumes "off + 32 \<le> length b" "length n = 11"
  shows "length (set_dirent b off n c len) = length b"
    "i < off \<or> off + 32 \<le> i \<Longrightarrow> set_dirent b off n c len ! i = b ! i"
    "k < 11 \<Longrightarrow> set_dirent b off n c len ! (off + k) = n ! k"
    "de_attr (set_dirent b off n c len) off = 0x20"
    "de_cluster (set_dirent b off n c len) off = c"
    "de_size (set_dirent b off n c len) off = len"
proof -
  have s: "length (store_bytes o' xs dst) = length dst"
    "store_bytes o' xs dst ! i = (if o' \<le> i \<and> i < o' + length xs then xs ! (i - o') else dst ! i)"
    if "o' + length xs \<le> length dst" for o' xs i and dst :: "u8 list" using store_bytes_nth [OF that] by auto
  show len: "length (set_dirent b off n c len) = length b" using assms by (simp add: set_dirent_def Let_def s)
  have nth: "set_dirent b off n c len ! i =
     (if off \<le> i \<and> i < off + 11 then n ! (i - off) else if i = off + 11 then 0x20 else if off + 12 \<le> i \<and> i < off + 26 then 0
      else if i = off + 26 then ucast c else if i = off + 27 then ucast (drop_bit 8 c)
      else if i = off + 28 then ucast len else if i = off + 29 then ucast (drop_bit 8 len)
      else if i = off + 30 then ucast (drop_bit 16 len) else if i = off + 31 then ucast (drop_bit 24 len) else b ! i)" for i
  proof -
    consider "off + 12 \<le> i \<and> i < off + 22" | "i = off + 22" | "i = off + 23" | "i = off + 24" | "i = off + 25" | "i = off + 26" | "i = off + 27"
      | "i = off + 28" | "i = off + 29" | "i = off + 30" | "i = off + 31" | "i < off + 12" | "off + 32 \<le> i" by atomize_elim presburger
    then show ?thesis by cases (use assms in \<open>auto simp: set_dirent_def Let_def s nth_list_update\<close>)
  qed
  show "i < off \<or> off + 32 \<le> i \<Longrightarrow> set_dirent b off n c len ! i = b ! i" by (auto simp: nth)
  show "k < 11 \<Longrightarrow> set_dirent b off n c len ! (off + k) = n ! k" by (simp add: nth)
  show "de_attr (set_dirent b off n c len) off = 0x20" by (simp add: de_attr_def nth)
  show "de_cluster (set_dirent b off n c len) off = c"
    by (rule bit_word_eqI) (auto simp: de_cluster_def nth bit_simps)
  show "de_size (set_dirent b off n c len) off = len"
  proof (rule bit_word_eqI)
    fix k
    assume "k < LENGTH(32)"
    then consider "k < 8" | "8 \<le> k" "k < 16" | "16 \<le> k" "k < 24" | "24 \<le> k" "k < 32" by fastforce
    then show "bit (de_size (set_dirent b off n c len) off) k \<longleftrightarrow> bit len k"
      by cases (auto simp: de_size_def nth bit_simps)
  qed
qed

lemma length_name83_loop [simp]: "length (name83_loop cs di dst) = length dst"
  by (induction cs di dst rule: name83_loop.induct) simp_all

lemma length_name_to_fat83 [simp]: "length (name_to_fat83 name) = 11"
  by (simp add: name_to_fat83_def)

lemma upper_c_nonzero: "c \<noteq> NUL \<Longrightarrow> byte_of (upper_c c) \<noteq> 0"
proof
  assume c: "c \<noteq> NUL" and "byte_of (upper_c c) = 0"
  then have z: "of_char (upper_c c) = (0 :: nat)" by (metis unat_byte_of unsigned_0)
  show False
  proof (cases "(97 :: nat) \<le> of_char c \<and> of_char c \<le> (122 :: nat)")
    case True
    then have "(of_char c - 32 :: nat) < 256" by linarith
    then show ?thesis using z True by (simp add: upper_c_def)
  next
    case False
    then have "of_char c = (0 :: nat)" using z by (simp only: upper_c_def if_False)
    moreover have "of_char NUL = (0 :: nat)" by simp
    ultimately show ?thesis using c by (metis of_char_eq_iff)
  qed
qed

lemma name83_loop_nonzero: "0 \<notin> set dst \<Longrightarrow> 0 \<notin> set (name83_loop cs di dst)"
proof (induction cs di dst rule: name83_loop.induct)
  case (1 di dst)
  then show ?case by simp
next
  case (2 c cs di dst)
  have "0 \<notin> set (dst[di := byte_of (upper_c c)])" if "c \<noteq> NUL"
    using 2(3) upper_c_nonzero [OF that] set_update_subset_insert [of dst di "byte_of (upper_c c)"] by auto
  then show ?case using 2 by auto
qed

lemma name_to_fat83_nonzero: "name_to_fat83 name ! 0 \<noteq> 0"
proof -
  have "0 \<notin> set (name_to_fat83 name)" unfolding name_to_fat83_def by (rule name83_loop_nonzero) simp
  then show ?thesis by (metis length_name_to_fat83 nth_mem zero_less_numeral)
qed

section \<open>The directory\<close>

datatype entry_kind = K_end | K_deleted | K_match | K_other

definition kind_of :: "u8 list \<Rightarrow> u8 list \<Rightarrow> nat \<Rightarrow> entry_kind" where
  "kind_of n b off =
     (if b ! off = 0 then K_end else if b ! off = 0xE5 then K_deleted
      else if \<not> de_skip b off \<and> de_match b off n then K_match else K_other)"

text \<open>Entry \<open>e\<close> of the directory on the disk with contents \<open>disk\<close>.\<close>

definition dir_sector :: "nat \<Rightarrow> nat" where "dir_sector e = 19 + e div 16"
definition dir_off :: "nat \<Rightarrow> nat" where "dir_off e = 32 * (e mod 16)"

definition entry_kind :: "u8 list \<Rightarrow> (nat \<Rightarrow> u8 list) \<Rightarrow> nat \<Rightarrow> entry_kind" where
  "entry_kind n disk e = kind_of n (disk (dir_sector e)) (dir_off e)"

fun dir_lookup :: "(nat \<Rightarrow> entry_kind) \<Rightarrow> nat list \<Rightarrow> nat option" where
  "dir_lookup k [] = None"
| "dir_lookup k (e # es) = (case k e of K_end \<Rightarrow> None | K_match \<Rightarrow> Some e | _ \<Rightarrow> dir_lookup k es)"

fun dir_free :: "(nat \<Rightarrow> entry_kind) \<Rightarrow> nat list \<Rightarrow> nat option" where
  "dir_free k [] = None"
| "dir_free k (e # es) = (if k e = K_end \<or> k e = K_deleted then Some e else dir_free k es)"

lemma entry_place:
  assumes "e < 224"
  shows "unat (entry_sector e) = dir_sector e" "entry_off e = dir_off e"
proof -
  have u: "unat (of_nat e * 32 :: u32) = e * 32" using assms by (simp add: unat_word_ariths unat_of_nat)
  have "e * 32 div 512 = e div 16" by linarith
  then have d: "unat ((of_nat e * 32 :: u32) div 512) = e div 16" using u by (simp add: unat_div)
  have "e div 16 < 14" using assms by linarith
  then show "unat (entry_sector e) = dir_sector e" using d by (simp add: entry_sector_def dir_sector_def unat_word_ariths)
  have "e * 32 mod 512 = 32 * (e mod 16)" using mult_mod_right [of 32 e 16] by (simp add: mult.commute)
  then show "entry_off e = dir_off e" using u by (simp add: entry_off_def dir_off_def unat_mod)
qed

lemma dir_place_bounds: "e < 224 \<Longrightarrow> dir_sector e < 33 \<and> 19 \<le> dir_sector e \<and> dir_off e + 32 \<le> 512"
  by (auto simp: dir_sector_def dir_off_def)

lemma dir_lookup_found:
  "dir_lookup k es = Some e \<Longrightarrow> k' e = K_match \<Longrightarrow> (\<And>x. x \<in> set es \<Longrightarrow> x \<noteq> e \<Longrightarrow> k' x = k x) \<Longrightarrow> dir_lookup k' es = Some e"
proof (induction es)
  case (Cons x es)
  then show ?case by (cases "x = e") (auto split: entry_kind.splits)
qed simp

lemma dir_lookup_free:
  "dir_lookup k es = None \<Longrightarrow> dir_free k es = Some e \<Longrightarrow> k' e = K_match \<Longrightarrow> (\<And>x. x \<in> set es \<Longrightarrow> x \<noteq> e \<Longrightarrow> k' x = k x) \<Longrightarrow> dir_lookup k' es = Some e"
proof (induction es)
  case (Cons x es)
  then show ?case by (cases "x = e") (auto split: entry_kind.splits if_splits)
qed simp

lemma dir_lookup_mem: "dir_lookup k es = Some e \<Longrightarrow> e \<in> set es \<and> k e = K_match"
  by (induction es) (auto split: entry_kind.splits)

lemma dir_free_mem: "dir_free k es = Some e \<Longrightarrow> e \<in> set es"
  by (induction es) (auto split: if_splits)

section \<open>Operations on a mounted volume\<close>

definition vol_ok :: "'d io_dev \<Rightarrow> ('d \<Rightarrow> drive) \<Rightarrow> ('d, 'z) fat_st_scheme \<Rightarrow> bool" where
  "vol_ok D view s \<longleftrightarrow> drive_good D view 2880 s \<and> length (s_sector_buf s) = 512 \<and> length (s_fat_buf s) = 4608 \<and> s_fat_loaded s"

text \<open>States that differ in the device and the sector buffer only, with the same disk.\<close>

definition vol_same :: "'d io_dev \<Rightarrow> ('d \<Rightarrow> drive) \<Rightarrow> ('d, 'z) fat_st_scheme \<Rightarrow> ('d, 'z) fat_st_scheme \<Rightarrow> bool" where
  "vol_same D view s s' \<longleftrightarrow> vol_ok D view s' \<and> sector_of view s' = sector_of view s \<and> (\<exists>d b. s' = s\<lparr>dev := d, s_sector_buf := b\<rparr>)"

lemma vol_same_refl: "vol_ok D view s \<Longrightarrow> vol_same D view s s"
  by (auto simp: vol_same_def intro!: exI [of _ "dev s"] exI [of _ "s_sector_buf s"])

lemma vol_same_trans: "vol_same D view s t \<Longrightarrow> vol_same D view t u \<Longrightarrow> vol_same D view s u"
  unfolding vol_same_def by (elim conjE exE, intro conjI) (assumption, simp, intro exI, simp)

lemma vol_same_fields:
  assumes "vol_same D view s t"
  shows "vol_ok D view t" "sector_of view t = sector_of view s" "s_fat_buf t = s_fat_buf s"
  using assms by (auto simp: vol_same_def)

lemma drive_good_buf [simp]: "drive_good D view cap (s\<lparr>s_sector_buf := b\<rparr>) = drive_good D view cap s"
  by (simp add: drive_good_def)

lemma sector_of_buf [simp]: "sector_of view (s\<lparr>s_sector_buf := b\<rparr>) = sector_of view s"
  by (simp add: sector_of_def)

lemma vol_same_buf: "vol_same D view s t \<Longrightarrow> length b = 512 \<Longrightarrow> vol_same D view s (t\<lparr>s_sector_buf := b\<rparr>)"
  unfolding vol_same_def by (elim conjE exE, intro conjI) (simp add: vol_ok_def, simp, intro exI, simp)

lemma read_sector_ok:
  assumes "vol_ok D view s" "unat lba < 2880"
  shows "\<exists>s'. read_sector D lba s = (AURA_OK, s') \<and> vol_same D view s s' \<and> s_sector_buf s' = sector_of view s (unat lba)"
proof -
  have g: "drive_good D view 2880 s" "length (s_sector_buf s) = 512" using assms(1) by (simp_all add: vol_ok_def)
  obtain d where d: "ata_read1 D lba (s_sector_buf s) s = (AURA_OK, sector_of view s (unat lba), s\<lparr>dev := d\<rparr>)"
    "drive_good D view 2880 (s\<lparr>dev := d\<rparr>)" "sector_of view (s\<lparr>dev := d\<rparr>) = sector_of view s"
    using ata.rd_ok [OF g(1) assms(2), of "s_sector_buf s"] g(2) by auto
  have "length (sector_of view s (unat lba)) = 512" using ata.sector_len [OF g(1) assms(2)] .
  then have "vol_same D view s (s\<lparr>dev := d, s_sector_buf := sector_of view s (unat lba)\<rparr>)"
    using d(2,3) assms(1) by (auto simp: vol_same_def vol_ok_def)
  then show ?thesis using d(1) by (auto simp: read_sector_def)
qed

lemma fat12_read_loop_ok:
  fixes s :: "('d, 'z) fat_st_scheme"
  shows "vol_ok D view s \<Longrightarrow> set es \<subseteq> {..<224} \<Longrightarrow>
    \<exists>s'. vol_same D view s s' \<and>
      fat12_read_loop D n buf len es s =
        (case dir_lookup (entry_kind n (sector_of view s)) es of
           None \<Rightarrow> (- 1, buf, s')
         | Some e \<Rightarrow> read_data D (dir_off e) buf len (s'\<lparr>s_sector_buf := sector_of view s (dir_sector e)\<rparr>))"
proof (induction es arbitrary: s)
  case Nil
  then show ?case using vol_same_refl by auto
next
  case (Cons e es)
  have e: "e < 224" using Cons.prems by simp
  obtain t where t: "read_sector D (entry_sector e) s = (AURA_OK, t)" "vol_same D view s t"
    "s_sector_buf t = sector_of view s (dir_sector e)"
    using read_sector_ok [OF Cons.prems(1), of "entry_sector e"] entry_place [OF e] dir_place_bounds [OF e] by auto
  let ?b = "s_sector_buf t" and ?k = "entry_kind n (sector_of view s)"
  have k: "?k e = kind_of n ?b (dir_off e)" by (simp add: entry_kind_def t(3))
  obtain s' where s': "vol_same D view t s'" "fat12_read_loop D n buf len es t =
        (case dir_lookup ?k es of None \<Rightarrow> (- 1, buf, s')
         | Some e \<Rightarrow> read_data D (dir_off e) buf len (s'\<lparr>s_sector_buf := sector_of view s (dir_sector e)\<rparr>))"
    using Cons.IH [OF vol_same_fields(1) [OF t(2)], unfolded vol_same_fields(2) [OF t(2)]] Cons.prems(2) by auto
  have unf: "fat12_read_loop D n buf len (e # es) s =
      (case ?k e of K_end \<Rightarrow> (- 1, buf, t) | K_match \<Rightarrow> read_data D (dir_off e) buf len t | _ \<Rightarrow> fat12_read_loop D n buf len es t)"
    using t(1) by (simp add: k kind_of_def entry_place [OF e] Let_def)
  show ?case
  proof (cases "?k e = K_end \<or> ?k e = K_match")
    case True
    moreover have "t\<lparr>s_sector_buf := sector_of view s (dir_sector e)\<rparr> = t" using t(3) by (metis fat_st.surjective fat_st.update_convs(1))
    ultimately show ?thesis using t(2) unf by auto
  next
    case False
    then show ?thesis using s' unf vol_same_trans [OF t(2) s'(1)] by (cases "?k e") auto
  qed
qed

lemma fat12_scan_ok:
  fixes s :: "('d, 'z) fat_st_scheme"
  shows "vol_ok D view s \<Longrightarrow> set es \<subseteq> {..<224} \<Longrightarrow> k = entry_kind n (sector_of view s) \<Longrightarrow>
    \<exists>free' s'. vol_same D view s s' \<and> fat12_scan D n es free s =
      (AURA_OK, map_option (\<lambda>e. (entry_sector e, dir_off e, de_cluster (sector_of view s (dir_sector e)) (dir_off e))) (dir_lookup k es), free', s') \<and>
      (dir_lookup k es = None \<longrightarrow> free' = (case free of None \<Rightarrow> map_option (\<lambda>e. (entry_sector e, dir_off e)) (dir_free k es) | Some f \<Rightarrow> Some f))"
proof (induction es arbitrary: s free)
  case Nil
  then show ?case using vol_same_refl by (auto split: option.split)
next
  case (Cons e es)
  have e: "e < 224" using Cons.prems by simp
  obtain t where t: "read_sector D (entry_sector e) s = (AURA_OK, t)" "vol_same D view s t"
    "s_sector_buf t = sector_of view s (dir_sector e)"
    using read_sector_ok [OF Cons.prems(1), of "entry_sector e"] entry_place [OF e] dir_place_bounds [OF e] by auto
  let ?b = "s_sector_buf t"
  let ?free = "case free of None \<Rightarrow> Some (entry_sector e, dir_off e) | Some f \<Rightarrow> Some f"
  have k: "k e = kind_of n ?b (dir_off e)" by (simp add: entry_kind_def t(3) Cons.prems(3))
  have unf: "fat12_scan D n (e # es) free s =
      (case k e of K_end \<Rightarrow> (AURA_OK, None, ?free, t)
       | K_match \<Rightarrow> (AURA_OK, Some (entry_sector e, dir_off e, de_cluster ?b (dir_off e)), free, t)
       | K_deleted \<Rightarrow> fat12_scan D n es ?free t
       | K_other \<Rightarrow> fat12_scan D n es free t)"
    using t(1) by (simp add: k kind_of_def entry_place [OF e] Let_def)
  note IH = Cons.IH [OF vol_same_fields(1) [OF t(2)]]
  have kt: "k = entry_kind n (sector_of view t)" "set es \<subseteq> {..<224}" using Cons.prems vol_same_fields(2) [OF t(2)] by simp_all
  show ?case
  proof (cases "k e")
    case K_end
    then show ?thesis using t(2) unf by (auto split: option.split)
  next
    case K_match
    then show ?thesis using t(2,3) unf by auto
  next
    case K_deleted
    obtain free' s' where r: "vol_same D view t s'" "fat12_scan D n es ?free t = (AURA_OK,
        map_option (\<lambda>e. (entry_sector e, dir_off e, de_cluster (sector_of view t (dir_sector e)) (dir_off e))) (dir_lookup k es), free', s')"
      "dir_lookup k es = None \<longrightarrow> free' = (case ?free of None \<Rightarrow> map_option (\<lambda>e. (entry_sector e, dir_off e)) (dir_free k es) | Some f \<Rightarrow> Some f)"
      using IH [OF kt(2,1), where free = ?free] by (elim exE conjE) (rule that)
    have "dir_lookup k es = None \<longrightarrow> free' = ?free" using r(3) by (simp split: option.splits)
    then show ?thesis using K_deleted unf r(2) vol_same_trans [OF t(2) r(1)] vol_same_fields(2) [OF t(2)]
      by (intro exI [of _ free'] exI [of _ s']) (simp split: option.split)
  next
    case K_other
    obtain free' s' where r: "vol_same D view t s'" "fat12_scan D n es free t = (AURA_OK,
        map_option (\<lambda>e. (entry_sector e, dir_off e, de_cluster (sector_of view t (dir_sector e)) (dir_off e))) (dir_lookup k es), free', s')"
      "dir_lookup k es = None \<longrightarrow> free' = (case free of None \<Rightarrow> map_option (\<lambda>e. (entry_sector e, dir_off e)) (dir_free k es) | Some f \<Rightarrow> Some f)"
      using IH [OF kt(2,1), where free = free] by (elim exE conjE) (rule that)
    then show ?thesis using K_other unf vol_same_trans [OF t(2) r(1)] vol_same_fields(2) [OF t(2)]
      by (intro exI [of _ free'] exI [of _ s']) (simp split: option.split)
  qed
qed

text \<open>Writing a sector, and both copies of the table.\<close>

lemma ata_write1_ok:
  assumes "vol_ok D view s" "unat lba < 2880" "length b = 512"
  shows "\<exists>d. ata_write1 D lba b s = (AURA_OK, s\<lparr>dev := d\<rparr>) \<and> vol_ok D view (s\<lparr>dev := d\<rparr>) \<and>
    sector_of view (s\<lparr>dev := d\<rparr>) = (sector_of view s)(unat lba := b)"
  using ata.wr_ok [of D view 2880 s lba b] assms by (auto simp: vol_ok_def)

definition fat_chunk :: "u8 list \<Rightarrow> nat \<Rightarrow> u8 list" where
  "fat_chunk fat k = take 512 (drop (k * 512) fat)"

definition fats_written :: "u8 list \<Rightarrow> (nat \<Rightarrow> u8 list) \<Rightarrow> nat \<Rightarrow> u8 list" where
  "fats_written fat disk L = (if 1 \<le> L \<and> L < 10 then fat_chunk fat (L - 1) else if 10 \<le> L \<and> L < 19 then fat_chunk fat (L - 10) else disk L)"

lemma write_fat_ok:
  assumes "vol_ok D view s" "base \<le> 10"
  shows "\<exists>d. write_run (ata_write1 D) base [0..<9] (s_fat_buf s) s = (AURA_OK, s\<lparr>dev := d\<rparr>) \<and> vol_ok D view (s\<lparr>dev := d\<rparr>) \<and>
    sector_of view (s\<lparr>dev := d\<rparr>) = (\<lambda>L. if unat base \<le> L \<and> L < unat base + 9 then fat_chunk (s_fat_buf s) (L - unat base) else sector_of view s L)"
proof -
  have b: "unat base \<le> 10" using assms(2) by (simp add: word_le_nat_alt)
  then have "unat (base + of_nat k) = unat base + k" if "k < 9" for k
    using that by (simp add: unat_word_ariths unat_of_nat)
  then obtain d where d: "write_run (ata_write1 D) base [0..<9] (s_fat_buf s) s = (AURA_OK, s\<lparr>dev := d\<rparr>)" "drive_good D view 2880 (s\<lparr>dev := d\<rparr>)"
    "sector_of view (s\<lparr>dev := d\<rparr>) = (\<lambda>L. if unat base \<le> L \<and> L < unat base + 9 then take 512 (drop ((L - unat base) * 512) (s_fat_buf s)) else sector_of view s L)"
    using ata.write_run_ok [of D view 2880 s 9 base "s_fat_buf s"] assms(1) b by (auto simp: vol_ok_def simp del: upt_rec_numeral)
  then show ?thesis using assms(1) unfolding fat_chunk_def by (intro exI [of _ d]) (simp add: vol_ok_def del: upt_rec_numeral)
qed

lemma fat12_flush_fat_ok:
  assumes "vol_ok D view s"
  shows "\<exists>d. fat12_flush_fat D s = (AURA_OK, s\<lparr>dev := d\<rparr>) \<and> vol_ok D view (s\<lparr>dev := d\<rparr>) \<and>
    sector_of view (s\<lparr>dev := d\<rparr>) = fats_written (s_fat_buf s) (sector_of view s)"
proof -
  have u: "unat (1 :: u32) = 1" "unat (10 :: u32) = 10" "(1 :: u32) \<le> 10" by (simp_all add: word_le_nat_alt)
  obtain d where d: "write_run (ata_write1 D) 1 [0..<9] (s_fat_buf s) s = (AURA_OK, s\<lparr>dev := d\<rparr>)" "vol_ok D view (s\<lparr>dev := d\<rparr>)"
    "sector_of view (s\<lparr>dev := d\<rparr>) = (\<lambda>L. if 1 \<le> L \<and> L < 1 + 9 then fat_chunk (s_fat_buf s) (L - 1) else sector_of view s L)"
    using write_fat_ok [OF assms u(3), unfolded u(1)] by blast
  have fb: "s_fat_buf (s\<lparr>dev := d\<rparr>) = s_fat_buf s" by simp
  obtain e where e: "write_run (ata_write1 D) 10 [0..<9] (s_fat_buf s) (s\<lparr>dev := d\<rparr>) = (AURA_OK, s\<lparr>dev := e\<rparr>)" "vol_ok D view (s\<lparr>dev := e\<rparr>)"
    "sector_of view (s\<lparr>dev := e\<rparr>) = (\<lambda>L. if 10 \<le> L \<and> L < 10 + 9 then fat_chunk (s_fat_buf s) (L - 10) else sector_of view (s\<lparr>dev := d\<rparr>) L)"
    using write_fat_ok [OF d(2) order_refl, unfolded u(2)] unfolding fb by auto
  have "sector_of view (s\<lparr>dev := e\<rparr>) = fats_written (s_fat_buf s) (sector_of view s)"
    unfolding e(3) d(3) fats_written_def by (auto simp: fun_eq_iff)
  then show ?thesis using d(1) e(1,2) by (auto simp: fat12_flush_fat_def simp del: upt_rec_numeral)
qed

lemma cluster_lba:
  assumes "2 \<le> unat c" "unat c < 2848"
  shows "unat (cluster_to_lba c) = unat c + 31"
proof -
  have "unat (ucast c :: u32) = unat c" using assms(2) by (simp add: unsigned_ucast_eq take_bit_nat_eq_self)
  then show ?thesis using assms by (simp add: cluster_to_lba_def unat_word_ariths)
qed

lemma write_entry_ok:
  fixes s :: "('d, 'z) fat_st_scheme"
  assumes ok: "vol_ok D view s" and c: "2 \<le> unat c" "unat c < 2848" and e: "e < 224"
    and n: "length n = 11" and len: "len \<le> 512" "unat len \<le> length buf"
  shows "\<exists>s'. write_entry D n buf len c (entry_sector e) (dir_off e) s = (uint len, s') \<and> vol_ok D view s' \<and> s_fat_buf s' = s_fat_buf s \<and>
    sector_of view s' = fats_written (s_fat_buf s)
      ((sector_of view s)(unat c + 31 := take (unat len) buf @ replicate (512 - unat len) 0,
         dir_sector e := set_dirent (sector_of view s (dir_sector e)) (dir_off e) n c len))"
proof -
  note b = dir_place_bounds [OF e]
  have l: "unat len \<le> 512" using len(1) by (simp add: word_le_nat_alt)
  define data where "data = take (unat len) buf @ replicate (512 - unat len) 0"
  have data: "copy_bytes buf (unat len) (replicate 512 0) = data" "length data = 512"
    using l len(2) by (simp_all add: data_def copy_bytes_eq)
  define s1 where "s1 = s\<lparr>s_sector_buf := data\<rparr>"
  have s1: "vol_ok D view s1" "sector_of view s1 = sector_of view s" using ok data by (simp_all add: s1_def vol_ok_def)
  obtain d where d: "ata_write1 D (cluster_to_lba c) data s1 = (AURA_OK, s1\<lparr>dev := d\<rparr>)" "vol_ok D view (s1\<lparr>dev := d\<rparr>)"
    "sector_of view (s1\<lparr>dev := d\<rparr>) = (sector_of view s)(unat c + 31 := data)"
    using ata_write1_ok [OF s1(1), of "cluster_to_lba c" data] cluster_lba [OF c] c data s1(2) by auto
  obtain s2 where s2: "read_sector D (entry_sector e) (s1\<lparr>dev := d\<rparr>) = (AURA_OK, s2)" "vol_same D view (s1\<lparr>dev := d\<rparr>) s2"
    "s_sector_buf s2 = sector_of view s (dir_sector e)"
    using read_sector_ok [OF d(2), of "entry_sector e"] entry_place [OF e] b c d(3) by auto
  note s2f = vol_same_fields [OF s2(2)]
  define b' where "b' = set_dirent (sector_of view s (dir_sector e)) (dir_off e) n c len"
  have "length (sector_of view s (dir_sector e)) = 512" using s2f(1) s2(3) by (simp add: vol_ok_def)
  then have b': "length b' = 512" using b n by (simp add: b'_def set_dirent_nth)
  define s3 where "s3 = s2\<lparr>s_sector_buf := b'\<rparr>"
  have s3: "vol_ok D view s3" "sector_of view s3 = sector_of view s2" using s2f(1) b' by (simp_all add: s3_def vol_ok_def)
  obtain d' where d': "ata_write1 D (entry_sector e) b' s3 = (AURA_OK, s3\<lparr>dev := d'\<rparr>)" "vol_ok D view (s3\<lparr>dev := d'\<rparr>)"
    "sector_of view (s3\<lparr>dev := d'\<rparr>) = (sector_of view s)(unat c + 31 := data, dir_sector e := b')"
    using ata_write1_ok [OF s3(1), of "entry_sector e" b'] entry_place [OF e] b b' s3(2) s2f(2) d(3) by auto
  have fb: "s_fat_buf (s3\<lparr>dev := d'\<rparr>) = s_fat_buf s" using s2f(3) by (simp add: s3_def s1_def)
  obtain d'' where d'': "fat12_flush_fat D (s3\<lparr>dev := d'\<rparr>) = (AURA_OK, s3\<lparr>dev := d''\<rparr>)" "vol_ok D view (s3\<lparr>dev := d''\<rparr>)"
    "sector_of view (s3\<lparr>dev := d''\<rparr>) = fats_written (s_fat_buf s) ((sector_of view s)(unat c + 31 := data, dir_sector e := b'))"
    using fat12_flush_fat_ok [OF d'(2)] fb d'(3) by auto
  have "write_entry D n buf len c (entry_sector e) (dir_off e) s = (uint len, s3\<lparr>dev := d''\<rparr>)"
    using d(1) s2(1,3) d'(1) d''(1) data(1) by (simp add: write_entry_def Let_def s1_def s3_def b'_def)
  then show ?thesis using d''(2,3) fb by (auto simp: data_def b'_def)
qed

text \<open>The directory entry and the cluster a write of \<open>name\<close> goes to, if there is room.\<close>

definition lookup_file :: "('d \<Rightarrow> drive) \<Rightarrow> string \<Rightarrow> ('d, 'z) fat_st_scheme \<Rightarrow> nat option" where
  "lookup_file view name s = dir_lookup (entry_kind (name_to_fat83 name) (sector_of view s)) [0..<224]"

definition file_cluster :: "('d \<Rightarrow> drive) \<Rightarrow> nat \<Rightarrow> ('d, 'z) fat_st_scheme \<Rightarrow> u16" where
  "file_cluster view e s = de_cluster (sector_of view s (dir_sector e)) (dir_off e)"

definition write_target :: "('d \<Rightarrow> drive) \<Rightarrow> string \<Rightarrow> ('d, 'z) fat_st_scheme \<Rightarrow> (nat \<times> u16) option" where
  "write_target view name s =
     (case lookup_file view name s of
        Some e \<Rightarrow> Some (e, file_cluster view e s)
      | None \<Rightarrow>
         (case dir_free (entry_kind (name_to_fat83 name) (sector_of view s)) [0..<224] of
            None \<Rightarrow> None
          | Some e \<Rightarrow> if fat12_alloc_cluster s = 0 then None else Some (e, fat12_alloc_cluster s)))"

lemma alloc_cong: "s_fat_buf s' = s_fat_buf s \<Longrightarrow> fat12_alloc_cluster s' = fat12_alloc_cluster s"
  by (simp add: fat12_alloc_cluster_def fat12_next_cluster_def del: upt_rec_numeral)

lemma vol_ok_set_cluster: "vol_ok D view s \<Longrightarrow> vol_ok D view (fat12_set_cluster c v s)"
  by (simp add: vol_ok_def fat12_set_cluster_def drive_good_def)

definition cap_len :: "u32 \<Rightarrow> u32" where
  "cap_len len = (if 512 < len then 512 else len)"

lemma unat_cap_len: "unat (cap_len len) = min (unat len) 512" "cap_len len \<le> 512"
  by (auto simp: cap_len_def word_less_nat_alt word_le_nat_alt min_def)

lemma fat12_write_file_scan:
  fixes s :: "('d, 'z) fat_st_scheme"
  assumes ok: "vol_ok D view s"
  shows "\<exists>t. vol_same D view s t \<and> fat12_write_file D (Some name) (Some buf) len s =
    (case write_target view name s of
       None \<Rightarrow> (- 1, t)
     | Some (e, c) \<Rightarrow> write_entry D (name_to_fat83 name) buf (cap_len len) c (entry_sector e) (dir_off e) (fat12_set_cluster c 0xFFF t))"
proof -
  let ?n = "name_to_fat83 name" and ?es = "[0..<224]"
  let ?k = "entry_kind ?n (sector_of view s)"
  have es: "set ?es \<subseteq> {..<224}" by auto
  obtain free t where t: "vol_same D view s t" "fat12_scan D ?n ?es None s =
      (AURA_OK, map_option (\<lambda>e. (entry_sector e, dir_off e, de_cluster (sector_of view s (dir_sector e)) (dir_off e))) (dir_lookup ?k ?es), free, t)"
    "dir_lookup ?k ?es = None \<longrightarrow> free = map_option (\<lambda>e. (entry_sector e, dir_off e)) (dir_free ?k ?es)"
    using fat12_scan_ok [OF ok es refl, where free = None and n = ?n, unfolded option.case] by (elim exE conjE) (rule that)
  have l: "s_fat_loaded s" using ok by (simp add: vol_ok_def)
  have a: "fat12_alloc_cluster t = fat12_alloc_cluster s" using alloc_cong vol_same_fields(3) [OF t(1)] .
  show ?thesis
  proof (cases "dir_lookup ?k ?es")
    case None
    then show ?thesis using t l a
      by (intro exI [of _ t]) (auto simp: fat12_write_file_def write_target_def lookup_file_def cap_len_def Let_def split: option.split simp del: upt_rec_numeral)
  next
    case (Some e)
    then show ?thesis using t(1,2) l
      by (intro exI [of _ t]) (simp add: fat12_write_file_def write_target_def lookup_file_def file_cluster_def cap_len_def Let_def del: upt_rec_numeral)
  qed
qed

lemma fat12_write_file_ok:
  fixes s :: "('d, 'z) fat_st_scheme"
  assumes ok: "vol_ok D view s" and tg: "write_target view name s = Some (e, c)" "2 \<le> unat c" "unat c < 2848" and len: "unat len \<le> length buf"
  defines "m \<equiv> min (unat len) 512"
  shows "\<exists>s'. fat12_write_file D (Some name) (Some buf) len s = (int m, s') \<and> vol_ok D view s' \<and> e < 224 \<and>
    s_fat_buf s' = fat_put c 0xFFF (s_fat_buf s) \<and>
    sector_of view s' = fats_written (s_fat_buf s')
      ((sector_of view s)(unat c + 31 := take m buf @ replicate (512 - m) 0,
         dir_sector e := set_dirent (sector_of view s (dir_sector e)) (dir_off e) (name_to_fat83 name) c (cap_len len)))"
proof -
  have "e \<in> set [0..<224]"
  proof (cases "lookup_file view name s")
    case None
    then have "dir_free (entry_kind (name_to_fat83 name) (sector_of view s)) [0..<224] = Some e"
      using tg(1) by (simp add: write_target_def split: option.splits if_splits del: upt_rec_numeral)
    then show ?thesis by (rule dir_free_mem)
  next
    case (Some x)
    then have "dir_lookup (entry_kind (name_to_fat83 name) (sector_of view s)) [0..<224] = Some e"
      using tg(1) by (simp add: write_target_def lookup_file_def del: upt_rec_numeral)
    then show ?thesis using dir_lookup_mem by blast
  qed
  then have e: "e < 224" by (simp del: upt_rec_numeral)
  obtain t where t: "vol_same D view s t" "fat12_write_file D (Some name) (Some buf) len s =
      write_entry D (name_to_fat83 name) buf (cap_len len) c (entry_sector e) (dir_off e) (fat12_set_cluster c 0xFFF t)"
    using fat12_write_file_scan [OF ok, of name buf len] tg(1) by auto
  note tf = vol_same_fields [OF t(1)]
  let ?t = "fat12_set_cluster c 0xFFF t"
  have m1: "unat (cap_len len) = m" unfolding m_def by (rule unat_cap_len)
  then have m: "unat (cap_len len) = m" "cap_len len \<le> 512" "unat (cap_len len) \<le> length buf" "uint (cap_len len) = int m"
    using len unat_cap_len(2) [of len] by (simp_all only: m_def min.coboundedI1 uint_nat m1 [unfolded m_def])
  have "sector_of view ?t = sector_of view s" "s_fat_buf ?t = fat_put c 0xFFF (s_fat_buf s)"
    using tf(2,3) by (simp_all add: sector_of_def fat12_set_cluster_def)
  then show ?thesis
    using write_entry_ok [OF vol_ok_set_cluster [OF tf(1)] tg(2,3) e length_name_to_fat83 m(2,3), of name c "0xFFF"]
    unfolding m(1,4) t(2) using e by auto
qed

text \<open>The directory after a write.\<close>

lemma set_dirent_kind:
  assumes "off + 32 \<le> length b" "length n = 11" "n ! 0 \<noteq> 0" "n ! 0 \<noteq> 0xE5" "length n2 = 11"
  shows "kind_of n2 (set_dirent b off n c len) off = (if n2 = n then K_match else K_other)"
proof -
  note nth = set_dirent_nth [OF assms(1,2), where c = c and len = len]
  have "de_match (set_dirent b off n c len) off n2 \<longleftrightarrow> (\<forall>i < 11. n ! i = n2 ! i)"
    using nth(3) by (auto simp: de_match_def list_all_iff simp del: upt_rec_numeral)
  also have "\<dots> \<longleftrightarrow> n2 = n" using assms(2,5) by (auto intro: nth_equalityI)
  finally show ?thesis using nth(3) [of 0] nth(4) assms(3,4) by (simp add: kind_of_def de_skip_def)
qed

lemma kind_of_cong: "(\<And>i. off \<le> i \<Longrightarrow> i < off + 32 \<Longrightarrow> b' ! i = b ! i) \<Longrightarrow> kind_of n b' off = kind_of n b off"
  by (auto simp: kind_of_def de_skip_def de_attr_def de_match_def list_all_iff simp del: upt_rec_numeral)

lemma dirent_cong:
  assumes "\<And>i. off \<le> i \<Longrightarrow> i < off + 32 \<Longrightarrow> b' ! i = b ! i"
  shows "de_cluster b' off = de_cluster b off" "de_size b' off = de_size b off"
  using assms by (simp_all add: de_cluster_def de_size_def)

lemma other_entry_kept:
  assumes "e2 \<noteq> e" "dir_sector e2 = dir_sector e" "length b = 512" "length n = 11" "dir_off e2 \<le> i" "i < dir_off e2 + 32"
  shows "set_dirent b (dir_off e) n c len ! i = b ! i"
proof -
  have "e2 mod 16 \<noteq> e mod 16"
    using assms(1,2) unfolding dir_sector_def by (metis add_left_cancel div_mult_mod_eq)
  then have "i < dir_off e \<or> dir_off e + 32 \<le> i" using assms(5,6) unfolding dir_off_def by linarith
  moreover have "dir_off e + 32 \<le> length b" using assms(3) by (simp add: dir_off_def)
  ultimately show ?thesis using assms(4) by (intro set_dirent_nth(2))
qed

definition file_size :: "('d \<Rightarrow> drive) \<Rightarrow> nat \<Rightarrow> ('d, 'z) fat_st_scheme \<Rightarrow> u32" where
  "file_size view e s = de_size (sector_of view s (dir_sector e)) (dir_off e)"

lemma read_data_ok:
  fixes s :: "('d, 'z) fat_st_scheme"
  assumes ok: "vol_ok D view s" and c: "de_cluster (s_sector_buf s) off = c" "2 \<le> unat c" "unat c < 2848" and len: "unat len \<le> length buf"
  defines "j \<equiv> min (min (unat (de_size (s_sector_buf s) off)) (unat len)) 512"
  shows "\<exists>s'. read_data D off buf len s = (int j, take j (sector_of view s (unat c + 31)) @ drop j buf, s') \<and> vol_same D view s s'"
proof -
  obtain s' where s': "read_sector D (cluster_to_lba c) s = (AURA_OK, s')" "vol_same D view s s'" "s_sector_buf s' = sector_of view s (unat c + 31)"
    using read_sector_ok [OF ok, of "cluster_to_lba c"] cluster_lba [OF c(2,3)] c by auto
  let ?size = "de_size (s_sector_buf s) off"
  let ?to = "if ?size < len then ?size else len"
  let ?copy = "if ?to < 512 then ?to else 512"
  have j: "unat ?copy = j" by (auto simp: j_def word_less_nat_alt min_def)
  have "length (s_sector_buf s') = 512" using vol_same_fields(1) [OF s'(2)] by (simp add: vol_ok_def)
  moreover have "j \<le> 512" "j \<le> length buf" using len by (simp_all add: j_def min.coboundedI1 min.coboundedI2)
  ultimately have "copy_bytes (s_sector_buf s') j buf = take j (sector_of view s (unat c + 31)) @ drop j buf"
    using s'(3) copy_bytes_eq by metis
  then have "read_data D off buf len s = (uint ?copy, take j (sector_of view s (unat c + 31)) @ drop j buf, s')"
    unfolding read_data_def Let_def c(1) s'(1) prod.case j [symmetric] by simp
  then show ?thesis using s'(2) j by (auto simp: uint_nat)
qed

lemma fat12_read_file_ok:
  fixes s :: "('d, 'z) fat_st_scheme"
  assumes ok: "vol_ok D view s" and e: "lookup_file view name s = Some e" and c: "file_cluster view e s = c" "2 \<le> unat c" "unat c < 2848"
    and len: "len \<noteq> 0" "unat len \<le> length buf"
  defines "j \<equiv> min (min (unat (file_size view e s)) (unat len)) 512"
  shows "\<exists>s'. fat12_read_file D (Some name) (Some buf) len s = (int j, Some (take j (sector_of view s (unat c + 31)) @ drop j buf), s') \<and>
    vol_same D view s s'"
proof -
  have es: "set [0..<224] \<subseteq> {..<224 :: nat}" by (simp add: subset_iff del: upt_rec_numeral)
  obtain t where t: "vol_same D view s t" "fat12_read_loop D (name_to_fat83 name) buf len [0..<224] s =
      read_data D (dir_off e) buf len (t\<lparr>s_sector_buf := sector_of view s (dir_sector e)\<rparr>)"
    using fat12_read_loop_ok [OF ok es, of "name_to_fat83 name" buf len] e by (auto simp: lookup_file_def simp del: upt_rec_numeral)
  let ?t = "t\<lparr>s_sector_buf := sector_of view s (dir_sector e)\<rparr>"
  have "e < 224" using e dir_lookup_mem [of _ "[0..<224]" e] by (auto simp: lookup_file_def simp del: upt_rec_numeral)
  then have "length (sector_of view s (dir_sector e)) = 512"
    using ata.sector_len [of D view 2880 s "dir_sector e"] ok dir_place_bounds [of e] by (simp add: vol_ok_def)
  then have v: "vol_same D view s ?t" using vol_same_buf [OF t(1)] by simp
  obtain s' where "read_data D (dir_off e) buf len ?t = (int j, take j (sector_of view ?t (unat c + 31)) @ drop j buf, s')" "vol_same D view ?t s'"
    using read_data_ok [OF vol_same_fields(1) [OF v], of "dir_off e" c len buf] c len(2) by (auto simp: file_cluster_def file_size_def j_def)
  then show ?thesis
    using t(2) ok len(1) vol_same_trans [OF v] vol_same_fields(2) [OF v]
    by (auto simp: fat12_read_file_def vol_ok_def simp del: upt_rec_numeral)
qed

lemma dir_lookup_other:
  "dir_lookup k es = Some e2 \<Longrightarrow> e2 \<noteq> e \<Longrightarrow> k' e = K_other \<Longrightarrow> (\<And>x. x \<in> set es \<Longrightarrow> x \<noteq> e \<Longrightarrow> k' x = k x) \<Longrightarrow> dir_lookup k' es = Some e2"
proof (induction es)
  case (Cons x es)
  then show ?case by (cases "x = e") (auto split: entry_kind.splits)
qed simp

text \<open>What a write makes of the directory and of the data of the files.\<close>

lemma written_dir:
  fixes s s' :: "('d, 'z) fat_st_scheme"
  assumes ok: "vol_ok D view s" and e: "e < 224" and n: "n = name_to_fat83 name" "n ! 0 \<noteq> 0xE5" and c: "2 \<le> unat c"
    and s': "sector_of view s' = fats_written fat ((sector_of view s)(unat c + 31 := data,
      dir_sector e := set_dirent (sector_of view s (dir_sector e)) (dir_off e) n c len))"
  shows "entry_kind (name_to_fat83 m) (sector_of view s') e = (if name_to_fat83 m = n then K_match else K_other)"
    "x \<noteq> e \<Longrightarrow> x < 224 \<Longrightarrow> entry_kind (name_to_fat83 m) (sector_of view s') x = entry_kind (name_to_fat83 m) (sector_of view s) x"
    "file_cluster view e s' = c" "file_size view e s' = len" "sector_of view s' (unat c + 31) = data"
    "x \<noteq> e \<Longrightarrow> x < 224 \<Longrightarrow> file_cluster view x s' = file_cluster view x s \<and> file_size view x s' = file_size view x s"
    "33 \<le> L \<Longrightarrow> L \<noteq> unat c + 31 \<Longrightarrow> sector_of view s' L = sector_of view s L"
proof -
  note b = dir_place_bounds [OF e]
  let ?b = "sector_of view s (dir_sector e)"
  have len: "length ?b = 512" using ata.sector_len [of D view 2880 s "dir_sector e"] ok b by (simp add: vol_ok_def)
  have n11: "length n = 11" by (simp add: n)
  have d: "sector_of view s' (dir_sector e) = set_dirent ?b (dir_off e) n c len" using b by (simp add: s' fats_written_def)
  note nth = set_dirent_nth [of "dir_off e" ?b n, where c = c and len = len, OF _ n11]
  have off: "dir_off e + 32 \<le> length ?b" using b len by simp
  show "entry_kind (name_to_fat83 m) (sector_of view s') e = (if name_to_fat83 m = n then K_match else K_other)"
    using set_dirent_kind [OF off n11 _ n(2), of "name_to_fat83 m" c len] name_to_fat83_nonzero [of name] by (simp add: entry_kind_def d n(1))
  show "file_cluster view e s' = c" "file_size view e s' = len" using nth off by (simp_all add: file_cluster_def file_size_def d)
  show "sector_of view s' (unat c + 31) = data" using b c by (simp add: s' fats_written_def)
  show "33 \<le> L \<Longrightarrow> L \<noteq> unat c + 31 \<Longrightarrow> sector_of view s' L = sector_of view s L" using b by (simp add: s' fats_written_def)
  have keep: "sector_of view s' (dir_sector x) ! i = sector_of view s (dir_sector x) ! i"
    if "x \<noteq> e" "x < 224" "dir_off x \<le> i" "i < dir_off x + 32" for x i
  proof (cases "dir_sector x = dir_sector e")
    case True
    then show ?thesis using other_entry_kept [OF that(1) True len n11 that(3,4)] d by simp
  next
    case False
    then show ?thesis using dir_place_bounds [OF that(2)] c by (simp add: s' fats_written_def)
  qed
  show "entry_kind (name_to_fat83 m) (sector_of view s') x = entry_kind (name_to_fat83 m) (sector_of view s) x" if "x \<noteq> e" "x < 224"
    unfolding entry_kind_def by (rule kind_of_cong) (rule keep [OF that])
  show "file_cluster view x s' = file_cluster view x s \<and> file_size view x s' = file_size view x s" if "x \<noteq> e" "x < 224"
    unfolding file_cluster_def file_size_def by (intro conjI dirent_cong) (rule keep [OF that], assumption+)+
qed

text \<open>A file after it has been written.\<close>

lemma fat12_written:
  fixes s :: "('d, 'z) fat_st_scheme"
  assumes ok: "vol_ok D view s" and tg: "write_target view name s = Some (e, c)" and c: "2 \<le> unat c" "unat c < 2848"
    and n: "name_to_fat83 name ! 0 \<noteq> 0xE5" and len: "unat len \<le> length buf"
  defines "m \<equiv> min (unat len) 512"
  shows "\<exists>s'. fat12_write_file D (Some name) (Some buf) len s = (int m, s') \<and> vol_ok D view s' \<and>
    lookup_file view name s' = Some e \<and> file_cluster view e s' = c \<and> file_size view e s' = cap_len len \<and>
    sector_of view s' (unat c + 31) = take m buf @ replicate (512 - m) 0 \<and> s_fat_buf s' = fat_put c 0xFFF (s_fat_buf s) \<and>
    (\<forall>k < 9. sector_of view s' (1 + k) = fat_chunk (s_fat_buf s') k \<and> sector_of view s' (10 + k) = fat_chunk (s_fat_buf s') k)"
proof -
  let ?n = "name_to_fat83 name"
  obtain s' where w: "fat12_write_file D (Some name) (Some buf) len s = (int m, s')" "vol_ok D view s'" "e < 224"
    "s_fat_buf s' = fat_put c 0xFFF (s_fat_buf s)" "sector_of view s' = fats_written (s_fat_buf s')
      ((sector_of view s)(unat c + 31 := take m buf @ replicate (512 - m) 0,
         dir_sector e := set_dirent (sector_of view s (dir_sector e)) (dir_off e) ?n c (cap_len len)))"
    using fat12_write_file_ok [OF ok tg c len] unfolding m_def by blast
  note dir = written_dir [OF ok w(3) refl n c(1) w(5)]
  let ?k = "entry_kind ?n (sector_of view s)" and ?k' = "entry_kind ?n (sector_of view s')"
  have kx: "?k' x = ?k x" if "x \<in> set [0..<224]" "x \<noteq> e" for x using dir(2) [of x name] that by (simp del: upt_rec_numeral)
  have ke: "?k' e = K_match" using dir(1) [of name] by simp
  have l: "lookup_file view name s' = Some e"
  proof (cases "lookup_file view name s")
    case None
    then have "dir_free ?k [0..<224] = Some e" using tg by (simp add: write_target_def split: option.splits if_splits del: upt_rec_numeral)
    then show ?thesis using None dir_lookup_free [of ?k "[0..<224]" e ?k'] ke kx by (simp add: lookup_file_def del: upt_rec_numeral)
  next
    case (Some x)
    then have "dir_lookup ?k [0..<224] = Some e" using tg by (simp add: write_target_def lookup_file_def del: upt_rec_numeral)
    then show ?thesis using dir_lookup_found [of ?k "[0..<224]" e ?k'] ke kx by (simp add: lookup_file_def del: upt_rec_numeral)
  qed
  have "sector_of view s' (1 + k) = fat_chunk (s_fat_buf s') k \<and> sector_of view s' (10 + k) = fat_chunk (s_fat_buf s') k" if "k < 9" for k
    unfolding w(5) using that by (simp add: fats_written_def)
  then show ?thesis using w(1,2,4) l dir(3-5) by blast
qed

section \<open>Properties\<close>

text \<open>C29: a 12-bit entry of the allocation table is read back as it was stored, and storing it changes no other
  entry, although neighbouring entries share a byte.\<close>

theorem fat12_entries_independent:
  assumes "length (s_fat_buf s) = 4608" "c < 3072"
  shows "fat12_next_cluster c (fat12_set_cluster c v s) = v AND 0xFFF \<and>
    (\<forall>c'. c' \<noteq> c \<longrightarrow> fat12_next_cluster c' (fat12_set_cluster c v s) = fat12_next_cluster c' s)"
proof -
  have "unat c < 3072" using assms(2) by (simp add: word_less_nat_alt)
  then have "fat_offset c + 1 < 4608" unfolding fat_offset_def by linarith
  then show ?thesis
    using fat_get_put_same [OF assms(1)] fat_get_put_other [OF assms(1)] by (simp add: fat12_next_cluster_def fat12_set_cluster_def)
qed

text \<open>A volume with an empty directory on the emulated drive, for the concrete instances.\<close>

definition demo_volume :: "drive fat_st" where
  "demo_volume = blank_sched demo_drive (fat_st_ext (replicate 512 0) (replicate 4608 0) True ())"

theorem fat12_entries_independent_witness:
  "fat12_next_cluster 5 (fat12_set_cluster 5 0xABC demo_volume) = 0xABC \<and>
   fat12_next_cluster 4 (fat12_set_cluster 5 0xABC demo_volume) = 0"
proof -
  have l: "length (s_fat_buf demo_volume) = 4608" by (simp add: demo_volume_def blank_sched_def)
  have "fat12_next_cluster 4 demo_volume = 0"
    by (simp add: fat12_next_cluster_def fat_get_def fat_offset_def demo_volume_def blank_sched_def Let_def)
  then show ?thesis
    using fat12_entries_independent [OF l, of 5 "0xABC"] by (simp add: word_less_nat_alt)
qed

lemma demo_volume_ok: "vol_ok ata_emu (\<lambda>d. d) demo_volume"
  using demo_drive_good [of demo_volume] by (simp add: vol_ok_def demo_volume_def) (simp add: blank_sched_def)

lemma empty_volume_target:
  fixes s :: "(drive, 'z) fat_st_scheme"
  assumes "dev s = demo_drive" "s_fat_buf s = replicate 4608 0"
  shows "lookup_file (\<lambda>d. d) name s = None" "write_target (\<lambda>d. d) name s = Some (0, 2)"
proof -
  have sec: "sector_of (\<lambda>d. d) s L = replicate 512 0" for L
    using assms(1) by (simp add: sector_of_def demo_drive_def)
  have k: "entry_kind n (sector_of (\<lambda>d. d) s) 0 = K_end" for n
    by (simp add: entry_kind_def kind_of_def sec dir_off_def)
  have u: "[0..<224] = 0 # [1..<224]" by (simp add: upt_conv_Cons del: upt_rec_numeral)
  show l: "lookup_file (\<lambda>d. d) name s = None" unfolding lookup_file_def u by (simp add: k del: upt_rec_numeral)
  have f: "dir_free (entry_kind (name_to_fat83 name) (sector_of (\<lambda>d. d) s)) [0..<224] = Some 0"
    unfolding u by (simp add: k del: upt_rec_numeral)
  have "fat12_next_cluster 2 s = 0" by (simp add: fat12_next_cluster_def fat_get_def fat_offset_def assms(2) Let_def)
  moreover have "[2..<2848] = 2 # [3..<2848]" by (simp add: upt_conv_Cons del: upt_rec_numeral)
  ultimately have "fat12_alloc_cluster s = 2" by (simp add: fat12_alloc_cluster_def del: upt_rec_numeral)
  then show "write_target (\<lambda>d. d) name s = Some (0, 2)" using l f by (simp add: write_target_def del: upt_rec_numeral)
qed

lemma demo_volume_empty: "dev demo_volume = demo_drive" "s_fat_buf demo_volume = replicate 4608 0"
  by (simp_all add: demo_volume_def) (simp add: blank_sched_def)

text \<open>C7: on a mounted volume, writing a file for which there is room succeeds, that is, it does not return -1, and stores
  the first \<open>min len 512\<close> bytes of it; reading it afterwards returns exactly these bytes, cut at the reader's
  length, and their number. The volume stays mounted and in order, and both copies of the allocation
  table on the disk are the table in memory, where the file's cluster is marked as the end of a chain.
  The value that stands for success is left open: \<^verbatim>\<open>fat12.h\<close> promises 0, and the code returns the number of
  bytes stored (\<open>fat12_written\<close>).\<close>

theorem fat12_write_read:
  assumes ok: "vol_ok D view s" and tg: "write_target view name s = Some (e, c)" "2 \<le> c" "c < 2848"
    and n: "name_to_fat83 name ! 0 \<noteq> 0xE5" and len: "unat len \<le> length buf" and r: "rlen \<noteq> 0" "unat rlen \<le> length rbuf"
  shows "\<exists>ret s' s''. let m = min (unat len) 512; j = min m (unat rlen) in
    fat12_write_file D (Some name) (Some buf) len s = (ret, s') \<and> ret \<noteq> - 1 \<and>
    fat12_read_file D (Some name) (Some rbuf) rlen s' = (int j, Some (take j buf @ drop j rbuf), s'') \<and>
    vol_ok D view s' \<and> fat12_next_cluster c s' = 0xFFF \<and>
    (\<forall>k < 9. sector_of view s' (1 + k) = take 512 (drop (k * 512) (s_fat_buf s')) \<and>
             sector_of view s' (10 + k) = take 512 (drop (k * 512) (s_fat_buf s')))"
proof -
  define m where "m = min (unat len) 512"
  define j where "j = min m (unat rlen)"
  have c: "2 \<le> unat c" "unat c < 2848" using tg(2,3) by (simp_all add: word_le_nat_alt word_less_nat_alt)
  obtain s' where w: "fat12_write_file D (Some name) (Some buf) len s = (int m, s')" "vol_ok D view s'"
    "lookup_file view name s' = Some e" "file_cluster view e s' = c" "file_size view e s' = cap_len len"
    "sector_of view s' (unat c + 31) = take m buf @ replicate (512 - m) 0" "s_fat_buf s' = fat_put c 0xFFF (s_fat_buf s)"
    "\<forall>k < 9. sector_of view s' (1 + k) = fat_chunk (s_fat_buf s') k \<and> sector_of view s' (10 + k) = fat_chunk (s_fat_buf s') k"
    using fat12_written [OF ok tg(1) c n len] unfolding m_def by blast
  obtain s'' where rd: "fat12_read_file D (Some name) (Some rbuf) rlen s' =
      (int (min (min m (unat rlen)) 512), Some (take (min (min m (unat rlen)) 512) (take m buf @ replicate (512 - m) 0) @ drop (min (min m (unat rlen)) 512) rbuf), s'')"
    using fat12_read_file_ok [OF w(2,3,4) c r] unfolding w(5,6) unat_cap_len(1) m_def [symmetric] by blast
  have "min (min m (unat rlen)) 512 = j" "m \<le> length buf" "j \<le> m" using len by (simp_all add: j_def m_def min_def)
  then have "fat12_read_file D (Some name) (Some rbuf) rlen s' = (int j, Some (take j buf @ drop j rbuf), s'')" using rd by simp
  moreover have "fat12_next_cluster c s' = 0xFFF"
    using fat_get_put_same [of "s_fat_buf s" c "0xFFF"] w(7) ok c(2) by (simp add: fat12_next_cluster_def vol_ok_def fat_offset_def)
  moreover have "int m \<noteq> - 1" by simp
  ultimately show ?thesis using w(1,2,8) unfolding Let_def m_def [symmetric] j_def [symmetric] fat_chunk_def by blast
qed

theorem fat12_write_read_witness:
  "\<exists>ret s' s''. fat12_write_file ata_emu (Some ''AIOS.ENV'') (Some [72, 105]) 2 demo_volume = (ret, s') \<and> ret \<noteq> - 1 \<and>
     fat12_read_file ata_emu (Some ''AIOS.ENV'') (Some [0, 0, 0, 0]) 4 s' = (2, Some [72, 105, 0, 0], s'')"
proof -
  have "name_to_fat83 ''AIOS.ENV'' ! 0 \<noteq> 0xE5" by (simp add: name_to_fat83_def upper_c_def byte_of_def)
  then show ?thesis
    using fat12_write_read [OF demo_volume_ok empty_volume_target(2) [OF demo_volume_empty], of "''AIOS.ENV''" 2 "[72, 105]" 4 "[0, 0, 0, 0]"]
    by (auto simp: Let_def word_less_nat_alt word_le_nat_alt)
qed

text \<open>The entry a file is written to belongs to no other file, unless they share a cluster.\<close>

lemma write_target_other:
  assumes tg: "write_target view name s = Some (e, c)" and m: "entry_kind n (sector_of view s) e2 = K_match" and ne: "file_cluster view e2 s \<noteq> c"
  shows "e2 \<noteq> e"
proof
  assume "e2 = e"
  show False
  proof (cases "lookup_file view name s")
    case None
    then have f: "dir_free (entry_kind (name_to_fat83 name) (sector_of view s)) [0..<224] = Some e"
      using tg by (simp add: write_target_def split: option.splits if_splits del: upt_rec_numeral)
    have "dir_free k es = Some x \<Longrightarrow> k x = K_end \<or> k x = K_deleted" for k es x by (induction es) (auto split: if_splits)
    from this [OF f] have "entry_kind n (sector_of view s) e = K_end \<or> entry_kind n (sector_of view s) e = K_deleted"
      by (auto simp: entry_kind_def kind_of_def split: if_splits)
    then show False using m \<open>e2 = e\<close> by auto
  next
    case (Some x)
    then have "c = file_cluster view e s" using tg by (auto simp: write_target_def)
    then show False using \<open>e2 = e\<close> ne by simp
  qed
qed

text \<open>C10: writing a file leaves every other file alone that does not share its cluster: it is found under the same
  directory entry and reads the same, whatever was free or deleted before.\<close>

theorem fat12_write_isolated:
  assumes ok: "vol_ok D view s" and tg: "write_target view name s = Some (e, c)" "2 \<le> c" "c < 2848"
    and n: "name_to_fat83 name ! 0 \<noteq> 0xE5" and len: "unat len \<le> length buf"
    and o: "lookup_file view other s = Some e2" "name_to_fat83 other \<noteq> name_to_fat83 name" "file_cluster view e2 s = c2" "2 \<le> c2" "c2 < 2848" "c2 \<noteq> c"
    and r: "rlen \<noteq> 0" "unat rlen \<le> length rbuf"
  shows "\<exists>m s' n data t t'. fat12_write_file D (Some name) (Some buf) len s = (m, s') \<and> m \<noteq> - 1 \<and>
    fat12_read_file D (Some other) (Some rbuf) rlen s = (n, Some data, t) \<and>
    fat12_read_file D (Some other) (Some rbuf) rlen s' = (n, Some data, t')"
proof -
  let ?n = "name_to_fat83 other"
  have c: "2 \<le> unat c" "unat c < 2848" "2 \<le> unat c2" "unat c2 < 2848" "unat c2 \<noteq> unat c"
    using tg(2,3) o(4-6) by (simp_all add: word_le_nat_alt word_less_nat_alt word_unat_eq_iff)
  define m where "m = min (unat len) 512"
  obtain s' where w: "fat12_write_file D (Some name) (Some buf) len s = (int m, s')" "vol_ok D view s'" "e < 224"
    "sector_of view s' = fats_written (s_fat_buf s')
      ((sector_of view s)(unat c + 31 := take m buf @ replicate (512 - m) 0,
         dir_sector e := set_dirent (sector_of view s (dir_sector e)) (dir_off e) (name_to_fat83 name) c (cap_len len)))"
    using fat12_write_file_ok [OF ok tg(1) c(1,2) len] unfolding m_def by blast
  note dir = written_dir [OF ok w(3) refl n c(1) w(4)]
  let ?k = "entry_kind ?n (sector_of view s)" and ?k' = "entry_kind ?n (sector_of view s')"
  have lk: "dir_lookup ?k [0..<224] = Some e2" using o(1) by (simp add: lookup_file_def del: upt_rec_numeral)
  have e2: "e2 < 224" "?k e2 = K_match" using dir_lookup_mem [OF lk] by (simp_all del: upt_rec_numeral)
  have ne: "e2 \<noteq> e" using write_target_other [OF tg(1) e2(2)] o(3,6) by simp
  have "dir_lookup ?k' [0..<224] = Some e2"
  proof (rule dir_lookup_other [OF lk ne])
    show "?k' e = K_other" using dir(1) [of other] o(2) by simp
    show "?k' x = ?k x" if "x \<in> set [0..<224]" "x \<noteq> e" for x using dir(2) [of x other] that by (simp del: upt_rec_numeral)
  qed
  then have lk': "lookup_file view other s' = Some e2" by (simp add: lookup_file_def del: upt_rec_numeral)
  have f: "file_cluster view e2 s' = c2" "file_size view e2 s' = file_size view e2 s" using dir(6) [OF ne e2(1)] o(3) by simp_all
  have sec: "sector_of view s' (unat c2 + 31) = sector_of view s (unat c2 + 31)" using c by (intro dir(7)) simp_all
  have "int m \<noteq> - 1" by simp
  then show ?thesis
    using fat12_read_file_ok [OF ok o(1,3) c(3,4) r] fat12_read_file_ok [OF w(2) lk' f(1) c(3,4) r] w(1) unfolding f(2) sec by blast
qed

text \<open>The emulated volume with one file in cluster 2.\<close>

definition demo_files :: "drive fat_st" where
  "demo_files = blank_sched (demo_drive\<lparr>r_disk := (\<lambda>_. replicate 512 0)(19 := set_dirent (replicate 512 0) 0 (name_to_fat83 ''OLD.TXT'') 2 5)\<rparr>)
     (fat_st_ext (replicate 512 0) (fat_put 2 0xFFF (replicate 4608 0)) True ())"

lemma demo_names: "name_to_fat83 ''OLD.TXT'' ! 0 = 79" "name_to_fat83 ''NEW.TXT'' ! 0 = 78"
  by (simp_all add: name_to_fat83_def upper_c_def byte_of_def)

lemma demo_files_facts:
  "vol_ok ata_emu (\<lambda>d. d) demo_files" "lookup_file (\<lambda>d. d) ''OLD.TXT'' demo_files = Some 0"
  "file_cluster (\<lambda>d. d) 0 demo_files = 2" "write_target (\<lambda>d. d) ''NEW.TXT'' demo_files = Some (1, 3)"
proof -
  let ?n = "name_to_fat83 ''OLD.TXT''" and ?m = "name_to_fat83 ''NEW.TXT''"
  let ?b = "set_dirent (replicate 512 0) 0 ?n 2 5"
  note nth = set_dirent_nth [of 0 "replicate 512 0" ?n, where c = 2 and len = 5]
  have fat: "s_fat_buf demo_files = fat_put 2 0xFFF (replicate 4608 0)" "s_fat_loaded demo_files" "length (s_sector_buf demo_files) = 512"
    by (simp_all add: demo_files_def blank_sched_def)
  have sec: "sector_of (\<lambda>d. d) demo_files 19 = ?b" by (simp add: sector_of_def demo_files_def)
  have "length ?b = 512" using nth(1) by simp
  then show "vol_ok ata_emu (\<lambda>d. d) demo_files"
    using fat by (simp add: vol_ok_def drive_good_def ata_emu_ok drive_idle_def disk_wf_def) (simp add: demo_files_def demo_drive_def ATA_POLLS_def)
  have ne: "?m \<noteq> ?n" using demo_names by auto
  have k: "entry_kind x (sector_of (\<lambda>d. d) demo_files) 0 = (if x = ?n then K_match else K_other)" if "length x = 11" for x
    using set_dirent_kind [of 0 "replicate 512 0" ?n x 2 5] that demo_names(1) by (simp add: entry_kind_def dir_sector_def dir_off_def sec)
  have k1: "entry_kind x (sector_of (\<lambda>d. d) demo_files) 1 = K_end" for x
    using nth(2) [of 32] by (simp add: entry_kind_def dir_sector_def dir_off_def sec kind_of_def)
  have u: "[0..<224] = 0 # 1 # [2..<224]" by (simp add: upt_conv_Cons del: upt_rec_numeral)
  show "lookup_file (\<lambda>d. d) ''OLD.TXT'' demo_files = Some 0" unfolding lookup_file_def u by (simp add: k del: upt_rec_numeral)
  show "file_cluster (\<lambda>d. d) 0 demo_files = 2" using nth(5) by (simp add: file_cluster_def dir_sector_def dir_off_def sec)
  have l: "lookup_file (\<lambda>d. d) ''NEW.TXT'' demo_files = None" unfolding lookup_file_def u by (simp add: k k1 [unfolded One_nat_def] ne del: upt_rec_numeral)
  have f: "dir_free (entry_kind ?m (sector_of (\<lambda>d. d) demo_files)) [0..<224] = Some 1" unfolding u by (simp add: k k1 [unfolded One_nat_def] ne del: upt_rec_numeral)
  have "fat_get (replicate 4608 0) 3 = 0" by (simp add: fat_get_def fat_offset_def Let_def)
  then have a: "fat12_next_cluster 2 demo_files = 0xFFF" "fat12_next_cluster 3 demo_files = 0"
    using fat_get_put_same [of "replicate 4608 0" 2 "0xFFF"] fat_get_put_other [of "replicate 4608 0" 2 3 "0xFFF"]
    by (simp_all add: fat12_next_cluster_def fat fat_offset_def)
  moreover have "[2..<2848] = 2 # 3 # [4..<2848]" by (simp add: upt_conv_Cons del: upt_rec_numeral)
  ultimately have "fat12_alloc_cluster demo_files = 3" by (simp add: fat12_alloc_cluster_def del: upt_rec_numeral)
  then show "write_target (\<lambda>d. d) ''NEW.TXT'' demo_files = Some (1, 3)" using l f by (simp add: write_target_def del: upt_rec_numeral)
qed

theorem fat12_write_isolated_witness:
  "\<exists>m s' n data t t'. fat12_write_file ata_emu (Some ''NEW.TXT'') (Some [1, 2, 3]) 3 demo_files = (m, s') \<and>
    fat12_read_file ata_emu (Some ''OLD.TXT'') (Some (replicate 8 0)) 8 demo_files = (n, Some data, t) \<and>
    fat12_read_file ata_emu (Some ''OLD.TXT'') (Some (replicate 8 0)) 8 s' = (n, Some data, t')"
proof -
  have "name_to_fat83 ''OLD.TXT'' \<noteq> name_to_fat83 ''NEW.TXT''" using demo_names by auto
  then have "\<exists>m s' n data t t'. fat12_write_file ata_emu (Some ''NEW.TXT'') (Some [1, 2, 3]) 3 demo_files = (m, s') \<and> m \<noteq> - 1 \<and>
      fat12_read_file ata_emu (Some ''OLD.TXT'') (Some (replicate 8 0)) 8 demo_files = (n, Some data, t) \<and>
      fat12_read_file ata_emu (Some ''OLD.TXT'') (Some (replicate 8 0)) 8 s' = (n, Some data, t')"
    using demo_names by (intro fat12_write_isolated [OF demo_files_facts(1,4) _ _ _ _ demo_files_facts(2) _ demo_files_facts(3)])
      (simp_all add: word_less_nat_alt word_le_nat_alt)
  then show ?thesis by blast
qed

text \<open>C32: when there is no room the write fails with -1 and the disk is as before; reading a file that is not in the
  directory fails with -1 and leaves the buffer alone.\<close>

theorem fat12_errors:
  assumes ok: "vol_ok D view s"
  shows "(write_target view name s = None \<longrightarrow>
      (\<exists>s'. fat12_write_file D (Some name) (Some buf) len s = (- 1, s') \<and> sector_of view s' = sector_of view s \<and> vol_ok D view s')) \<and>
    (lookup_file view name s = None \<longrightarrow>
      (\<exists>s'. fat12_read_file D (Some name) (Some rbuf) rlen s = (- 1, Some rbuf, s') \<and> sector_of view s' = sector_of view s \<and> vol_ok D view s'))"
proof (intro conjI impI)
  assume "write_target view name s = None"
  then show "\<exists>s'. fat12_write_file D (Some name) (Some buf) len s = (- 1, s') \<and> sector_of view s' = sector_of view s \<and> vol_ok D view s'"
    using fat12_write_file_scan [OF ok, of name buf len] vol_same_fields(1,2) by force
next
  assume l: "lookup_file view name s = None"
  have es: "set [0..<224] \<subseteq> {..<224 :: nat}" by (simp add: subset_iff del: upt_rec_numeral)
  obtain t where t: "vol_same D view s t" "fat12_read_loop D (name_to_fat83 name) rbuf rlen [0..<224] s = (- 1, rbuf, t)"
    using fat12_read_loop_ok [OF ok es, of "name_to_fat83 name" rbuf rlen] l by (auto simp: lookup_file_def simp del: upt_rec_numeral)
  show "\<exists>s'. fat12_read_file D (Some name) (Some rbuf) rlen s = (- 1, Some rbuf, s') \<and> sector_of view s' = sector_of view s \<and> vol_ok D view s'"
    using t ok vol_same_fields(1,2) [OF t(1)] by (cases "rlen = 0") (auto simp: fat12_read_file_def vol_ok_def simp del: upt_rec_numeral)
qed

theorem fat12_errors_witness:
  "\<exists>s'. fat12_read_file ata_emu (Some ''AIOS.ENV'') (Some [1, 2]) 2 demo_volume = (- 1, Some [1, 2], s')"
  using fat12_errors [OF demo_volume_ok, of "''AIOS.ENV''"] empty_volume_target(1) [OF demo_volume_empty] by blast

end
