(* ===== verification/Env.thy ===== *)
theory Env
  imports Fat12
begin

text \<open>
  \<^verbatim>\<open>env/env.c\<close>: the environment registry, a table of 16 slots searched by key, and its persistence as a
  text file \<^verbatim>\<open>AIOS.ENV\<close> of lines \<^verbatim>\<open>KEY=VALUE\<close> on the FAT12 volume. The static buffers of
  \<^verbatim>\<open>env_save\<close> and \<^verbatim>\<open>env_load\<close> are fields of the state. The abstract registry is the map \<open>env_map\<close> from
  keys to values, and the text of the file is \<open>env_text\<close>.
\<close>

section \<open>State\<close>

abbreviation ENV_MAX_VARS :: nat where "ENV_MAX_VARS \<equiv> 16"
abbreviation ENV_KEY_LEN :: nat where "ENV_KEY_LEN \<equiv> 16"
abbreviation ENV_VAL_LEN :: nat where "ENV_VAL_LEN \<equiv> 32"

record env_var_t =
  v_key :: string
  v_value :: string
  v_set :: bool

record 'd env_st = "'d fat_st" +
  env_table :: "env_var_t list"
  env_save_buf :: "u8 list"
  env_load_buf :: "u8 list"

section \<open>Operations\<close>

definition set_var :: "nat \<Rightarrow> (env_var_t \<Rightarrow> env_var_t) \<Rightarrow> ('d, 'z) env_st_scheme \<Rightarrow> ('d, 'z) env_st_scheme" where
  "set_var i f s = s\<lparr>env_table := (env_table s)[i := f (env_table s ! i)]\<rparr>"

definition env_find :: "string \<Rightarrow> env_var_t list \<Rightarrow> nat option" where
  "env_find key t = table_find v_set v_key ENV_KEY_LEN t (Some key)"

definition env_set :: "string option \<Rightarrow> string option \<Rightarrow> ('d, 'z) env_st_scheme \<Rightarrow> int \<times> ('d, 'z) env_st_scheme" where
  "env_set key val s =
     (case (key, val) of
        (Some key, Some val) \<Rightarrow>
          (case env_find key (env_table s) of
             Some i \<Rightarrow> (0, set_var i (\<lambda>v. v\<lparr>v_value := set_name (v_value v) val ENV_VAL_LEN\<rparr>) s)
           | None \<Rightarrow>
              (case find_index (\<lambda>v. \<not> v_set v) (env_table s) of
                 Some i \<Rightarrow> (0, set_var i (\<lambda>v. v\<lparr>v_key := set_name (v_key v) key ENV_KEY_LEN,
                                              v_value := set_name (v_value v) val ENV_VAL_LEN, v_set := True\<rparr>) s)
               | None \<Rightarrow> (- 1, s)))
      | _ \<Rightarrow> (- 1, s))"

text \<open>\<^verbatim>\<open>env_get\<close> returns a pointer to the value array; the model returns its characters.\<close>

definition env_get :: "string option \<Rightarrow> ('d, 'z) env_st_scheme \<Rightarrow> string option" where
  "env_get key s =
     (case key of
        None \<Rightarrow> None
      | Some key \<Rightarrow> map_option (\<lambda>i. v_value (env_table s ! i)) (env_find key (env_table s)))"

definition env_init :: "('d, 'z) env_st_scheme \<Rightarrow> ('d, 'z) env_st_scheme" where
  "env_init s =
     (let s = fold (\<lambda>i. set_var i (\<lambda>v. v\<lparr>v_set := False\<rparr>)) [0..<ENV_MAX_VARS] s;
          s = snd (env_set (Some ''OS_NAME'') (Some ''AI Aura OS'') s)
      in snd (env_set (Some ''OS_VERSION'') (Some ''1.0.0'') s))"

definition env_dump :: "('d, 'z) env_st_scheme \<Rightarrow> ('d, 'z) env_st_scheme" where
  "env_dump s = s"

primrec env_dump_loop :: "'d io_dev \<Rightarrow> env_var_t list \<Rightarrow> nat \<Rightarrow> ('d, 'z) env_st_scheme \<Rightarrow> (nat \<times> ('d, 'z) env_st_scheme) option" where
  "env_dump_loop D [] shown s = Some (shown, s)"
| "env_dump_loop D (v # vs) shown s =
     (if \<not> v_set v then env_dump_loop D vs shown s
      else do { s \<leftarrow> vga_print D (Some ''  '') s;
                s \<leftarrow> vga_print D (Some (v_key v)) s;
                s \<leftarrow> vga_print D (Some '' = '') s;
                s \<leftarrow> vga_println D (Some (v_value v)) s;
                env_dump_loop D vs (shown + 1) s })"

text \<open>Printing leaves the table alone, so the loop runs over the variables it starts with.\<close>

definition env_dump_vga :: "'d io_dev \<Rightarrow> ('d, 'z) env_st_scheme \<Rightarrow> ('d, 'z) env_st_scheme option" where
  "env_dump_vga D s =
     do { s \<leftarrow> vga_println D (Some ''--- Environment Variables ---'') s;
          (shown, s) \<leftarrow> env_dump_loop D (env_table s) 0 s;
          if shown = 0 then vga_println D (Some ''  (empty)'') s else Some s }"

section \<open>Persistence\<close>

text \<open>The loop of \<^verbatim>\<open>env_save\<close> over the variables, with the buffer and the position in it.\<close>

primrec env_save_loop :: "env_var_t list \<Rightarrow> u8 list \<times> nat \<Rightarrow> u8 list \<times> nat" where
  "env_save_loop [] bp = bp"
| "env_save_loop (v # vs) bp =
     (let (buf, pos) = bp in
      if \<not> pos < 511 then (buf, pos)
      else if \<not> v_set v then env_save_loop vs (buf, pos)
      else let klen = strlen_k (Some (v_key v));
               vlen = strlen_k (Some (v_value v))
           in if 512 \<le> pos + klen + 1 + vlen + 1 then (buf, pos)
              else let buf = store_bytes pos (map (\<lambda>j. byte_of (c_at (v_key v) j)) [0..<klen]) buf;
                       pos = pos + klen;
                       buf = buf[pos := byte_of (CHR ''='')];
                       pos = pos + 1;
                       buf = store_bytes pos (map (\<lambda>j. byte_of (c_at (v_value v) j)) [0..<vlen]) buf;
                       pos = pos + vlen;
                       buf = buf[pos := byte_of LF]
                   in env_save_loop vs (buf, pos + 1))"

definition env_save :: "'d io_dev \<Rightarrow> ('d, 'z) env_st_scheme \<Rightarrow> int \<times> ('d, 'z) env_st_scheme" where
  "env_save D s =
     (let (buf, pos) = env_save_loop (env_table s) (env_save_buf s, 0);
          buf = buf[pos := byte_of NUL];
          s = s\<lparr>env_save_buf := buf\<rparr>
      in fat12_write_file D (Some ''AIOS.ENV'') (Some buf) (of_nat pos) s)"

text \<open>The inner loops of \<^verbatim>\<open>env_load\<close>: the first index from \<open>i\<close> below \<open>n\<close> with a byte of \<open>stop\<close>.\<close>

function skip_to :: "u8 list \<Rightarrow> u8 list \<Rightarrow> nat \<Rightarrow> nat \<Rightarrow> nat" where
  "skip_to stop buf n i = (if i < n \<and> buf ! i \<notin> set stop then skip_to stop buf n (i + 1) else i)"
  by pat_completeness auto
termination
  by (relation "measure (\<lambda>(stop, buf, n, i). n - i)") auto

declare skip_to.simps [simp del]

lemma skip_to_ge: "i \<le> skip_to stop buf n i"
proof (induction stop buf n i rule: skip_to.induct)
  case (1 stop buf n i)
  then show ?case by (subst skip_to.simps) (auto simp: Suc_le_eq intro: less_imp_le)
qed

function env_load_loop :: "nat \<Rightarrow> nat \<Rightarrow> u8 list \<Rightarrow> ('d, 'z) env_st_scheme \<Rightarrow> u8 list \<times> ('d, 'z) env_st_scheme" where
  "env_load_loop n i buf s =
     (if \<not> i < n then (buf, s)
      else let key_start = i;
               i = skip_to [byte_of (CHR ''=''), byte_of LF] buf n i
           in if n \<le> i \<or> buf ! i \<noteq> byte_of (CHR ''='')
              then env_load_loop n (skip_to [byte_of LF] buf n i + 1) buf s
              else let key_end = i;
                       val_start = i + 1;
                       i = skip_to [byte_of LF] buf n val_start;
                       val_end = i;
                       i = (if i < n then i + 1 else i);
                       buf = (if key_end < 512 then buf[key_end := byte_of NUL] else buf);
                       buf = (if val_end < 512 then buf[val_end := byte_of NUL] else buf);
                       s = snd (env_set (Some (map char_of_byte (drop key_start buf))) (Some (map char_of_byte (drop val_start buf))) s)
                   in env_load_loop n i buf s)"
  by pat_completeness auto
termination
proof (relation "measure (\<lambda>(n, i, buf, s). n - i)", goal_cases)
  case (2 n i buf s x y)
  then have "i < skip_to [byte_of LF] buf n y + 1" using skip_to_ge [of i "[byte_of CHR ''='', byte_of LF]" buf n] skip_to_ge [of y "[byte_of LF]" buf n] by simp
  then show ?case using 2(1) by simp
next
  case (3 n i buf s x y)
  then show ?case
    using skip_to_ge [of i "[byte_of CHR ''='', byte_of LF]" buf n]
      skip_to_ge [of "skip_to [byte_of CHR ''='', byte_of LF] buf n i + 1" "[byte_of LF]" buf n] by auto
qed simp

declare env_load_loop.simps [simp del]

definition env_load :: "'d io_dev \<Rightarrow> ('d, 'z) env_st_scheme \<Rightarrow> int \<times> ('d, 'z) env_st_scheme" where
  "env_load D s =
     (let (n, b, s) = fat12_read_file D (Some ''AIOS.ENV'') (Some (env_load_buf s)) 511 s;
          s = s\<lparr>env_load_buf := the b\<rparr>
      in if n \<le> 0 then (- 1, s)
         else let (buf, s) = env_load_loop (nat n) 0 ((env_load_buf s)[nat n := byte_of NUL]) s
              in (0, s\<lparr>env_load_buf := buf\<rparr>))"

section \<open>The registry as a map\<close>

interpretation vars: name_table v_set v_key 16
  by unfold_locales simp

definition var_ok :: "env_var_t \<Rightarrow> bool" where
  "var_ok v \<longleftrightarrow> length (v_key v) = 16 \<and> length (v_value v) = 32 \<and> (v_set v \<longrightarrow> length (cstr (v_value v)) < 32)"

definition env_inv :: "('d, 'z) env_st_scheme \<Rightarrow> bool" where
  "env_inv s \<longleftrightarrow> length (env_table s) = 16 \<and> (\<forall>v \<in> set (env_table s). var_ok v) \<and> vars.names_ok (env_table s)"

definition env_map :: "('d, 'z) env_st_scheme \<Rightarrow> string \<rightharpoonup> string" where
  "env_map s k = map_option cstr (env_get (Some k) s)"

lemma set_var_fields [simp]:
  "env_table (set_var i f s) = (env_table s)[i := f (env_table s ! i)]"
  by (simp add: set_var_def)

lemma env_get_entry: "env_get (Some k) s = map_option v_value (vars.entry (env_table s) k)"
  by (simp add: env_get_def env_find_def vars.entry_def option.map_comp comp_def)

lemma env_map_cstr: "vars.names_ok (env_table s) \<Longrightarrow> cstr k = cstr k' \<Longrightarrow> env_map s k = env_map s k'"
  unfolding env_map_def env_get_entry by (drule vars.entry_cstr, assumption) simp

text \<open>A successful update, seen through the map.\<close>

lemma env_set_effect:
  fixes s :: "('d, 'z) env_st_scheme"
  assumes inv: "env_inv s" and key: "length (cstr key) < 16"
    and room: "env_get (Some key) s \<noteq> None \<or> (\<exists>v \<in> set (env_table s). \<not> v_set v)"
  shows "\<exists>t. env_set (Some key) (Some val) s = (0, s\<lparr>env_table := t\<rparr>) \<and> env_inv (s\<lparr>env_table := t\<rparr>) \<and>
    (\<forall>k. env_map (s\<lparr>env_table := t\<rparr>) k = (if cstr k = cstr key then Some (take 31 (cstr val)) else env_map s k))"
proof -
  let ?t = "env_table s"
  have len: "length ?t = 16" and vok: "\<forall>v \<in> set ?t. var_ok v" and ok: "vars.names_ok ?t" using inv by (simp_all add: env_inv_def)
  have goal: ?thesis if st: "env_set (Some key) (Some val) s = (0, s\<lparr>env_table := ?t[i := e]\<rparr>)" and e: "var_ok e" "cstr (v_value e) = take 31 (cstr val)"
    and n: "\<And>k. vars.names_ok (?t[i := e]) \<and> vars.entry (?t[i := e]) k = (if cstr k = cstr key then Some e else vars.entry ?t k)" for i e
  proof -
    have "env_inv (s\<lparr>env_table := ?t[i := e]\<rparr>)" using len n ball_list_update [OF vok e(1)] by (simp add: env_inv_def)
    moreover have "env_map (s\<lparr>env_table := ?t[i := e]\<rparr>) k = (if cstr k = cstr key then Some (take 31 (cstr val)) else env_map s k)" for k
      using n e(2) by (simp add: env_map_def env_get_entry)
    ultimately show ?thesis using st by blast
  qed
  show ?thesis
  proof (cases "env_find key ?t")
    case (Some i)
    have i: "i < length ?t" "v_set (?t ! i)" "cstr (v_key (?t ! i)) = cstr key"
      using vars.find_iff [OF ok] Some by (auto simp: env_find_def)
    have vi: "var_ok (?t ! i)" using vok i(1) by simp
    let ?e = "(?t ! i)\<lparr>v_value := set_name (v_value (?t ! i)) val 32\<rparr>"
    have e: "cstr (v_value ?e) = take 31 (cstr val)" "var_ok ?e" using vi by (simp_all add: var_ok_def cstr_set_name min_def)
    have "vars.names_ok (?t[i := ?e]) \<and> vars.entry (?t[i := ?e]) k = (if cstr k = cstr key then Some ?e else vars.entry ?t k)" for k
      using ok Some i by (intro vars.entry_replace) (simp_all add: env_find_def)
    then show ?thesis using e by (intro goal [of i ?e]) (simp_all add: env_set_def set_var_def Some)
  next
    case None
    then have "\<exists>v \<in> set ?t. \<not> v_set v" using room by (simp add: env_get_def)
    then obtain i where fi: "find_index (\<lambda>v. \<not> v_set v) ?t = Some i"
      by (cases "find_index (\<lambda>v. \<not> v_set v) ?t") (auto simp: find_index_None)
    then have i: "i < length ?t" "\<not> v_set (?t ! i)" using find_index_Some [OF fi] by auto
    have vi: "var_ok (?t ! i)" using vok i(1) by simp
    let ?e = "(?t ! i)\<lparr>v_key := set_name (v_key (?t ! i)) key 16, v_value := set_name (v_value (?t ! i)) val 32, v_set := True\<rparr>"
    have e: "cstr (v_value ?e) = take 31 (cstr val)" "var_ok ?e" "cstr (v_key ?e) = cstr key"
      using vi key by (simp_all add: var_ok_def cstr_set_name min_def)
    have "vars.names_ok (?t[i := ?e]) \<and> vars.entry (?t[i := ?e]) k = (if cstr k = cstr key then Some ?e else vars.entry ?t k)" for k
      using ok i key None e by (intro vars.entry_insert) (simp_all add: env_find_def)
    then show ?thesis using e by (intro goal [of i ?e]) (simp_all add: env_set_def set_var_def None fi)
  qed
qed

text \<open>The boot defaults.\<close>

definition boot_env :: "string \<rightharpoonup> string" where
  "boot_env k = (if cstr k = ''OS_NAME'' then Some ''AI Aura OS'' else if cstr k = ''OS_VERSION'' then Some ''1.0.0'' else None)"

lemma clear_vars:
  "m \<le> length (env_table s) \<Longrightarrow> fold (\<lambda>i. set_var i (\<lambda>v. v\<lparr>v_set := False\<rparr>)) [0..<m] s =
     s\<lparr>env_table := map (\<lambda>v. v\<lparr>v_set := False\<rparr>) (take m (env_table s)) @ drop m (env_table s)\<rparr>"
proof (induction m)
  case (Suc m)
  then have "drop m (env_table s) = env_table s ! m # drop (Suc m) (env_table s)" by (simp add: Cons_nth_drop_Suc)
  then show ?case using Suc by (simp add: set_var_def nth_append list_update_append take_Suc_conv_app_nth)
qed simp

lemma env_init_effect:
  fixes s :: "('d, 'z) env_st_scheme"
  assumes len: "length (env_table s) = 16" and ok: "\<forall>v \<in> set (env_table s). var_ok v"
  shows "\<exists>t. env_init s = s\<lparr>env_table := t\<rparr> \<and> env_inv (s\<lparr>env_table := t\<rparr>) \<and> (\<forall>k. env_map (s\<lparr>env_table := t\<rparr>) k = boot_env k)"
proof -
  let ?t = "map (\<lambda>v. v\<lparr>v_set := False\<rparr>) (env_table s)"
  have s0: "fold (\<lambda>i. set_var i (\<lambda>v. v\<lparr>v_set := False\<rparr>)) [0..<16] s = s\<lparr>env_table := ?t\<rparr>" using clear_vars [of 16 s] len by simp
  have un: "\<not> v_set (?t ! i)" if "i < 16" for i using that len by simp
  have inv0: "env_inv (s\<lparr>env_table := ?t\<rparr>)" using ok len by (auto simp: env_inv_def vars.names_ok_def var_ok_def)
  have m0: "env_map (s\<lparr>env_table := ?t\<rparr>) k = None" for k
    using len by (simp add: env_map_def env_get_def env_find_def table_find_def find_index_None)
  have c: "cstr ''OS_NAME'' = ''OS_NAME''" "cstr ''OS_VERSION'' = ''OS_VERSION''" "cstr ''AI Aura OS'' = ''AI Aura OS''" "cstr ''1.0.0'' = ''1.0.0''"
    by (simp_all add: cstr_def)
  have "\<exists>v \<in> set ?t. \<not> v_set v" using un [of 0] len by (metis length_map nth_mem zero_less_numeral)
  then obtain t1 where t1: "env_set (Some ''OS_NAME'') (Some ''AI Aura OS'') (s\<lparr>env_table := ?t\<rparr>) = (0, s\<lparr>env_table := t1\<rparr>)" "env_inv (s\<lparr>env_table := t1\<rparr>)"
      "\<forall>k. env_map (s\<lparr>env_table := t1\<rparr>) k = (if cstr k = ''OS_NAME'' then Some ''AI Aura OS'' else None)"
    using env_set_effect [OF inv0, of "''OS_NAME''" "''AI Aura OS''"] by (auto simp: c m0)
  have "env_find ''OS_NAME'' ?t = None" "find_index (\<lambda>v. \<not> v_set v) ?t = Some 0"
    using len by (simp_all add: env_find_def table_find_def find_index_None) (cases "env_table s"; simp)
  then have "\<exists>e. env_set (Some ''OS_NAME'') (Some ''AI Aura OS'') (s\<lparr>env_table := ?t\<rparr>) = (0, s\<lparr>env_table := ?t[0 := e]\<rparr>)"
    by (simp add: env_set_def set_var_def) blast
  then obtain e where "s\<lparr>env_table := t1\<rparr> = s\<lparr>env_table := ?t[0 := e]\<rparr>" using t1(1) by auto
  then have "t1 = ?t[0 := e]" by (metis env_st.select_convs(1) env_st.surjective env_st.update_convs(1))
  then have "t1 ! 1 = ?t ! 1" by simp
  moreover have "length t1 = 16" using t1(2) by (simp add: env_inv_def)
  ultimately have "\<exists>v \<in> set t1. \<not> v_set v" using un [of 1] by (metis nth_mem one_less_numeral_iff semiring_norm(76))
  then obtain t2 where t2: "env_set (Some ''OS_VERSION'') (Some ''1.0.0'') (s\<lparr>env_table := t1\<rparr>) = (0, s\<lparr>env_table := t2\<rparr>)" "env_inv (s\<lparr>env_table := t2\<rparr>)"
      "\<forall>k. env_map (s\<lparr>env_table := t2\<rparr>) k = (if cstr k = ''OS_VERSION'' then Some ''1.0.0'' else env_map (s\<lparr>env_table := t1\<rparr>) k)"
    using env_set_effect [OF t1(2), of "''OS_VERSION''" "''1.0.0''"] by (auto simp: c)
  have "env_init s = s\<lparr>env_table := t2\<rparr>" unfolding env_init_def s0 by (simp add: t1(1) t2(1) Let_def)
  moreover have "env_map (s\<lparr>env_table := t2\<rparr>) k = boot_env k" for k using t1(3) t2(3) by (simp add: boot_env_def)
  ultimately show ?thesis using t2(2) by blast
qed

lemma env_set_full:
  assumes "env_get (Some key) s = None" "\<forall>v \<in> set (env_table s). v_set v"
  shows "env_set (Some key) (Some val) s = (- 1, s)"
proof -
  have "env_find key (env_table s) = None" using assms(1) by (simp add: env_get_def)
  moreover have "find_index (\<lambda>v. \<not> v_set v) (env_table s) = None" using assms(2) by (simp add: find_index_None)
  ultimately show ?thesis by (simp add: env_set_def)
qed

text \<open>A registry without variables.\<close>

definition blank_var :: env_var_t where
  "blank_var = \<lparr>v_key = replicate 16 NUL, v_value = replicate 32 NUL, v_set = False\<rparr>"

definition demo_env :: "drive env_st" where
  "demo_env = blank_sched demo_drive (fat_st_ext (replicate 512 0) (replicate 4608 0) True
     (env_st_ext (replicate 16 blank_var) (replicate 512 0) (replicate 512 0) ()))"

lemma demo_env_fields: "env_table demo_env = replicate 16 blank_var" "length (env_save_buf demo_env) = 512" "length (env_load_buf demo_env) = 512"
  by (simp_all add: demo_env_def blank_sched_def)

lemma demo_env_inv: "env_inv demo_env" "env_get (Some k) demo_env = None"
proof -
  have "vars.names_ok (env_table demo_env)" by (simp add: demo_env_fields vars.names_ok_def blank_var_def)
  then show "env_inv demo_env" by (simp add: env_inv_def demo_env_fields var_ok_def blank_var_def)
  show "env_get (Some k) demo_env = None"
    by (simp add: env_get_def env_find_def table_find_def find_index_None demo_env_fields blank_var_def)
qed

section \<open>Properties of the registry\<close>

text \<open>C28: the registry is a finite map: setting a key of at most 15 characters makes it the value cut at 31
  characters, keeps all other keys and the table in order, and fails with -1, without any effect,
  exactly when the key is new and all 16 slots are taken. Null arguments are refused.\<close>

theorem env_set_get:
  fixes s :: "('d, 'z) env_st_scheme"
  assumes inv: "env_inv s" and key: "length (cstr key) < 16"
  shows "env_set None vo s = (- 1, s) \<and> env_set ko None s = (- 1, s) \<and>
    (\<exists>r s'. env_set (Some key) (Some val) s = (r, s') \<and> env_inv s' \<and>
      (if env_get (Some key) s = None \<and> (\<forall>v \<in> set (env_table s). v_set v) then r = - 1 \<and> s' = s
       else r = 0 \<and> (\<forall>k. map_option cstr (env_get (Some k) s') =
              (if cstr k = cstr key then Some (take 31 (cstr val)) else map_option cstr (env_get (Some k) s)))))"
proof (intro conjI)
  show "\<exists>r s'. env_set (Some key) (Some val) s = (r, s') \<and> env_inv s' \<and>
      (if env_get (Some key) s = None \<and> (\<forall>v \<in> set (env_table s). v_set v) then r = - 1 \<and> s' = s
       else r = 0 \<and> (\<forall>k. map_option cstr (env_get (Some k) s') =
              (if cstr k = cstr key then Some (take 31 (cstr val)) else map_option cstr (env_get (Some k) s))))"
  proof (cases "env_get (Some key) s = None \<and> (\<forall>v \<in> set (env_table s). v_set v)")
    case True
    then show ?thesis using env_set_full [of key s val] inv by simp
  next
    case False
    then show ?thesis using env_set_effect [OF inv key, of val] unfolding env_map_def by (simp only: if_False) blast
  qed
qed (simp_all add: env_set_def split: option.split)

theorem env_set_get_witness:
  "\<exists>s'. env_set (Some ''BOOT_DRIVE'') (Some ''hd0'') demo_env = (0, s') \<and> map_option cstr (env_get (Some ''BOOT_DRIVE'') s') = Some ''hd0''"
proof -
  have c: "cstr ''BOOT_DRIVE'' = ''BOOT_DRIVE''" "cstr ''hd0'' = ''hd0''" by (simp_all add: cstr_def)
  have h: "\<not> (env_get (Some ''BOOT_DRIVE'') demo_env = None \<and> (\<forall>v \<in> set (env_table demo_env). v_set v))"
    by (simp add: demo_env_fields blank_var_def)
  have "length (cstr ''BOOT_DRIVE'') < 16" "take 31 (cstr ''hd0'') = ''hd0''" by (simp_all add: c)
  then show ?thesis
    using env_set_get [OF demo_env_inv(1), of "''BOOT_DRIVE''" None None "''hd0''"] unfolding if_not_P [OF h] by metis
qed

text \<open>A key of 16 or more characters is lost: setting it succeeds while there is a free slot, takes that slot, and the
  key is still not found afterwards.\<close>

theorem env_set_long_key:
  assumes inv: "env_inv s" and key: "16 \<le> length (cstr key)" and free: "\<exists>v \<in> set (env_table s). \<not> v_set v"
  shows "\<exists>s'. env_set (Some key) (Some val) s = (0, s') \<and> env_get (Some key) s' = None \<and>
    length (filter v_set (env_table s')) = length (filter v_set (env_table s)) + 1"
proof -
  let ?t = "env_table s"
  have len: "length ?t = 16" and vok: "\<forall>v \<in> set ?t. var_ok v" and ok: "vars.names_ok ?t" using inv by (simp_all add: env_inv_def)
  have short: "cstr (v_key (?t ! j)) \<noteq> cstr key" if "j < length ?t" "v_set (?t ! j)" for j
    using vars.names_okD1 [OF ok that] key by auto
  then have n: "env_find key ?t = None" unfolding env_find_def vars.find_None_iff [OF ok] by blast
  obtain i where fi: "find_index (\<lambda>v. \<not> v_set v) ?t = Some i"
    using free by (cases "find_index (\<lambda>v. \<not> v_set v) ?t") (auto simp: find_index_None)
  then have i: "i < length ?t" "\<not> v_set (?t ! i)" using find_index_Some [OF fi] by auto
  let ?e = "(?t ! i)\<lparr>v_key := set_name (v_key (?t ! i)) key 16, v_value := set_name (v_value (?t ! i)) val 32, v_set := True\<rparr>"
  have "var_ok (?t ! i)" using vok i(1) by simp
  then have e: "length (cstr (v_key ?e)) = 15" using key by (simp add: var_ok_def cstr_set_name min_def)
  have "\<not> (v_set x \<and> strncmp_k (Some (v_key x)) (Some key) (int 16) = 0)" if "x \<in> set (?t[i := ?e])" for x
  proof -
    have "length (cstr (v_key x)) < 16" if "v_set x"
    proof (cases "x = ?e")
      case True
      then show ?thesis using e by simp
    next
      case False
      then have "x \<in> set ?t" using \<open>x \<in> set (?t[i := ?e])\<close> set_update_subset_insert [of ?t i ?e] by auto
      then show ?thesis using vars.names_okD1 [OF ok] that by (auto simp: in_set_conv_nth)
    qed
    then show ?thesis using key stored_name_match [of "v_key x" 16 key] by auto
  qed
  then have "env_find key (?t[i := ?e]) = None" by (simp add: env_find_def table_find_def find_index_None)
  moreover have "int (length (filter v_set (?t[i := ?e]))) = int (length (filter v_set ?t)) + 1"
    using length_filter_update [OF i(1), of v_set ?e] i(2) by simp
  ultimately show ?thesis using n fi by (simp add: env_set_def env_get_def set_var_def)
qed

theorem env_set_long_key_witness:
  "\<exists>s'. env_set (Some ''A_KEY_OF_20_LETTERS_'') (Some ''x'') demo_env = (0, s') \<and> env_get (Some ''A_KEY_OF_20_LETTERS_'') s' = None"
proof -
  have "16 \<le> length (cstr ''A_KEY_OF_20_LETTERS_'')" by (simp add: cstr_def)
  moreover have "\<exists>v \<in> set (env_table demo_env). \<not> v_set v" by (simp add: demo_env_fields blank_var_def)
  ultimately show ?thesis using env_set_long_key [OF demo_env_inv(1)] by blast
qed

end
