(* ===== verification/Env_Persistence.thy ===== *)
theory Env_Persistence
  imports Env
begin

text \<open>
  The environment registry on disk: the text \<^verbatim>\<open>env_save\<close> writes and the registry \<^verbatim>\<open>env_load\<close> builds from
  it. The theorem at the end goes through all layers: registry, text, FAT12 volume and drive.
\<close>

section \<open>The text\<close>

definition line_of :: "string \<times> string \<Rightarrow> string" where
  "line_of kv = fst kv @ CHR ''='' # snd kv @ [LF]"

definition var_pair :: "env_var_t \<Rightarrow> string \<times> string" where
  "var_pair v = (cstr (v_key v), cstr (v_value v))"

definition env_pairs :: "('d, 'z) env_st_scheme \<Rightarrow> (string \<times> string) list" where
  "env_pairs s = map var_pair (filter v_set (env_table s))"

definition env_text :: "('d, 'z) env_st_scheme \<Rightarrow> string" where
  "env_text s = concat (map line_of (env_pairs s))"

text \<open>Keys and values that survive as a line of text.\<close>

definition clean :: "string \<times> string \<Rightarrow> bool" where
  "clean kv \<longleftrightarrow> CHR ''='' \<notin> set (fst kv) \<and> LF \<notin> set (fst kv) \<and> NUL \<notin> set (fst kv) \<and> LF \<notin> set (snd kv) \<and> NUL \<notin> set (snd kv)"

section \<open>Saving\<close>

lemma store_bytes_eq:
  assumes "off + length xs \<le> length dst"
  shows "store_bytes off xs dst = take off dst @ xs @ drop (off + length xs) dst"
  using store_bytes_nth [OF assms] assms by (intro nth_equalityI) (auto simp: nth_append min_def)

lemma bytes_of_cstr: "map (\<lambda>j. byte_of (c_at k j)) [0..<length (cstr k)] = map byte_of (cstr k)"
  by (intro nth_equalityI) (simp_all add: c_at_cstr_nth)

lemma env_save_step:
  assumes "v_set v" "pos + length (line_of (var_pair v)) < 512" "length buf = 512"
  shows "env_save_loop (v # vs) (buf, pos) =
    env_save_loop vs (take pos buf @ map byte_of (line_of (var_pair v)) @ drop (pos + length (line_of (var_pair v))) buf,
      pos + length (line_of (var_pair v)))"
proof -
  let ?k = "map byte_of (cstr (v_key v))" and ?v = "map byte_of (cstr (v_value v))"
  let ?p = "pos + length ?k"
  have len: "pos + length (cstr (v_key v)) + 1 + length (cstr (v_value v)) + 1 < 512"
    using assms(2) by (simp add: line_of_def var_pair_def)
  have b1: "store_bytes pos ?k buf = take pos buf @ ?k @ drop ?p buf" using len assms(3) by (simp add: store_bytes_eq)
  have d1: "drop ?p buf = buf ! ?p # drop (?p + 1) buf" using len assms(3) by (simp add: Cons_nth_drop_Suc)
  have b2: "(take pos buf @ ?k @ drop ?p buf)[?p := byte_of (CHR ''='')] = take pos buf @ ?k @ byte_of (CHR ''='') # drop (?p + 1) buf"
    unfolding d1 using len assms(3) by (simp add: list_update_append min_def)
  let ?q = "?p + 1 + length ?v"
  have b3: "store_bytes (?p + 1) ?v (take pos buf @ ?k @ byte_of (CHR ''='') # drop (?p + 1) buf) =
      take pos buf @ ?k @ byte_of (CHR ''='') # ?v @ drop ?q buf"
    using len assms(3) by (simp add: store_bytes_eq min_def ac_simps)
  have d2: "drop ?q buf = buf ! ?q # drop (?q + 1) buf" using len assms(3) by (simp add: Cons_nth_drop_Suc)
  have b4: "(take pos buf @ ?k @ byte_of (CHR ''='') # ?v @ drop ?q buf)[?q := byte_of LF] =
      take pos buf @ ?k @ byte_of (CHR ''='') # ?v @ byte_of LF # drop (?q + 1) buf"
    unfolding d2 using len assms(3) by (simp add: list_update_append min_def)
  have "env_save_loop (v # vs) (buf, pos) =
      env_save_loop vs (take pos buf @ ?k @ byte_of (CHR ''='') # ?v @ byte_of LF # drop (?q + 1) buf, ?q + 1)"
    using assms(1) len b1 b2 b3 b4 unfolding env_save_loop.simps strlen_k_cstr bytes_of_cstr Let_def by simp
  then show ?thesis by (simp add: line_of_def var_pair_def add.assoc)
qed

lemma env_save_loop_text:
  "length buf = 512 \<Longrightarrow> pos + length (concat (map line_of (map var_pair (filter v_set vs)))) < 512 \<Longrightarrow>
   \<exists>buf'. length buf' = 512 \<and>
     env_save_loop vs (buf, pos) = (buf', pos + length (concat (map line_of (map var_pair (filter v_set vs))))) \<and>
     take (pos + length (concat (map line_of (map var_pair (filter v_set vs))))) buf' =
       take pos buf @ map byte_of (concat (map line_of (map var_pair (filter v_set vs))))"
proof (induction vs arbitrary: buf pos)
  case Nil
  then show ?case by simp
next
  case (Cons v vs)
  let ?T = "concat (map line_of (map var_pair (filter v_set vs)))"
  show ?case
  proof (cases "v_set v")
    case False
    then show ?thesis
    proof (cases "pos < 511")
      case True
      then show ?thesis using False Cons.IH [OF Cons.prems(1), of pos] Cons.prems(2) by simp
    next
      case small: False
      have "length ?T = 0" using small Cons.prems(2) False by (simp only: filter.simps if_False)
      then have T: "?T = []" by (simp only: length_0_conv)
      have "filter v_set (v # vs) = filter v_set vs" using False by simp
      then show ?thesis unfolding \<open>filter v_set (v # vs) = _\<close> T using small Cons.prems(1) by simp
    qed
  next
    case True
    let ?l = "line_of (var_pair v)"
    let ?b = "take pos buf @ map byte_of ?l @ drop (pos + length ?l) buf"
    have "pos + length ?l < 512" using True Cons.prems(2) by simp
    note step = env_save_step [OF True this Cons.prems(1), of vs]
    have "length ?b = 512" "take (pos + length ?l) ?b = take pos buf @ map byte_of ?l"
      using \<open>pos + length ?l < 512\<close> Cons.prems(1) by (simp_all add: min_def)
    then show ?thesis using Cons.IH [of ?b "pos + length ?l"] Cons.prems(2) True step by (auto simp: add.assoc)
  qed
qed

section \<open>Loading\<close>

lemma skip_to_found:
  assumes "i \<le> j" "j < n" "buf ! j \<in> set stop" "\<And>k. i \<le> k \<Longrightarrow> k < j \<Longrightarrow> buf ! k \<notin> set stop"
  shows "skip_to stop buf n i = j"
  using assms
proof (induction stop buf n i rule: skip_to.induct)
  case (1 stop buf n i)
  show ?case
  proof (cases "i = j")
    case True
    then show ?thesis using 1 by (subst skip_to.simps) simp
  next
    case False
    then have "i < n" "buf ! i \<notin> set stop" using 1 by auto
    then show ?thesis using 1 False by (subst skip_to.simps) simp
  qed
qed

lemma buffer_cstr:
  assumes "\<And>j. j < length w \<Longrightarrow> b ! (p + j) = byte_of (w ! j)" "b ! (p + length w) = byte_of NUL" "NUL \<notin> set w" "p + length w < length b"
  shows "cstr (map char_of_byte (drop p b)) = w"
proof -
  have "map char_of_byte (drop p b) = w @ NUL # map char_of_byte (drop (p + length w + 1) b)" (is "?x = ?y")
  proof (rule nth_equalityI)
    show "length ?x = length ?y" using assms(4) by simp
    show "?x ! j = ?y ! j" if "j < length ?x" for j
      using that assms(1,2) by (cases "j < length w"; cases "j = length w") (auto simp: nth_append nth_Cons' add.assoc)
  qed
  then show ?thesis using cstr_append_NUL [OF assms(3)] by simp
qed

text \<open>One line at position \<open>i\<close> of the buffer: the bytes of key, separator, value and end of line, and where the two searches of the parser stop.\<close>

lemma line_bytes:
  assumes buf: "length buf = 512" "n \<le> 511" "take (n - i) (drop i buf) = map byte_of (line_of (k, v) @ rest)" "i \<le> n"
  shows "i + length k + 1 + length v + 1 + length rest = n" "buf ! (i + length k) = byte_of (CHR ''='')"
    "buf ! (i + length k + 1 + length v) = byte_of LF" "\<And>j. j < length k \<Longrightarrow> buf ! (i + j) = byte_of (k ! j)"
    "\<And>j. j < length v \<Longrightarrow> buf ! (i + length k + 1 + j) = byte_of (v ! j)"
proof -
  have len: "n - i = length k + length v + 2 + length rest"
    using arg_cong [OF buf(3), of length] buf(1,2) by (simp add: line_of_def min_def split: if_splits)
  then show "i + length k + 1 + length v + 1 + length rest = n" using buf(4) by linarith
  have nth: "buf ! (i + j) = byte_of ((k @ CHR ''='' # v @ LF # rest) ! j)" if "j < length k + length v + 2 + length rest" for j
  proof -
    have "take (n - i) (drop i buf) ! j = byte_of ((line_of (k, v) @ rest) ! j)"
      unfolding buf(3) by (rule nth_map) (use that in \<open>simp add: line_of_def\<close>)
    then show ?thesis using that len buf(1,2) by (simp add: line_of_def)
  qed
  show "buf ! (i + length k) = byte_of (CHR ''='')" using nth [of "length k"] by simp
  show "buf ! (i + length k + 1 + length v) = byte_of LF" using nth [of "length k + 1 + length v"] by (simp add: nth_append add.assoc)
  show "buf ! (i + j) = byte_of (k ! j)" if "j < length k" for j using nth [of j] that by (simp add: nth_append)
  show "buf ! (i + length k + 1 + j) = byte_of (v ! j)" if "j < length v" for j
    using nth [of "length k + 1 + j"] that by (simp add: nth_append add.assoc)
qed

lemma line_scan:
  assumes buf: "length buf = 512" "n \<le> 511" "take (n - i) (drop i buf) = map byte_of (line_of (k, v) @ rest)" "i \<le> n" and kv: "clean (k, v)"
  shows "skip_to [byte_of (CHR ''=''), byte_of LF] buf n i = i + length k" "skip_to [byte_of LF] buf n (i + length k + 1) = i + length k + 1 + length v"
proof -
  note at = line_bytes [OF buf]
  have c: "CHR ''='' \<notin> set k" "LF \<notin> set k" "LF \<notin> set v" using kv by (simp_all add: clean_def)
  show "skip_to [byte_of (CHR ''=''), byte_of LF] buf n i = i + length k"
  proof (rule skip_to_found)
    fix x
    assume "i \<le> x" "x < i + length k"
    then have "buf ! x = byte_of (k ! (x - i))" "k ! (x - i) \<in> set k" using at(4) [of "x - i"] by simp_all
    then show "buf ! x \<notin> set [byte_of (CHR ''=''), byte_of LF]" using c by auto
  qed (use at in auto)
  show "skip_to [byte_of LF] buf n (i + length k + 1) = i + length k + 1 + length v"
  proof (rule skip_to_found)
    fix x
    assume x: "i + length k + 1 \<le> x" "x < i + length k + 1 + length v"
    then have "buf ! x = byte_of (v ! (x - (i + length k + 1)))" "v ! (x - (i + length k + 1)) \<in> set v" using at(5) [of "x - (i + length k + 1)"] by simp_all
    then show "buf ! x \<notin> set [byte_of LF]" using c by auto
  qed (use at in auto)
qed

lemma env_load_line:
  assumes buf: "length buf = 512" "n \<le> 511" "take (n - i) (drop i buf) = map byte_of (line_of kv @ rest)" "i \<le> n" and kv: "clean kv"
  shows "\<exists>buf' kb vb. length buf' = 512 \<and> cstr kb = fst kv \<and> cstr vb = snd kv \<and> i + length (line_of kv) \<le> n \<and>
    take (n - (i + length (line_of kv))) (drop (i + length (line_of kv)) buf') = map byte_of rest \<and>
    env_load_loop n i buf s = env_load_loop n (i + length (line_of kv)) buf' (snd (env_set (Some kb) (Some vb) s))"
proof -
  obtain k v where kve: "kv = (k, v)" by (cases kv)
  let ?e = "i + length k"
  let ?l = "?e + 1 + length v"
  note line = buf(1,2) buf(3) [unfolded kve] buf(4)
  note at = line_bytes [OF line] and scan = line_scan [OF line kv [unfolded kve]]
  have c: "NUL \<notin> set k" "NUL \<notin> set v" using kv by (simp_all add: clean_def kve)
  define b where "b = buf[?e := byte_of NUL, ?l := byte_of NUL]"
  have bl: "length b = 512" using buf(1) by (simp add: b_def)
  have kb: "cstr (map char_of_byte (drop i b)) = k"
    using at c buf(1,2) by (intro buffer_cstr) (simp_all add: b_def nth_list_update)
  have vb: "cstr (map char_of_byte (drop (?e + 1) b)) = v"
    using at c buf(1,2) by (intro buffer_cstr) (simp_all add: b_def nth_list_update add.assoc)
  have "env_load_loop n i buf s = env_load_loop n (?l + 1) b
      (snd (env_set (Some (map char_of_byte (drop i b))) (Some (map char_of_byte (drop (?e + 1) b))) s))"
    using at(1,2) buf(2) unfolding env_load_loop.simps [of n i buf s] scan(1) Let_def scan(2) b_def by simp
  moreover have "take (n - (?l + 1)) (drop (?l + 1) b) = map byte_of rest"
  proof -
    have "drop (?l + 1) b = drop (?l + 1) buf" by (simp add: b_def)
    also have "take (n - (?l + 1)) (drop (?l + 1) buf) = drop (length k + length v + 2) (take (n - i) (drop i buf))"
      using at(1) buf(4) by (simp add: drop_take add.assoc add.commute add.left_commute)
    also have "\<dots> = map byte_of rest" by (simp add: buf(3) line_of_def kve drop_map)
    finally show ?thesis .
  qed
  ultimately show ?thesis using bl kb vb at(1) by (intro exI [of _ b] exI [of _ "map char_of_byte (drop i b)"] exI [of _ "map char_of_byte (drop (?e + 1) b)"])
      (simp add: line_of_def kve add.assoc)
qed

section \<open>The registry that is built\<close>

definition env_keys :: "('d, 'z) env_st_scheme \<Rightarrow> string set" where
  "env_keys s = {k. cstr k = k \<and> env_map s k \<noteq> None}"

lemma env_map_pairs: "env_inv s \<Longrightarrow> env_map s k = Some v \<longleftrightarrow> (cstr k, v) \<in> set (env_pairs s)"
  using vars.entry_Some [of "env_table s" k] unfolding env_map_def env_get_entry env_inv_def env_pairs_def var_pair_def
  by (auto simp: image_iff in_set_conv_nth) metis

lemma env_keys_pairs: "env_inv s \<Longrightarrow> env_keys s = fst ` set (env_pairs s)"
  using env_map_pairs [of s] unfolding env_keys_def by (auto simp: env_pairs_def var_pair_def image_iff)

lemma env_keys_bounds:
  assumes "env_inv s"
  shows "finite (env_keys s)" "card (env_keys s) \<le> 16"
proof -
  have "length (env_pairs s) \<le> 16" using assms length_filter_le [of v_set "env_table s"] by (simp add: env_pairs_def env_inv_def)
  moreover have "card (env_keys s) \<le> length (env_pairs s)"
    unfolding env_keys_pairs [OF assms] by (metis card_image_le card_length finite_set le_trans)
  ultimately show "card (env_keys s) \<le> 16" by simp
  show "finite (env_keys s)" unfolding env_keys_pairs [OF assms] by simp
qed

lemma env_pairs_bounds:
  assumes inv: "env_inv s" and kv: "kv \<in> set (env_pairs s)"
  shows "length (fst kv) < 16 \<and> length (snd kv) < 32 \<and> fst kv \<in> env_keys s"
proof -
  obtain v where v: "v \<in> set (env_table s)" "v_set v" "kv = var_pair v" using kv by (auto simp: env_pairs_def)
  then have "var_ok v" using inv by (simp add: env_inv_def)
  moreover have "length (cstr (v_key v)) < 16"
    using v inv vars.names_okD1 [of "env_table s"] by (auto simp: env_inv_def in_set_conv_nth)
  moreover have "fst kv \<in> env_keys s" using kv by (simp add: env_keys_pairs [OF inv])
  ultimately show ?thesis using v by (simp add: var_pair_def var_ok_def)
qed

lemma env_full_keys:
  assumes inv: "env_inv s" and full: "\<forall>v \<in> set (env_table s). v_set v"
  shows "card (env_keys s) = 16"
proof -
  have t: "length (env_table s) = 16" "vars.names_ok (env_table s)" using inv by (simp_all add: env_inv_def)
  have f: "filter v_set (env_table s) = env_table s" using full by simp
  have "distinct (map (\<lambda>v. cstr (v_key v)) (env_table s))"
    unfolding distinct_conv_nth using vars.names_okD2 [OF t(2)] full by (metis length_map nth_map nth_mem)
  moreover have "env_keys s = set (map (\<lambda>v. cstr (v_key v)) (env_table s))"
    unfolding env_keys_pairs [OF inv] env_pairs_def f by (simp add: var_pair_def image_image)
  ultimately show ?thesis using t(1) by (metis distinct_card length_map)
qed

lemma env_room:
  assumes "env_inv s" "env_keys s \<subseteq> K" "finite K" "card K \<le> 16" "cstr key \<in> K" "env_get (Some key) s = None"
  shows "\<exists>v \<in> set (env_table s). \<not> v_set v"
proof (rule ccontr)
  assume "\<not> ?thesis"
  then have "card (env_keys s) = 16" using env_full_keys [OF assms(1)] by blast
  moreover have "env_map s (cstr key) = None" using assms(1,6) env_map_cstr [of s "cstr key" key] by (simp add: env_map_def env_inv_def)
  then have "env_keys s \<subset> K" using assms(2,5) by (auto simp: env_keys_def)
  then have "card (env_keys s) < card K" using assms(3) by (simp add: psubset_card_mono)
  ultimately show False using assms(4) by simp
qed

lemma env_load_lines:
  fixes s :: "('d, 'z) env_st_scheme"
  assumes K: "finite K" "card K \<le> 16" and n: "n \<le> 511"
  shows "env_inv s \<Longrightarrow> env_keys s \<subseteq> K \<Longrightarrow> length buf = 512 \<Longrightarrow> i \<le> n \<Longrightarrow>
    take (n - i) (drop i buf) = map byte_of (concat (map line_of kvs)) \<Longrightarrow>
    (\<forall>kv \<in> set kvs. clean kv \<and> length (fst kv) < 16 \<and> length (snd kv) < 32 \<and> fst kv \<in> K) \<Longrightarrow>
    \<exists>buf' t. env_load_loop n i buf s = (buf', s\<lparr>env_table := t\<rparr>) \<and> env_inv (s\<lparr>env_table := t\<rparr>) \<and>
      (\<forall>k. env_map (s\<lparr>env_table := t\<rparr>) k = (case map_of (rev kvs) (cstr k) of Some v \<Rightarrow> Some v | None \<Rightarrow> env_map s k))"
proof (induction kvs arbitrary: i buf s)
  case Nil
  have "n - i = 0" using arg_cong [OF Nil.prems(5), of length] Nil.prems(3) n by (simp add: min_def split: if_splits)
  then have "\<not> i < n" by simp
  then have "env_load_loop n i buf s = (buf, s\<lparr>env_table := env_table s\<rparr>)" by (subst env_load_loop.simps) simp
  then show ?case using Nil.prems(1) by (intro exI [of _ buf] exI [of _ "env_table s"]) simp
next
  case (Cons kv kvs)
  have kv: "clean kv" "length (fst kv) < 16" "length (snd kv) < 32" "fst kv \<in> K" using Cons.prems(6) by simp_all
  let ?i = "i + length (line_of kv)"
  obtain buf1 kb vb where l: "length buf1 = 512" "cstr kb = fst kv" "cstr vb = snd kv" "?i \<le> n"
    "take (n - ?i) (drop ?i buf1) = map byte_of (concat (map line_of kvs))"
    "env_load_loop n i buf s = env_load_loop n ?i buf1 (snd (env_set (Some kb) (Some vb) s))"
    using env_load_line [OF Cons.prems(3) n _ Cons.prems(4) kv(1), of "concat (map line_of kvs)" s] Cons.prems(5) by auto
  have room: "env_get (Some kb) s \<noteq> None \<or> (\<exists>v \<in> set (env_table s). \<not> v_set v)"
    using env_room [OF Cons.prems(1,2) K, of kb] kv(4) l(2) by auto
  obtain t where t: "env_set (Some kb) (Some vb) s = (0, s\<lparr>env_table := t\<rparr>)" "env_inv (s\<lparr>env_table := t\<rparr>)"
    "\<forall>k. env_map (s\<lparr>env_table := t\<rparr>) k = (if cstr k = fst kv then Some (snd kv) else env_map s k)"
    using env_set_effect [OF Cons.prems(1) _ room, of vb] kv(2,3) l(2,3) by auto
  have "env_keys (s\<lparr>env_table := t\<rparr>) \<subseteq> K" using t(3) Cons.prems(2) kv(4) by (auto simp: env_keys_def split: if_splits)
  then obtain buf' t' where r: "env_load_loop n ?i buf1 (s\<lparr>env_table := t\<rparr>) = (buf', s\<lparr>env_table := t'\<rparr>)" "env_inv (s\<lparr>env_table := t'\<rparr>)"
    "\<forall>k. env_map (s\<lparr>env_table := t'\<rparr>) k = (case map_of (rev kvs) (cstr k) of Some v \<Rightarrow> Some v | None \<Rightarrow> env_map (s\<lparr>env_table := t\<rparr>) k)"
    using Cons.IH [OF t(2) _ l(1,4,5)] Cons.prems(6) by auto
  have "env_map (s\<lparr>env_table := t'\<rparr>) k = (case map_of (rev (kv # kvs)) (cstr k) of Some v \<Rightarrow> Some v | None \<Rightarrow> env_map s k)" for k
    using r(3) t(3) by (cases kv) (auto simp: map_add_def split: option.split)
  then show ?case using l(6) t(1) r(1,2) by auto
qed

section \<open>Properties\<close>

lemma file_view_cong:
  assumes "sector_of view s = sector_of view t"
  shows "lookup_file view name s = lookup_file view name t" "file_cluster view e s = file_cluster view e t" "file_size view e s = file_size view e t"
  using assms by (simp_all add: lookup_file_def file_cluster_def file_size_def del: upt_rec_numeral)

lemma write_target_cong:
  fixes s t :: "('d, 'z) fat_st_scheme"
  assumes "sector_of view s = sector_of view t" "s_fat_buf s = s_fat_buf t"
  shows "write_target view name s = write_target view name t"
  unfolding write_target_def file_view_cong [OF assms(1)] alloc_cong [OF assms(2)] assms(1) ..

lemma aios_env_name: "name_to_fat83 ''AIOS.ENV'' ! 0 \<noteq> 0xE5"
  by (simp add: name_to_fat83_def upper_c_def byte_of_def)

text \<open>What a save leaves on the volume.\<close>

lemma env_save_written:
  assumes ok: "vol_ok D view s" and buf: "length (env_save_buf s) = 512" and tx: "length (env_text s) < 512"
    and tg: "write_target view ''AIOS.ENV'' s = Some (e, c)" and c: "2 \<le> unat c" "unat c < 2848"
  shows "\<exists>s'. env_save D s = (int (length (env_text s)), s') \<and> vol_ok D view s' \<and>
    lookup_file view ''AIOS.ENV'' s' = Some e \<and> file_cluster view e s' = c \<and> file_size view e s' = cap_len (of_nat (length (env_text s))) \<and>
    sector_of view s' (unat c + 31) = map byte_of (env_text s) @ replicate (512 - length (env_text s)) 0"
proof -
  let ?n = "length (env_text s)" and ?name = "''AIOS.ENV''"
  obtain b where b: "length b = 512" "env_save_loop (env_table s) (env_save_buf s, 0) = (b, ?n)" "take ?n b = map byte_of (env_text s)"
    using env_save_loop_text [OF buf, of 0 "env_table s"] tx by (auto simp: env_text_def env_pairs_def)
  define b1 where "b1 = b[?n := byte_of NUL]"
  have b1: "take ?n b1 = map byte_of (env_text s)" "length b1 = 512" using b by (simp_all add: b1_def)
  define s1 where "s1 = s\<lparr>env_save_buf := b1\<rparr>"
  have s1: "vol_ok D view s1" using ok by (simp add: s1_def vol_ok_def drive_good_def)
  have "write_target view ?name s1 = write_target view ?name s" by (rule write_target_cong) (simp_all add: s1_def sector_of_def)
  then have s1t: "write_target view ?name s1 = Some (e, c)" using tg by simp
  have n: "unat (of_nat ?n :: u32) = ?n" using tx by (simp add: unat_of_nat)
  then have m: "min (unat (of_nat ?n :: u32)) 512 = ?n" using tx by simp
  obtain s' where w: "fat12_write_file D (Some ?name) (Some b1) (of_nat ?n) s1 = (int ?n, s')"
    "lookup_file view ?name s' = Some e" "file_cluster view e s' = c" "file_size view e s' = cap_len (of_nat ?n)"
    "sector_of view s' (unat c + 31) = map byte_of (env_text s) @ replicate (512 - ?n) 0" "vol_ok D view s'"
    using fat12_written [OF s1 s1t c aios_env_name, of "of_nat ?n" b1] tx b1 unfolding m n by auto
  have "env_save D s = (int ?n, s')" using b(2) w(1) by (simp add: env_save_def b1_def [symmetric] s1_def [symmetric])
  then show ?thesis using w(2-6) by blast
qed

text \<open>The pairs of a registry, laid over one that holds no other keys.\<close>

lemma pairs_overlay:
  assumes inv: "env_inv s" "env_inv s2" and keys: "env_keys s2 \<subseteq> env_keys s"
  shows "(case map_of (rev (env_pairs s)) (cstr k) of Some v \<Rightarrow> Some v | None \<Rightarrow> env_map s2 k) = env_map s k"
proof (cases "map_of (rev (env_pairs s)) (cstr k)")
  case (Some v)
  then have "(cstr k, v) \<in> set (env_pairs s)" using map_of_SomeD by force
  then show ?thesis using Some env_map_pairs [OF inv(1), of k v] by simp
next
  case None
  then have "cstr k \<notin> env_keys s" using env_keys_pairs [OF inv(1)] by (auto simp: map_of_eq_None_iff)
  moreover have "cstr k \<notin> env_keys s2" using calculation keys by blast
  ultimately have "env_map s (cstr k) = None" "env_map s2 (cstr k) = None" by (simp_all add: env_keys_def)
  then show ?thesis using None env_map_cstr [of s "cstr k" k] env_map_cstr [of s2 "cstr k" k] inv by (simp add: env_inv_def)
qed

text \<open>Loading the text of the registry of \<open>s\<close> from the volume.\<close>

lemma env_load_stored:
  fixes s s2 :: "('d, 'z) env_st_scheme"
  assumes ok: "vol_ok D view s2" "env_inv s2" "length (env_load_buf s2) = 512"
    and f: "lookup_file view ''AIOS.ENV'' s2 = Some e" "file_cluster view e s2 = c" "2 \<le> unat c" "unat c < 2848"
      "file_size view e s2 = cap_len (of_nat (length (env_text s)))"
      "sector_of view s2 (unat c + 31) = map byte_of (env_text s) @ replicate (512 - length (env_text s)) 0"
    and s: "env_inv s" "env_keys s2 \<subseteq> env_keys s" "env_text s \<noteq> []" "length (env_text s) < 512" "\<forall>kv \<in> set (env_pairs s). clean kv"
  shows "\<exists>s3. env_load D s2 = (0, s3) \<and> (\<forall>k. env_map s3 k = env_map s k)"
proof -
  let ?n = "length (env_text s)" and ?name = "''AIOS.ENV''"
  have j: "min (min (unat (file_size view e s2)) (unat (511 :: u32))) 512 = ?n"
    using s(4) by (simp add: f(5) unat_cap_len unat_of_nat)
  obtain t where t: "fat12_read_file D (Some ?name) (Some (env_load_buf s2)) 511 s2 =
      (int ?n, Some (map byte_of (env_text s) @ drop ?n (env_load_buf s2)), t)" "vol_same D view s2 t"
    using fat12_read_file_ok [OF ok(1) f(1-4), of 511 "env_load_buf s2"] ok(3) unfolding j f(6) by auto
  define lb where "lb = (map byte_of (env_text s) @ drop ?n (env_load_buf s2))[?n := byte_of NUL]"
  define u where "u = t\<lparr>env_load_buf := map byte_of (env_text s) @ drop ?n (env_load_buf s2)\<rparr>"
  have ut: "env_table u = env_table s2" using t(2) by (auto simp: u_def vol_same_def)
  then have u: "env_inv u" "env_map u = env_map s2" "env_keys u = env_keys s2"
    using ok(2) by (simp_all add: env_inv_def env_map_def [abs_def] env_get_def env_keys_def)
  have lines: "take (?n - 0) (drop 0 lb) = map byte_of (concat (map line_of (env_pairs s)))" by (simp add: lb_def env_text_def)
  have "length lb = 512" "env_keys u \<subseteq> env_keys s" "?n \<le> 511" "\<forall>kv \<in> set (env_pairs s). clean kv \<and> length (fst kv) < 16 \<and> length (snd kv) < 32 \<and> fst kv \<in> env_keys s"
    using s(2,4,5) ok(3) u(3) env_pairs_bounds [OF s(1)] by (simp_all add: lb_def)
  then obtain buf' tb where r: "env_load_loop ?n 0 lb u = (buf', u\<lparr>env_table := tb\<rparr>)"
    "\<forall>k. env_map (u\<lparr>env_table := tb\<rparr>) k = (case map_of (rev (env_pairs s)) (cstr k) of Some v \<Rightarrow> Some v | None \<Rightarrow> env_map u k)"
    using env_load_lines [OF env_keys_bounds [OF s(1)], of ?n u lb 0 "env_pairs s"] u(1) lines by auto
  let ?s3 = "u\<lparr>env_table := tb, env_load_buf := buf'\<rparr>"
  have "env_load D s2 = (0, ?s3)"
    using t(1) r(1) s(3) by (simp add: env_load_def u_def [symmetric]) (simp add: lb_def u_def)
  moreover have "env_map ?s3 k = env_map s k" for k
  proof -
    have "env_map ?s3 k = env_map (u\<lparr>env_table := tb\<rparr>) k" by (simp add: env_map_def env_get_def)
    also have "\<dots> = env_map s k" using r(2) pairs_overlay [OF s(1) ok(2) s(2), of k] unfolding u(2) by metis
    finally show ?thesis .
  qed
  ultimately show ?thesis by blast
qed

text \<open>C6: the environment survives a restart. When the variables fit into the 511 bytes of the file and no key or
  value contains a separator, saving writes them to the volume and succeeds, that is, it does not
  return -1. Loading the file on a machine with that disk, whose registry holds no other keys, rebuilds a registry
  in which every lookup gives what it gave when the environment was saved. The value that stands for
  success is left open: \<^verbatim>\<open>env.h\<close> promises 0, and the code hands on the byte count of
  \<^verbatim>\<open>fat12_write_file\<close> (\<open>env_save_written\<close>), which \<^verbatim>\<open>kernel_shutdown\<close> takes for a failure.\<close>

theorem env_save_load:
  fixes s s2 :: "('d, 'z) env_st_scheme"
  assumes ok: "vol_ok D view s" and inv: "env_inv s" and buf: "length (env_save_buf s) = 512"
    and tx: "env_text s \<noteq> []" "length (env_text s) < 512" "\<forall>kv \<in> set (env_pairs s). clean kv"
    and tg: "write_target view ''AIOS.ENV'' s = Some (e, c)" "2 \<le> c" "c < 2848"
  shows "\<exists>ret s'. env_save D s = (ret, s') \<and> ret \<noteq> - 1 \<and> vol_ok D view s' \<and>
    (vol_ok D view s2 \<and> sector_of view s2 = sector_of view s' \<and> env_inv s2 \<and> env_keys s2 \<subseteq> env_keys s \<and> length (env_load_buf s2) = 512 \<longrightarrow>
      (\<exists>s3. env_load D s2 = (0, s3) \<and> (\<forall>k. map_option cstr (env_get (Some k) s3) = map_option cstr (env_get (Some k) s))))"
proof -
  have c: "2 \<le> unat c" "unat c < 2848" using tg(2,3) by (simp_all add: word_le_nat_alt word_less_nat_alt)
  obtain s' where w: "env_save D s = (int (length (env_text s)), s')" "vol_ok D view s'" "lookup_file view ''AIOS.ENV'' s' = Some e"
    "file_cluster view e s' = c" "file_size view e s' = cap_len (of_nat (length (env_text s)))"
    "sector_of view s' (unat c + 31) = map byte_of (env_text s) @ replicate (512 - length (env_text s)) 0"
    using env_save_written [OF ok buf tx(2) tg(1) c] by blast
  have "\<exists>s3. env_load D s2 = (0, s3) \<and> (\<forall>k. env_map s3 k = env_map s k)"
    if h: "vol_ok D view s2" "sector_of view s2 = sector_of view s'" "env_inv s2" "env_keys s2 \<subseteq> env_keys s" "length (env_load_buf s2) = 512"
    using w(3-6) c unfolding file_view_cong [OF h(2), symmetric] h(2) [symmetric] by (intro env_load_stored [OF h(1,3,5) _ _ _ _ _ _ inv h(4) tx])
  moreover have "int (length (env_text s)) \<noteq> - 1" by simp
  ultimately show ?thesis using w(1,2) unfolding env_map_def by blast
qed

text \<open>A registry with one variable on the emulated volume.\<close>

definition demo_var :: env_var_t where
  "demo_var = \<lparr>v_key = ''MODE'' @ replicate 12 NUL, v_value = ''fast'' @ replicate 28 NUL, v_set = True\<rparr>"

definition demo_saved :: "drive env_st" where
  "demo_saved = demo_env\<lparr>env_table := demo_var # replicate 15 blank_var\<rparr>"

lemma demo_saved_facts:
  "env_table demo_saved = demo_var # replicate 15 blank_var" "length (env_save_buf demo_saved) = 512"
  "env_pairs demo_saved = [(''MODE'', ''fast'')]" "env_text demo_saved = ''MODE=fast'' @ [LF]" "env_inv demo_saved"
  "vol_ok ata_emu (\<lambda>d. d) demo_saved" "write_target (\<lambda>d. d) ''AIOS.ENV'' demo_saved = Some (0, 2)"
proof -
  show t: "env_table demo_saved = demo_var # replicate 15 blank_var" by (simp add: demo_saved_def)
  show "length (env_save_buf demo_saved) = 512" using demo_env_fields by (simp add: demo_saved_def)
  show p: "env_pairs demo_saved = [(''MODE'', ''fast'')]"
    by (simp add: env_pairs_def t demo_var_def blank_var_def var_pair_def cstr_def)
  then show "env_text demo_saved = ''MODE=fast'' @ [LF]" by (simp add: env_text_def line_of_def)
  have u: "\<not> v_set blank_var" "v_set demo_var" "length (cstr (v_key demo_var)) = 4" by (simp_all add: blank_var_def demo_var_def cstr_def)
  have "vars.names_ok (env_table demo_saved)" unfolding vars.names_ok_def t using u by (auto simp: nth_Cons split: nat.splits)
  then show "env_inv demo_saved" by (simp add: env_inv_def t var_ok_def demo_var_def blank_var_def cstr_def)
  have d: "dev demo_saved = demo_drive" by (simp add: demo_saved_def demo_env_def)
  show "vol_ok ata_emu (\<lambda>d. d) demo_saved"
    using demo_drive_good [OF d] by (simp add: vol_ok_def) (simp add: demo_saved_def demo_env_def blank_sched_def)
  show "write_target (\<lambda>d. d) ''AIOS.ENV'' demo_saved = Some (0, 2)"
    by (rule empty_volume_target(2) [OF d]) (simp add: demo_saved_def demo_env_def blank_sched_def)
qed

theorem env_save_load_witness:
  "\<exists>ret s' s3. env_save ata_emu demo_saved = (ret, s') \<and> ret \<noteq> - 1 \<and>
    env_load ata_emu (s'\<lparr>env_table := replicate 16 blank_var, env_load_buf := replicate 512 0\<rparr>) = (0, s3) \<and>
    map_option cstr (env_get (Some ''MODE'') s3) = Some ''fast''"
proof -
  let ?s2 = "(snd (env_save ata_emu demo_saved))\<lparr>env_table := replicate 16 blank_var, env_load_buf := replicate 512 0\<rparr>"
  have kv: "\<forall>kv \<in> set (env_pairs demo_saved). clean kv" by (simp add: demo_saved_facts clean_def)
  have t: "env_text demo_saved \<noteq> []" "length (env_text demo_saved) < 512" "length (env_text demo_saved) = 10" by (simp_all add: demo_saved_facts(4))
  have w: "2 \<le> (2 :: u16)" "(2 :: u16) < 2848" by (simp_all add: word_less_nat_alt)
  obtain ret s' where s': "env_save ata_emu demo_saved = (ret, s')" "vol_ok ata_emu (\<lambda>d. d) s'"
    "vol_ok ata_emu (\<lambda>d. d) ?s2 \<and> sector_of (\<lambda>d. d) ?s2 = sector_of (\<lambda>d. d) s' \<and> env_inv ?s2 \<and> env_keys ?s2 \<subseteq> env_keys demo_saved \<and>
       length (env_load_buf ?s2) = 512 \<longrightarrow>
     (\<exists>s3. env_load ata_emu ?s2 = (0, s3) \<and> (\<forall>k. map_option cstr (env_get (Some k) s3) = map_option cstr (env_get (Some k) demo_saved)))"
    "ret \<noteq> - 1"
    using env_save_load [OF demo_saved_facts(6,5,2) t(1,2) kv demo_saved_facts(7) w, of ?s2]
    by (elim exE conjE) (rule that)
  have s2: "?s2 = s'\<lparr>env_table := replicate 16 blank_var, env_load_buf := replicate 512 0\<rparr>" by (simp add: s'(1))
  have "vars.names_ok (replicate 16 blank_var)" by (simp add: vars.names_ok_def blank_var_def)
  then have i: "env_inv ?s2" by (simp add: env_inv_def var_ok_def blank_var_def)
  have "env_keys ?s2 = {}" unfolding env_keys_pairs [OF i] by (simp add: env_pairs_def blank_var_def)
  moreover have "vol_ok ata_emu (\<lambda>d. d) ?s2" "sector_of (\<lambda>d. d) ?s2 = sector_of (\<lambda>d. d) s'"
    using s'(1,2) by (simp_all add: vol_ok_def drive_good_def sector_of_def)
  moreover have "length (env_load_buf ?s2) = 512" by simp
  ultimately obtain s3 where s3: "env_load ata_emu ?s2 = (0, s3)"
      "\<forall>k. map_option cstr (env_get (Some k) s3) = map_option cstr (env_get (Some k) demo_saved)"
    using s'(3) i by blast
  have "env_map demo_saved ''MODE'' = Some ''fast''"
    unfolding env_map_pairs [OF demo_saved_facts(5)] by (simp add: demo_saved_facts(3) cstr_def)
  then show ?thesis using s'(1,4) s3 unfolding s2 env_map_def by metis
qed

end
