(* ===== verification/Fs.thy ===== *)
theory Fs
  imports Env
begin

text \<open>
  \<^verbatim>\<open>env/fs.c\<close>: the virtual file table, 32 nodes with up to 512 bytes of data each, searched by name. A
  pointer argument to data is the list of bytes it points at, and an operation that fills a buffer
  returns it. The abstract file system is the lookup \<open>file_at\<close> of nodes by name.
\<close>

section \<open>State\<close>

abbreviation FS_MAX_FILES :: nat where "FS_MAX_FILES \<equiv> 32"
abbreviation FS_NAME_LEN :: nat where "FS_NAME_LEN \<equiv> 24"
abbreviation FS_DATA_SIZE :: u32 where "FS_DATA_SIZE \<equiv> 512"

datatype fs_node_type_t = FS_TYPE_FILE | FS_TYPE_DIR

record fs_node_t =
  n_name :: string
  n_type :: fs_node_type_t
  n_size :: u32
  n_data :: "u8 list"
  n_valid :: bool

record 'd fs_st = "'d env_st" +
  fs_table :: "fs_node_t list"

section \<open>Operations\<close>

definition set_node :: "nat \<Rightarrow> (fs_node_t \<Rightarrow> fs_node_t) \<Rightarrow> ('d, 'z) fs_st_scheme \<Rightarrow> ('d, 'z) fs_st_scheme" where
  "set_node i f s = s\<lparr>fs_table := (fs_table s)[i := f (fs_table s ! i)]\<rparr>"

text \<open>\<^verbatim>\<open>fs_find\<close> returns a pointer into the table; the model returns the index.\<close>

definition fs_find :: "string option \<Rightarrow> ('d, 'z) fs_st_scheme \<Rightarrow> nat option" where
  "fs_find name s = table_find n_valid n_name FS_NAME_LEN (fs_table s) name"

definition fs_create :: "string option \<Rightarrow> fs_node_type_t \<Rightarrow> ('d, 'z) fs_st_scheme \<Rightarrow> int \<times> ('d, 'z) fs_st_scheme" where
  "fs_create name type s =
     (case name of
        None \<Rightarrow> (- 1, s)
      | Some nm \<Rightarrow>
         (if fs_find name s \<noteq> None then (- 1, s)
          else case find_index (\<lambda>n. \<not> n_valid n) (fs_table s) of
                 Some i \<Rightarrow> (0, set_node i (\<lambda>n. n\<lparr>n_name := set_name (n_name n) nm FS_NAME_LEN, n_type := type, n_size := 0, n_valid := True\<rparr>) s)
               | None \<Rightarrow> (- 1, s)))"

definition fs_init :: "('d, 'z) fs_st_scheme \<Rightarrow> ('d, 'z) fs_st_scheme" where
  "fs_init s =
     (let s = fold (\<lambda>i. set_node i (\<lambda>n. n\<lparr>n_valid := False, n_size := 0\<rparr>)) [0..<FS_MAX_FILES] s
      in snd (fs_create (Some ''/'') FS_TYPE_DIR s))"

definition fs_write :: "string option \<Rightarrow> u8 list \<Rightarrow> u32 \<Rightarrow> ('d, 'z) fs_st_scheme \<Rightarrow> int \<times> ('d, 'z) fs_st_scheme" where
  "fs_write name data len s =
     (case fs_find name s of
        None \<Rightarrow> (- 1, s)
      | Some i \<Rightarrow>
         (if n_type (fs_table s ! i) \<noteq> FS_TYPE_FILE then (- 1, s)
          else let len = (if FS_DATA_SIZE < len then FS_DATA_SIZE else len)
               in (uint len, set_node i (\<lambda>n. n\<lparr>n_data := copy_bytes data (unat len) (n_data n), n_size := len\<rparr>) s)))"

definition fs_read :: "string option \<Rightarrow> u8 list \<Rightarrow> u32 \<Rightarrow> ('d, 'z) fs_st_scheme \<Rightarrow> int \<times> u8 list" where
  "fs_read name buf len s =
     (case fs_find name s of
        None \<Rightarrow> (- 1, buf)
      | Some i \<Rightarrow>
         (if n_type (fs_table s ! i) \<noteq> FS_TYPE_FILE then (- 1, buf)
          else let len = (if n_size (fs_table s ! i) < len then n_size (fs_table s ! i) else len)
               in (uint len, copy_bytes (n_data (fs_table s ! i)) (unat len) buf)))"

definition fs_delete :: "string option \<Rightarrow> ('d, 'z) fs_st_scheme \<Rightarrow> int \<times> ('d, 'z) fs_st_scheme" where
  "fs_delete name s =
     (case fs_find name s of
        None \<Rightarrow> (- 1, s)
      | Some i \<Rightarrow> (0, set_node i (\<lambda>n. n\<lparr>n_valid := False, n_size := 0\<rparr>) s))"

definition fs_list :: "('d, 'z) fs_st_scheme \<Rightarrow> ('d, 'z) fs_st_scheme" where
  "fs_list s = s"

primrec fs_list_loop :: "'d io_dev \<Rightarrow> fs_node_t list \<Rightarrow> nat \<Rightarrow> ('d, 'z) fs_st_scheme \<Rightarrow> (nat \<times> ('d, 'z) fs_st_scheme) option" where
  "fs_list_loop D [] shown s = Some (shown, s)"
| "fs_list_loop D (n # ns) shown s =
     (if \<not> n_valid n then fs_list_loop D ns shown s
      else do { s \<leftarrow> vga_print D (Some ''  '') s;
                s \<leftarrow> vga_print D (Some (if n_type n = FS_TYPE_DIR then ''[DIR]  '' else ''[FILE] '')) s;
                s \<leftarrow> vga_print D (Some (n_name n)) s;
                s \<leftarrow> (if n_type n = FS_TYPE_FILE
                     then do { s \<leftarrow> vga_print D (Some ''  ('') s;
                               s \<leftarrow> vga_print_dec D (n_size n) s;
                               vga_print D (Some '' bytes)'') s }
                     else Some s);
                s \<leftarrow> vga_println D (Some '''') s;
                fs_list_loop D ns (shown + 1) s })"

text \<open>Printing leaves the table alone, so the loop runs over the nodes it starts with.\<close>

definition fs_list_vga :: "'d io_dev \<Rightarrow> ('d, 'z) fs_st_scheme \<Rightarrow> ('d, 'z) fs_st_scheme option" where
  "fs_list_vga D s =
     do { s \<leftarrow> vga_println D (Some ''--- Virtual Filesystem ---'') s;
          (shown, s) \<leftarrow> fs_list_loop D (fs_table s) 0 s;
          if shown = 0 then vga_println D (Some ''  (empty)'') s else Some s }"

section \<open>Files by name\<close>

interpretation nodes: name_table n_valid n_name 24
  by unfold_locales simp

definition node_ok :: "fs_node_t \<Rightarrow> bool" where
  "node_ok n \<longleftrightarrow> length (n_name n) = 24 \<and> length (n_data n) = 512 \<and> n_size n \<le> 512"

definition fs_inv :: "('d, 'z) fs_st_scheme \<Rightarrow> bool" where
  "fs_inv s \<longleftrightarrow> length (fs_table s) = 32 \<and> (\<forall>n \<in> set (fs_table s). node_ok n) \<and> nodes.names_ok (fs_table s)"

definition file_at :: "('d, 'z) fs_st_scheme \<Rightarrow> string \<Rightarrow> fs_node_t option" where
  "file_at s k = nodes.entry (fs_table s) k"

text \<open>The bytes a node holds.\<close>

definition contents :: "fs_node_t \<Rightarrow> u8 list" where
  "contents n = take (unat (n_size n)) (n_data n)"

lemma set_node_fields [simp]: "fs_table (set_node i f s) = (fs_table s)[i := f (fs_table s ! i)]"
  by (simp add: set_node_def)

lemma fs_find_Some:
  assumes "fs_inv s" "fs_find (Some name) s = Some i"
  shows "i < 32" "n_valid (fs_table s ! i)" "cstr (n_name (fs_table s ! i)) = cstr name" "file_at s name = Some (fs_table s ! i)" "node_ok (fs_table s ! i)"
  using assms nodes.find_iff [of "fs_table s" name i] by (auto simp: fs_inv_def fs_find_def file_at_def nodes.entry_def)

lemma file_at_find: "file_at s name = map_option ((!) (fs_table s)) (fs_find (Some name) s)"
  by (simp add: file_at_def nodes.entry_def fs_find_def)

lemma file_at_cstr: "fs_inv s \<Longrightarrow> cstr k = cstr k' \<Longrightarrow> file_at s k = file_at s k'"
  unfolding file_at_def fs_inv_def by (blast intro: nodes.entry_cstr)

lemma fs_update:
  fixes s :: "('d, 'z) fs_st_scheme"
  assumes inv: "fs_inv s" and ok: "node_ok e" and t: "fs_table s' = (fs_table s)[i := e]"
    and n: "\<And>k. nodes.names_ok ((fs_table s)[i := e]) \<and> nodes.entry ((fs_table s)[i := e]) k = (if cstr k = cstr key then v else nodes.entry (fs_table s) k)"
  shows "fs_inv s' \<and> (\<forall>k. file_at s' k = (if cstr k = cstr key then v else file_at s k))"
proof -
  have "\<forall>x \<in> set ((fs_table s)[i := e]). node_ok x" using inv ok by (intro ball_list_update) (simp_all add: fs_inv_def)
  then show ?thesis using inv n by (simp add: fs_inv_def file_at_def t)
qed

text \<open>A node replaced by one with the same name.\<close>

lemma fs_replace:
  fixes s :: "('d, 'z) fs_st_scheme"
  assumes inv: "fs_inv s" and f: "fs_find (Some name) s = Some i" and e: "node_ok e" "n_valid e" "n_name e = n_name (fs_table s ! i)"
    and t: "fs_table s' = (fs_table s)[i := e]"
  shows "fs_inv s' \<and> (\<forall>k. file_at s' k = (if cstr k = cstr name then Some e else file_at s k))"
proof (rule fs_update [OF inv e(1) t])
  show "nodes.names_ok ((fs_table s)[i := e]) \<and> nodes.entry ((fs_table s)[i := e]) k = (if cstr k = cstr name then Some e else nodes.entry (fs_table s) k)" for k
    using inv f e fs_find_Some [OF inv f] by (intro nodes.entry_replace) (simp_all add: fs_inv_def fs_find_def)
qed

lemma fs_read_eq:
  assumes "file_at s name = Some n" "n_type n = FS_TYPE_FILE"
  shows "fs_read (Some name) buf len s =
    (int (min (unat (n_size n)) (unat len)), copy_bytes (n_data n) (min (unat (n_size n)) (unat len)) buf)"
proof -
  obtain i where i: "fs_find (Some name) s = Some i" "fs_table s ! i = n" using assms(1) by (auto simp: file_at_find)
  define l where "l = (if n_size n < len then n_size n else len)"
  have l: "unat l = min (unat (n_size n)) (unat len)" by (auto simp: l_def word_less_nat_alt)
  have "fs_read (Some name) buf len s = (uint l, copy_bytes (n_data n) (unat l) buf)"
    by (simp add: fs_read_def i assms(2) l_def Let_def)
  then show ?thesis by (simp add: l uint_nat)
qed

section \<open>Properties\<close>

definition blank_node :: fs_node_t where
  "blank_node = \<lparr>n_name = replicate 24 NUL, n_type = FS_TYPE_FILE, n_size = 0, n_data = replicate 512 0, n_valid = False\<rparr>"

definition demo_fs :: "drive fs_st" where
  "demo_fs = blank_sched demo_drive (fat_st_ext (replicate 512 0) (replicate 4608 0) True
     (env_st_ext (replicate 16 blank_var) (replicate 512 0) (replicate 512 0) (fs_st_ext (replicate 32 blank_node) ())))"

lemma demo_fs_facts: "fs_table demo_fs = replicate 32 blank_node" "fs_inv demo_fs" "file_at demo_fs k = None"
proof -
  show t: "fs_table demo_fs = replicate 32 blank_node" by (simp add: demo_fs_def blank_sched_def)
  have "nodes.names_ok (fs_table demo_fs)" by (simp add: t nodes.names_ok_def blank_node_def)
  then show "fs_inv demo_fs" by (simp add: fs_inv_def t node_ok_def blank_node_def)
  show "file_at demo_fs k = None" by (simp add: file_at_find fs_find_def table_find_def find_index_None t blank_node_def)
qed

lemma fs_create_effect:
  assumes inv: "fs_inv s" and name: "length (cstr name) < 24"
  shows "\<exists>r s'. fs_create (Some name) ty s = (r, s') \<and> fs_inv s' \<and>
      (if file_at s name \<noteq> None \<or> (\<forall>n \<in> set (fs_table s). n_valid n) then r = - 1 \<and> s' = s
       else r = 0 \<and> (\<exists>n. n_type n = ty \<and> contents n = [] \<and> cstr (n_name n) = cstr name \<and>
         (\<forall>k. file_at s' k = (if cstr k = cstr name then Some n else file_at s k))))"
proof (cases "file_at s name \<noteq> None \<or> (\<forall>n \<in> set (fs_table s). n_valid n)")
  case True
  moreover have "find_index (\<lambda>n. \<not> n_valid n) (fs_table s) = None" if "\<forall>n \<in> set (fs_table s). n_valid n" using that by (simp add: find_index_None)
  ultimately have "fs_create (Some name) ty s = (- 1, s)" by (auto simp: fs_create_def file_at_find)
  then show ?thesis using True inv by simp
next
  case False
  let ?t = "fs_table s"
  from False have none: "fs_find (Some name) s = None" by (simp add: file_at_find)
  obtain i where fi: "find_index (\<lambda>n. \<not> n_valid n) ?t = Some i"
    using False by (cases "find_index (\<lambda>n. \<not> n_valid n) ?t") (auto simp: find_index_None)
  have i: "i < length ?t" "\<not> n_valid (?t ! i)" using find_index_Some [OF fi] by auto
  let ?e = "(?t ! i)\<lparr>n_name := set_name (n_name (?t ! i)) name 24, n_type := ty, n_size := 0, n_valid := True\<rparr>"
  have "node_ok (?t ! i)" using inv i by (simp add: fs_inv_def)
  then have e: "node_ok ?e" "cstr (n_name ?e) = cstr name" using name by (simp_all add: node_ok_def cstr_set_name)
  define s' where "s' = snd (fs_create (Some name) ty s)"
  have s': "fs_create (Some name) ty s = (0, s')" "fs_table s' = ?t[i := ?e]"
    using none fi by (simp_all add: s'_def fs_create_def)
  have "fs_inv s' \<and> (\<forall>k. file_at s' k = (if cstr k = cstr name then Some ?e else file_at s k))"
  proof (rule fs_update [OF inv e(1) s'(2)])
    show "nodes.names_ok (?t[i := ?e]) \<and> nodes.entry (?t[i := ?e]) k = (if cstr k = cstr name then Some ?e else nodes.entry ?t k)" for k
      using inv i name e none by (intro nodes.entry_insert) (simp_all add: fs_inv_def fs_find_def)
  qed
  moreover have "contents ?e = []" "n_type ?e = ty" by (simp_all add: contents_def)
  ultimately show ?thesis using s'(1) False e(2) by (simp only: if_False) blast
qed

lemma fs_create_frame: "\<exists>t. snd (fs_create name ty s) = s\<lparr>fs_table := t\<rparr>"
proof -
  have "snd (fs_create name ty s) = s\<lparr>fs_table := fs_table (snd (fs_create name ty s))\<rparr>"
    by (simp add: fs_create_def set_node_def split: option.split)
  then show ?thesis by blast
qed

text \<open>C40: creating a node with a name of at most 23 characters makes it the only change of the file system: an empty
  node of the given type under that name. It fails with -1 and without effect exactly when the name is
  taken or all 32 nodes are used. Deleting a name removes exactly that node, and fails with -1 when there is none.\<close>

theorem fs_create_delete:
  assumes inv: "fs_inv s" and name: "length (cstr name) < 24"
  shows "(\<exists>r s'. fs_create (Some name) ty s = (r, s') \<and> fs_inv s' \<and>
      (if file_at s name \<noteq> None \<or> (\<forall>n \<in> set (fs_table s). n_valid n) then r = - 1 \<and> s' = s
       else r = 0 \<and> (\<exists>n. n_type n = ty \<and> contents n = [] \<and> cstr (n_name n) = cstr name \<and>
         (\<forall>k. file_at s' k = (if cstr k = cstr name then Some n else file_at s k))))) \<and>
    (\<exists>r s'. fs_delete (Some name) s = (r, s') \<and> fs_inv s' \<and>
      (if file_at s name = None then r = - 1 \<and> s' = s
       else r = 0 \<and> (\<forall>k. file_at s' k = (if cstr k = cstr name then None else file_at s k))))"
proof (rule conjI [OF fs_create_effect [OF assms]])
  let ?t = "fs_table s"
  show "\<exists>r s'. fs_delete (Some name) s = (r, s') \<and> fs_inv s' \<and>
      (if file_at s name = None then r = - 1 \<and> s' = s
       else r = 0 \<and> (\<forall>k. file_at s' k = (if cstr k = cstr name then None else file_at s k)))"
  proof (cases "fs_find (Some name) s")
    case None
    then show ?thesis using inv by (simp add: fs_delete_def file_at_find)
  next
    case (Some i)
    note f = fs_find_Some [OF inv Some]
    let ?e = "(?t ! i)\<lparr>n_valid := False, n_size := 0\<rparr>"
    define s' where "s' = snd (fs_delete (Some name) s)"
    have s': "fs_delete (Some name) s = (0, s')" "fs_table s' = ?t[i := ?e]" using Some by (simp_all add: s'_def fs_delete_def)
    have "node_ok ?e" using f(5) by (simp add: node_ok_def)
    then have "fs_inv s' \<and> (\<forall>k. file_at s' k = (if cstr k = cstr name then None else file_at s k))"
    proof (rule fs_update [OF inv _ s'(2)])
      show "nodes.names_ok (?t[i := ?e]) \<and> nodes.entry (?t[i := ?e]) k = (if cstr k = cstr name then None else nodes.entry ?t k)" for k
        using inv Some by (intro nodes.entry_clear) (simp_all add: fs_inv_def fs_find_def)
    qed
    then show ?thesis using s'(1) f(4) by auto
  qed
qed

theorem fs_create_delete_witness:
  "\<exists>s'. fs_create (Some ''/etc'') FS_TYPE_DIR demo_fs = (0, s') \<and> fs_inv s' \<and> map_option n_type (file_at s' ''/etc'') = Some FS_TYPE_DIR"
proof -
  have c: "length (cstr ''/etc'') < 24" by (simp add: cstr_def)
  have h: "\<not> (file_at demo_fs ''/etc'' \<noteq> None \<or> (\<forall>n \<in> set (fs_table demo_fs). n_valid n))"
    by (simp add: demo_fs_facts blank_node_def)
  obtain s' n where "fs_create (Some ''/etc'') FS_TYPE_DIR demo_fs = (0, s')" "fs_inv s'" "n_type n = FS_TYPE_DIR"
      "\<forall>k. file_at s' k = (if cstr k = cstr ''/etc'' then Some n else file_at demo_fs k)"
    using fs_create_delete [OF demo_fs_facts(2) c, of FS_TYPE_DIR, unfolded if_not_P [OF h]] by blast
  then show ?thesis by auto
qed

text \<open>C39: writing to a file stores the first 512 bytes of the data at most, returns their number and changes no other
  node; reading it afterwards returns exactly what was stored, cut at the reader's length. A name that is
  not there or is a directory gives -1, with the table and the buffer as they were.\<close>

theorem fs_write_read:
  assumes inv: "fs_inv s" and len: "unat len \<le> length data" "unat rlen \<le> length buf"
  shows "case file_at s name of
      None \<Rightarrow> fs_write (Some name) data len s = (- 1, s) \<and> fs_read (Some name) buf rlen s = (- 1, buf)
    | Some n \<Rightarrow>
       (if n_type n \<noteq> FS_TYPE_FILE then fs_write (Some name) data len s = (- 1, s) \<and> fs_read (Some name) buf rlen s = (- 1, buf)
        else \<exists>s' n'. let m = min (unat len) 512; j = min m (unat rlen) in
          fs_write (Some name) data len s = (int m, s') \<and> fs_inv s' \<and> n_type n' = FS_TYPE_FILE \<and> contents n' = take m data \<and>
          (\<forall>k. file_at s' k = (if cstr k = cstr name then Some n' else file_at s k)) \<and>
          fs_read (Some name) buf rlen s' = (int j, take j data @ drop j buf))"
proof (cases "fs_find (Some name) s")
  case None
  then show ?thesis by (simp add: file_at_find fs_write_def fs_read_def)
next
  case (Some i)
  note f = fs_find_Some [OF inv Some]
  let ?n = "fs_table s ! i"
  show ?thesis
  proof (cases "n_type ?n = FS_TYPE_FILE")
    case False
    then show ?thesis using Some f(4) by (simp add: fs_write_def fs_read_def)
  next
    case True
    then have nt: "\<not> n_type ?n \<noteq> FS_TYPE_FILE" by blast
    let ?l = "if 512 < len then 512 else len"
    define m where "m = min (unat len) 512"
    define j where "j = min m (unat rlen)"
    have m: "unat ?l = m" "?l \<le> 512" using unat_cap_len [of len] by (simp_all add: cap_len_def m_def)
    have b: "m \<le> 512" "m \<le> length data" "j \<le> m" "j \<le> length buf" using len by (simp_all add: m_def j_def min_def)
    let ?e = "?n\<lparr>n_data := copy_bytes data m (n_data ?n), n_size := ?l\<rparr>"
    have d: "copy_bytes data m (n_data ?n) = take m data @ drop m (n_data ?n)" using f(5) b by (intro copy_bytes_eq) (simp_all add: node_ok_def)
    have e: "node_ok ?e" using f(5) m(2) b by (simp add: node_ok_def d)
    define s' where "s' = snd (fs_write (Some name) data len s)"
    have s': "fs_write (Some name) data len s = (uint ?l, s')" "fs_table s' = (fs_table s)[i := ?e]"
      unfolding s'_def fs_write_def using Some True m(1) by (simp_all add: Let_def)
    have r: "fs_inv s' \<and> (\<forall>k. file_at s' k = (if cstr k = cstr name then Some ?e else file_at s k))"
      using f by (intro fs_replace [OF inv Some e _ _ s'(2)]) simp_all
    then have fe: "file_at s' name = Some ?e" by simp
    have et: "n_type ?e = FS_TYPE_FILE" using True by simp
    have sz: "unat (n_size ?e) = m" using m(1) by simp
    have "copy_bytes (n_data ?e) j buf = take j data @ drop j buf"
      using b f(5) copy_bytes_eq [of j "n_data ?e" buf] by (simp add: d node_ok_def min_def)
    then have "fs_read (Some name) buf rlen s' = (int j, take j data @ drop j buf)"
      unfolding fs_read_eq [OF fe et] sz j_def [symmetric] by simp
    moreover have "contents ?e = take m data" using m(1) b by (simp add: contents_def d)
    moreover have "fs_write (Some name) data len s = (int m, s')" using s'(1) m(1) by (simp add: uint_nat)
    ultimately have "\<exists>s' n'. fs_write (Some name) data len s = (int m, s') \<and> fs_inv s' \<and> n_type n' = FS_TYPE_FILE \<and> contents n' = take m data \<and>
          (\<forall>k. file_at s' k = (if cstr k = cstr name then Some n' else file_at s k)) \<and>
          fs_read (Some name) buf rlen s' = (int j, take j data @ drop j buf)"
      using r et by blast
    then show ?thesis unfolding f(4) option.case if_not_P [OF nt] Let_def m_def [symmetric] j_def [symmetric] .
  qed
qed

definition demo_node :: fs_node_t where
  "demo_node = blank_node\<lparr>n_name := ''log'' @ replicate 21 NUL, n_valid := True\<rparr>"

theorem fs_write_read_witness:
  "\<exists>s'. fs_write (Some ''log'') [1, 2, 3] 3 (demo_fs\<lparr>fs_table := demo_node # replicate 31 blank_node\<rparr>) = (3, s') \<and>
     fs_read (Some ''log'') [9, 9, 9, 9] 4 s' = (3, [1, 2, 3, 9])"
proof -
  let ?s = "demo_fs\<lparr>fs_table := demo_node # replicate 31 blank_node\<rparr>"
  have v: "n_valid demo_node" "\<not> n_valid blank_node" "cstr (n_name demo_node) = ''log''" "n_type demo_node = FS_TYPE_FILE"
    by (simp_all add: demo_node_def blank_node_def cstr_def)
  then have ok: "nodes.names_ok (fs_table ?s)" unfolding nodes.names_ok_def by (auto simp: nth_Cons split: nat.splits)
  then have inv: "fs_inv ?s" by (simp add: fs_inv_def node_ok_def demo_node_def blank_node_def)
  have "file_at ?s ''log'' = Some demo_node"
    unfolding file_at_def nodes.entry_Some [OF ok] using v by (intro exI [of _ 0]) (simp add: cstr_def)
  then show ?thesis using fs_write_read [OF inv, of 3 "[1, 2, 3]" 4 "[9, 9, 9, 9]" "''log''"] v(4) by (auto simp: Let_def)
qed

end
