(* ===== verification/Console.thy ===== *)
theory Console
  imports Vga Memory_Safety
begin

text \<open>
  What the operations that print have in common. Every one of them returns on a machine whose UART
  becomes ready after finitely many polls, and changes nothing but the screen: the text window, the
  cursor, the colour and the device. \<open>draws K f\<close> says so of an operation \<open>f\<close>, where \<open>K\<close> is a part of the
  device that the console's ports do not reach, such as the disk. The rules in \<open>draws_intros\<close> carry it
  through the sequences, branches and loops of the printing code of all components.
\<close>

definition console_ports :: "u16 set" where
  "console_ports = {0x3D4, 0x3D5, COM1_DATA, COM1_IER, COM1_FCR, COM1_LCR, COM1_MCR}"

definition console_dev :: "'d io_dev \<Rightarrow> ('d \<Rightarrow> 'k) \<Rightarrow> bool" where
  "console_dev D K \<longleftrightarrow> (\<forall>d. tx_live D d) \<and> (\<forall>d. K (snd (in8 D COM1_LSR d)) = K d) \<and>
     (\<forall>p v d. p \<in> console_ports \<longrightarrow> K (out8 D p v d) = K d)"

definition console_only :: "('d \<Rightarrow> 'k) \<Rightarrow> ('d, 'z) vga_st_scheme \<Rightarrow> ('d, 'z) vga_st_scheme \<Rightarrow> bool" where
  "console_only K s s' \<longleftrightarrow>
     (\<exists>m d r c k. s' = s\<lparr>mem := m, dev := d, vga_row := r, vga_col := c, vga_color := k\<rparr>) \<and> K (dev s') = K (dev s) \<and>
     (vga_ok s \<longrightarrow> vga_ok s' \<and> (\<forall>a. a < VGA_BUFFER \<or> VGA_BUFFER + 4000 \<le> a \<longrightarrow> mem s' a = mem s a))"

definition draws :: "('d \<Rightarrow> 'k) \<Rightarrow> (('d, 'z) vga_st_scheme \<Rightarrow> ('d, 'z) vga_st_scheme option) \<Rightarrow> bool" where
  "draws K f \<longleftrightarrow> (\<forall>s. \<exists>s'. f s = Some s' \<and> console_only K s s')"

named_theorems draws_intros \<open>operations that only draw\<close>

lemma console_only_refl [simp]: "console_only K s s"
proof -
  have "s = s\<lparr>mem := mem s, dev := dev s, vga_row := vga_row s, vga_col := vga_col s, vga_color := vga_color s\<rparr>" by simp
  then show ?thesis unfolding console_only_def by blast
qed

lemma console_only_trans:
  assumes st: "console_only K s t" and tu: "console_only K t u"
  shows "console_only K s u"
proof -
  obtain m d r c k m' d' r' c' k' where
    "t = s\<lparr>mem := m, dev := d, vga_row := r, vga_col := c, vga_color := k\<rparr>"
    "u = t\<lparr>mem := m', dev := d', vga_row := r', vga_col := c', vga_color := k'\<rparr>"
    using assms unfolding console_only_def by blast
  then have "u = s\<lparr>mem := m', dev := d', vga_row := r', vga_col := c', vga_color := k'\<rparr>" by simp
  then show ?thesis using assms unfolding console_only_def by metis
qed

text \<open>What a state keeps while something is drawn.\<close>

lemma console_only_fields:
  assumes "console_only K s s'"
  shows "heap_head s' = heap_head s" "g_serial_hook s' = g_serial_hook s" "g_tick_count s' = g_tick_count s"
    "g_kernel_state s' = g_kernel_state s" "vga_st.more s' = vga_st.more s" "int_flag s' = int_flag s"
  using assms by (auto simp: console_only_def)

text \<open>The heap lies above the text window.\<close>

lemma console_only_heap:
  assumes "console_only K s s'" "vga_ok s" "heap_rep s bs"
  shows "heap_rep s' bs"
proof -
  have "seg (mem s') HEAP_START 0 bs 0 = seg (mem s) HEAP_START 0 bs 0"
    using assms(1,2) hdr_bytes_bounds [of HEAP_START bs] by (intro seg_cong) (auto simp: console_only_def)
  then show ?thesis using assms(3) console_only_fields(1) [OF assms(1)] by (simp add: heap_rep_def)
qed

section \<open>Operations that draw\<close>

lemma drawsD: "draws K f \<Longrightarrow> \<exists>s'. f s = Some s' \<and> console_only K s s'"
  by (simp add: draws_def)

lemma draws_bind [draws_intros]:
  assumes f: "draws K f" and g: "draws K g"
  shows "draws K (\<lambda>s. Option.bind (f s) g)"
  unfolding draws_def
proof
  fix s
  obtain t where t: "f s = Some t" "console_only K s t" using drawsD [OF f] by blast
  obtain u where "g t = Some u" "console_only K t u" using drawsD [OF g] by blast
  then show "\<exists>s'. Option.bind (f s) g = Some s' \<and> console_only K s s'"
    using t console_only_trans [OF t(2)] by auto
qed

lemma draws_Some [draws_intros]: "draws K Some"
  by (simp add: draws_def)

lemma draws_if [draws_intros]: "draws K f \<Longrightarrow> draws K g \<Longrightarrow> draws K (\<lambda>s. if b s then f s else g s)"
  by (simp add: draws_def)

lemma console_onlyI:
  assumes "s' = s\<lparr>mem := m, dev := d, vga_row := r, vga_col := c, vga_color := k\<rparr>" "K d = K (dev s)"
    "vga_ok s \<Longrightarrow> vga_ok s' \<and> (\<forall>a. a < VGA_BUFFER \<or> VGA_BUFFER + 4000 \<le> a \<longrightarrow> m a = mem s a)"
  shows "console_only K s s'"
  unfolding console_only_def
proof (intro conjI impI)
  show "\<exists>m d r c k. s' = s\<lparr>mem := m, dev := d, vga_row := r, vga_col := c, vga_color := k\<rparr>" using assms(1) by blast
  show "K (dev s') = K (dev s)" using assms(1,2) by simp
  show "vga_ok s \<Longrightarrow> vga_ok s'" using assms(3) by blast
  show "vga_ok s \<Longrightarrow> \<forall>a. a < VGA_BUFFER \<or> VGA_BUFFER + 4000 \<le> a \<longrightarrow> mem s' a = mem s a" using assms(1,3) by simp
qed

lemma console_only_color: "console_only K s (vga_set_color fg bg s)"
  by (rule console_onlyI [where m = "mem s" and d = "dev s" and r = "vga_row s" and c = "vga_col s"])
    (simp_all add: vga_set_color_def vga_ok_def)

lemma draws_set_color [draws_intros]: "draws K (\<lambda>s. Some (vga_set_color fg bg s))"
  by (simp add: draws_def console_only_color)

text \<open>The UART and the cursor registers.\<close>

lemma kept_polls: "console_dev D K \<Longrightarrow> K (((\<lambda>d. snd (in8 D COM1_LSR d)) ^^ n) d) = K d"
  by (induction n) (simp_all add: console_dev_def)

lemma kept_out: "console_dev D K \<Longrightarrow> p \<in> console_ports \<Longrightarrow> K (out8 D p v d) = K d"
  by (simp add: console_dev_def)

lemma serial_write_loop_kept:
  assumes D: "console_dev D K"
  shows "\<exists>d. serial_write_loop D buf s = Some (s\<lparr>dev := d\<rparr>) \<and> K d = K (dev s)"
proof (induction buf arbitrary: s)
  case Nil
  then show ?case by (intro exI [of _ "dev s"]) simp
next
  case (Cons b buf)
  have "tx_live D (dev s)" using D by (simp add: console_dev_def)
  then obtain n where n: "serial_tx_wait D s = Some (s\<lparr>dev := ((\<lambda>d. snd (in8 D COM1_LSR d)) ^^ n) (dev s)\<rparr>)"
    using serial_tx_wait_live [of D "dev s" s] by blast
  let ?d = "out8 D COM1_DATA b (((\<lambda>d. snd (in8 D COM1_LSR d)) ^^ n) (dev s))"
  have d: "K ?d = K (dev s)" using kept_out [OF D] kept_polls [OF D] by (simp add: console_ports_def)
  obtain d where "serial_write_loop D buf (s\<lparr>dev := ?d\<rparr>) = Some (s\<lparr>dev := d\<rparr>)" "K d = K ?d"
    using Cons.IH [of "s\<lparr>dev := ?d\<rparr>"] by auto
  then show ?case using n d by (intro exI [of _ d]) (simp add: outb_def)
qed

lemma serial_write_kept:
  assumes "console_dev D K"
  shows "\<exists>d. serial_write D buf s = Some (int (length buf), s\<lparr>dev := d\<rparr>) \<and> K d = K (dev s)"
  using serial_write_loop_kept [OF assms, of buf s] by (auto simp: serial_write_def)

lemma serial_mirror_char_kept:
  assumes D: "console_dev D K"
  shows "\<exists>d. serial_mirror_char D c s = Some (s\<lparr>dev := d\<rparr>) \<and> K d = K (dev s)"
proof -
  obtain d where d: "(if c = CHR 0x0A then map_option snd (serial_write D [byte_of (CHR 0x0D)] s) else Some s) = Some (s\<lparr>dev := d\<rparr>)"
    "K d = K (dev s)"
    using serial_write_kept [OF D, of "[byte_of (CHR 0x0D)]" s] by (cases "c = CHR 0x0A") (auto intro: that [of "dev s"])
  then show ?thesis
    using serial_write_kept [OF D, of "[byte_of c]" "s\<lparr>dev := d\<rparr>"] by (auto simp: serial_mirror_char_def)
qed

lemma vga_update_cursor_kept:
  assumes D: "console_dev D K"
  shows "\<exists>d. vga_update_cursor D s = s\<lparr>dev := d\<rparr> \<and> K d = K (dev s)"
  by (simp add: vga_update_cursor_def outb_def Let_def) (rule exI, rule conjI, rule refl, simp add: kept_out [OF D] console_ports_def)

lemma vga_put_local_fields: "\<exists>m r k. vga_put_local c s = s\<lparr>mem := m, vga_row := r, vga_col := k\<rparr>"
proof -
  let ?u = "vga_put_local c s"
  have st: "(vga_put_step c s)\<lparr>mem := mem s, vga_row := vga_row s, vga_col := vga_col s\<rparr> = s"
    by (simp add: vga_put_step_def Let_def)
  have "?u\<lparr>mem := mem s, vga_row := vga_row s, vga_col := vga_col s\<rparr> =
      (vga_put_step c s)\<lparr>mem := mem s, vga_row := vga_row s, vga_col := vga_col s\<rparr>"
    by (simp add: vga_put_local_def Let_def vga_scroll_eq)
  then have "s = ?u\<lparr>mem := mem s, vga_row := vga_row s, vga_col := vga_col s\<rparr>" using st by simp
  then have "s\<lparr>mem := mem ?u, vga_row := vga_row ?u, vga_col := vga_col ?u\<rparr> =
      ?u\<lparr>mem := mem s, vga_row := vga_row s, vga_col := vga_col s\<rparr>\<lparr>mem := mem ?u, vga_row := vga_row ?u, vga_col := vga_col ?u\<rparr>"
    by (rule arg_cong)
  also have "\<dots> = ?u" by simp
  finally show ?thesis by metis
qed

lemma draws_putchar [draws_intros]:
  assumes D: "console_dev D K"
  shows "draws K (vga_putchar D c :: ('d, 'z) vga_st_scheme \<Rightarrow> _)"
  unfolding draws_def
proof
  fix s :: "('d, 'z) vga_st_scheme"
  let ?u = "vga_put_local c s"
  obtain m r k where u: "?u = s\<lparr>mem := m, vga_row := r, vga_col := k\<rparr>" using vga_put_local_fields by blast
  have run: "vga_putchar D c s = do { s \<leftarrow> (case g_serial_hook ?u of None \<Rightarrow> Some ?u
      | Some Serial_mirror_char \<Rightarrow> serial_mirror_char D c ?u); Some (vga_update_cursor D s) }"
    by (simp only: vga_putchar_def vga_put_local_def Let_def of_nat_numeral)
  obtain d where d: "(case g_serial_hook ?u of None \<Rightarrow> Some ?u | Some Serial_mirror_char \<Rightarrow> serial_mirror_char D c ?u) = Some (?u\<lparr>dev := d\<rparr>)"
    "K d = K (dev ?u)"
    using serial_mirror_char_kept [OF D, of c ?u]
    by (cases "g_serial_hook ?u"; cases "the (g_serial_hook ?u)") (auto intro: that [of "dev ?u"] that)
  obtain d' where d': "vga_update_cursor D (?u\<lparr>dev := d\<rparr>) = ?u\<lparr>dev := d'\<rparr>" "K d' = K d"
    using vga_update_cursor_kept [OF D, of "?u\<lparr>dev := d\<rparr>"] by auto
  have "console_only K s (?u\<lparr>dev := d'\<rparr>)"
  proof (rule console_onlyI)
    show "?u\<lparr>dev := d'\<rparr> = s\<lparr>mem := m, dev := d', vga_row := r, vga_col := k, vga_color := vga_color s\<rparr>" by (simp add: u)
    show "K d' = K (dev s)" using d d' u by simp
    assume "vga_ok s"
    then have "vga_ok ?u" "screen_only s ?u" using vga_put_local_refines by blast+
    then show "vga_ok (?u\<lparr>dev := d'\<rparr>) \<and> (\<forall>a. a < VGA_BUFFER \<or> VGA_BUFFER + 4000 \<le> a \<longrightarrow> m a = mem s a)"
      using screen_only_fields(11) [of s ?u] u by (auto simp: vga_ok_def)
  qed
  then show "\<exists>s'. vga_putchar D c s = Some s' \<and> console_only K s s'" using run d d' by simp
qed

lemma draws_put_chars:
  assumes D: "console_dev D K"
  shows "draws K (vga_put_chars D cs)"
proof (induction cs)
  case Nil
  have "vga_put_chars D [] = Some" by (rule ext) simp
  then show ?case using draws_Some by simp
next
  case (Cons c cs)
  have "vga_put_chars D (c # cs) = (\<lambda>s. Option.bind (vga_putchar D c s) (vga_put_chars D cs))" by (rule ext) simp
  then show ?case using draws_bind [OF draws_putchar [OF D] Cons] by simp
qed

lemma draws_print [draws_intros]:
  assumes D: "console_dev D K"
  shows "draws K (vga_print D str)"
proof (cases str)
  case None
  then show ?thesis by (simp add: vga_print_def draws_def)
next
  case (Some cs)
  then show ?thesis using draws_put_chars [OF D] by (simp add: vga_print_chars draws_def)
qed

lemma draws_println [draws_intros]: "console_dev D K \<Longrightarrow> draws K (vga_println D str)"
  unfolding vga_println_def [abs_def] by (intro draws_intros)

lemma draws_print_dec [draws_intros]: "console_dev D K \<Longrightarrow> draws K (vga_print_dec D v)"
  by (simp only: vga_print_dec_chars draws_put_chars)

lemma draws_clear [draws_intros]:
  assumes D: "console_dev D K"
  shows "draws K (\<lambda>s :: ('d, 'z) vga_st_scheme. Some (vga_clear D s))"
  unfolding draws_def
proof
  fix s :: "('d, 'z) vga_st_scheme"
  let ?m = "fold (\<lambda>i. vga_set_cell i (blank (vga_color s))) [0..<CELLS] (mem s)"
  obtain d where d: "vga_clear D s = s\<lparr>mem := ?m, vga_row := 0, vga_col := 0, dev := d\<rparr>" "K d = K (dev s)"
    unfolding vga_clear_eq using vga_update_cursor_kept [OF D, of "s\<lparr>mem := ?m, vga_row := 0, vga_col := 0\<rparr>"] by auto
  have "?m a = mem s a" if "a < VGA_BUFFER \<or> VGA_BUFFER + 4000 \<le> a" for a
    using that by (intro fold_cells_frame vga_set_cell_frame) auto
  then have "console_only K s (vga_clear D s)"
    by (intro console_onlyI [where m = ?m and d = d and r = 0 and c = 0 and k = "vga_color s"]) (simp_all add: d vga_ok_def del: upt_rec_numeral)
  then show "\<exists>s'. Some (vga_clear D s) = Some s' \<and> console_only K s s'" by blast
qed

section \<open>Results that come from drawing\<close>

text \<open>The same at one state, for operations that read other tables on the way or count what they print.\<close>

definition drawn :: "('d \<Rightarrow> 'k) \<Rightarrow> ('d, 'z) vga_st_scheme \<Rightarrow> ('d, 'z) vga_st_scheme option \<Rightarrow> bool" where
  "drawn K s r \<longleftrightarrow> (\<exists>s'. r = Some s' \<and> console_only K s s')"

definition drawn_with :: "('d \<Rightarrow> 'k) \<Rightarrow> ('d, 'z) vga_st_scheme \<Rightarrow> ('n \<times> ('d, 'z) vga_st_scheme) option \<Rightarrow> bool" where
  "drawn_with K s r \<longleftrightarrow> (\<exists>n s'. r = Some (n, s') \<and> console_only K s s')"

named_theorems drawn_intros \<open>results that come from drawing\<close>

lemma drawn_draws: "draws K f \<Longrightarrow> drawn K s (f s)"
  by (simp add: drawn_def draws_def)

lemma draws_drawn: "(\<And>s. drawn K s (f s)) \<Longrightarrow> draws K f"
  by (simp add: drawn_def draws_def)

lemma drawn_bind [drawn_intros]:
  "drawn K s m \<Longrightarrow> (\<And>t. drawn K t (g t)) \<Longrightarrow> drawn K s (Option.bind m g)"
  unfolding drawn_def by (metis bind.bind_lunit console_only_trans)

lemma drawn_bind_with [drawn_intros]:
  "drawn K s m \<Longrightarrow> (\<And>t. drawn_with K t (g t)) \<Longrightarrow> drawn_with K s (Option.bind m g)"
  unfolding drawn_def drawn_with_def by (metis bind.bind_lunit console_only_trans)

lemma drawn_count [drawn_intros]:
  "drawn_with K s m \<Longrightarrow> (\<And>n t. drawn K t (g n t)) \<Longrightarrow> drawn K s (Option.bind m (\<lambda>(n, t). g n t))"
  unfolding drawn_def drawn_with_def by (metis bind.bind_lunit case_prod_conv console_only_trans)

lemma drawn_if [drawn_intros]: "(b \<Longrightarrow> drawn K s m) \<Longrightarrow> (\<not> b \<Longrightarrow> drawn K s m') \<Longrightarrow> drawn K s (if b then m else m')"
  by simp

lemma drawn_if_with [drawn_intros]: "(b \<Longrightarrow> drawn_with K s m) \<Longrightarrow> (\<not> b \<Longrightarrow> drawn_with K s m') \<Longrightarrow> drawn_with K s (if b then m else m')"
  by simp

lemma drawn_Some [drawn_intros]: "drawn K s (Some s)" "drawn_with K s (Some (n, s))"
  by (simp_all add: drawn_def drawn_with_def)

lemmas drawn_prims [drawn_intros] =
  drawn_draws [OF draws_set_color] drawn_draws [OF draws_putchar] drawn_draws [OF draws_print] drawn_draws [OF draws_println]
  drawn_draws [OF draws_print_dec] drawn_draws [OF draws_clear]

text \<open>The emulated UART satisfies the hypothesis, with nothing else to keep.\<close>

lemma uart_emu_console: "console_dev uart_emu (\<lambda>_. ())"
  by (simp add: console_dev_def uart_emu_live)

end
