(* ===== verification/Mirror.thy ===== *)
theory Mirror
  imports Fs Console
begin

unbundle bit_operations_syntax

text \<open>
  \<^verbatim>\<open>kernel/mirror.c\<close>: four snapshot slots with statistics of the running system and an XOR checksum, of
  which slot 0 is the live one. Restoring a snapshot checks it, resets the environment registry and
  redraws the banner of \<^verbatim>\<open>kernel/menu.c\<close>. An operation that walks the heap or prints is in the option type,
  since a damaged heap list or a dead UART makes it spin.
\<close>

section \<open>State\<close>

abbreviation MIRROR_SLOTS :: nat where "MIRROR_SLOTS \<equiv> 4"
abbreviation MIRROR_LABEL_LEN :: nat where "MIRROR_LABEL_LEN \<equiv> 20"
abbreviation MIRROR_FLAG_ALL :: u32 where "MIRROR_FLAG_ALL \<equiv> 0x0F"
abbreviation LIVE_SLOT :: nat where "LIVE_SLOT \<equiv> 0"

record mirror_snapshot_t =
  m_label :: string
  m_timestamp :: u32
  m_flags :: u32
  m_mem_used :: u32
  m_mem_free :: u32
  m_proc_count :: u32
  m_plugin_count :: u32
  m_event_pending :: u32
  m_checksum :: u32
  m_valid :: bool

record 'd mirror_st = "'d fs_st" +
  snapshots :: "mirror_snapshot_t list"
  sync_count :: u32

section \<open>The banner\<close>

definition draw_line :: "'d io_dev \<Rightarrow> ('d, 'z) vga_st_scheme \<Rightarrow> ('d, 'z) vga_st_scheme option" where
  "draw_line D s = vga_println D (Some ''------------------------------------------------------------'') s"

definition menu_draw_banner :: "'d io_dev \<Rightarrow> ('d, 'z) vga_st_scheme \<Rightarrow> ('d, 'z) vga_st_scheme option" where
  "menu_draw_banner D s =
     do { s \<leftarrow> Some (vga_set_color VGA_COLOR_CYAN VGA_COLOR_BLACK s);
          s \<leftarrow> draw_line D s;
          s \<leftarrow> vga_println D (Some ''       AI AURA OS  v1.0.0   --  Aura Kernel'') s;
          s \<leftarrow> vga_println D (Some ''           Autonomous Intelligence Platform'') s;
          s \<leftarrow> draw_line D s;
          Some (vga_set_color VGA_COLOR_LIGHT_GREEN VGA_COLOR_BLACK s) }"

section \<open>Operations\<close>

definition set_snapshot :: "nat \<Rightarrow> (mirror_snapshot_t \<Rightarrow> mirror_snapshot_t) \<Rightarrow> ('d, 'z) mirror_st_scheme \<Rightarrow> ('d, 'z) mirror_st_scheme" where
  "set_snapshot i f s = s\<lparr>snapshots := (snapshots s)[i := f (snapshots s ! i)]\<rparr>"

definition snapshot_checksum :: "mirror_snapshot_t \<Rightarrow> u32" where
  "snapshot_checksum sn =
     (let csum = fold (\<lambda>i csum. csum XOR ucast (byte_of (m_label sn ! i))) [0..<MIRROR_LABEL_LEN] 0;
          csum = csum XOR m_timestamp sn;
          csum = csum XOR m_flags sn;
          csum = csum XOR m_mem_used sn;
          csum = csum XOR m_mem_free sn;
          csum = csum XOR m_proc_count sn;
          csum = csum XOR m_plugin_count sn
      in csum XOR m_event_pending sn)"

definition mirror_init :: "('d, 'z) mirror_st_scheme \<Rightarrow> ('d, 'z) mirror_st_scheme" where
  "mirror_init s = (fold (\<lambda>i. set_snapshot i (\<lambda>n. n\<lparr>m_valid := False\<rparr>)) [0..<MIRROR_SLOTS] s)\<lparr>sync_count := 0\<rparr>"

text \<open>The label is written after the checksum has been taken, as in the code.\<close>

definition mirror_sync :: "('d, 'z) mirror_st_scheme \<Rightarrow> ('d, 'z) mirror_st_scheme option" where
  "mirror_sync s =
     do { (used, free_bytes) \<leftarrow> memory_stats s;
          let s = set_snapshot LIVE_SLOT (\<lambda>n. n\<lparr>m_timestamp := g_tick_count s\<rparr>) s;
          let s = set_snapshot LIVE_SLOT (\<lambda>n. n\<lparr>m_flags := MIRROR_FLAG_ALL\<rparr>) s;
          let s = set_snapshot LIVE_SLOT (\<lambda>n. n\<lparr>m_mem_used := used\<rparr>) s;
          let s = set_snapshot LIVE_SLOT (\<lambda>n. n\<lparr>m_mem_free := free_bytes\<rparr>) s;
          let s = set_snapshot LIVE_SLOT (\<lambda>n. n\<lparr>m_proc_count := word_of_int (scheduler_task_count s)\<rparr>) s;
          let s = set_snapshot LIVE_SLOT (\<lambda>n. n\<lparr>m_plugin_count := word_of_int (plugin_count s)\<rparr>) s;
          let s = set_snapshot LIVE_SLOT (\<lambda>n. n\<lparr>m_event_pending := eventbus_pending s\<rparr>) s;
          let s = set_snapshot LIVE_SLOT (\<lambda>n. n\<lparr>m_checksum := snapshot_checksum n\<rparr>) s;
          let s = set_snapshot LIVE_SLOT (\<lambda>n. n\<lparr>m_valid := True\<rparr>) s;
          let s = set_snapshot LIVE_SLOT (\<lambda>n. n\<lparr>m_label := set_name (m_label n) ''LIVE'' MIRROR_LABEL_LEN\<rparr>) s;
          let s = s\<lparr>sync_count := sync_count s + 1\<rparr>;
          Some (if sync_count s AND 0xFF = 0 then snd (eventbus_publish TOPIC_MIRROR_SYNC (sync_count s) s) else s) }"

text \<open>The label is a pointer; every caller passes a string.\<close>

definition mirror_capture ::
    "u8 \<Rightarrow> string \<Rightarrow> u32 \<Rightarrow> ('d, 'z) mirror_st_scheme \<Rightarrow> (aura_status_t \<times> ('d, 'z) mirror_st_scheme) option" where
  "mirror_capture slot label flags s =
     (if of_nat MIRROR_SLOTS \<le> slot then Some (AURA_ERR, s)
      else do { s \<leftarrow> mirror_sync s;
                let s = set_snapshot (unat slot) (\<lambda>_. snapshots s ! LIVE_SLOT) s;
                let s = set_snapshot (unat slot) (\<lambda>n. n\<lparr>m_flags := flags\<rparr>) s;
                let s = set_snapshot (unat slot) (\<lambda>n. n\<lparr>m_label := set_name (m_label n) label MIRROR_LABEL_LEN\<rparr>) s;
                let s = set_snapshot (unat slot) (\<lambda>n. n\<lparr>m_checksum := snapshot_checksum n\<rparr>) s;
                let s = set_snapshot (unat slot) (\<lambda>n. n\<lparr>m_valid := True\<rparr>) s;
                Some (AURA_OK, s) })"

definition mirror_verify :: "u8 \<Rightarrow> ('d, 'z) mirror_st_scheme \<Rightarrow> aura_status_t" where
  "mirror_verify slot s =
     (if of_nat MIRROR_SLOTS \<le> slot \<or> \<not> m_valid (snapshots s ! unat slot) then AURA_ERR
      else let expected = snapshot_checksum (snapshots s ! unat slot)
           in if m_checksum (snapshots s ! unat slot) = expected then AURA_OK else AURA_ERR)"

definition mirror_restore ::
    "'d io_dev \<Rightarrow> u8 \<Rightarrow> ('d, 'z) mirror_st_scheme \<Rightarrow> (aura_status_t \<times> ('d, 'z) mirror_st_scheme) option" where
  "mirror_restore D slot s =
     (if of_nat MIRROR_SLOTS \<le> slot \<or> \<not> m_valid (snapshots s ! unat slot) then Some (AURA_ERR, s)
      else if mirror_verify slot s \<noteq> AURA_OK
        then do { s \<leftarrow> vga_println D (Some ''[Mirror] Restore aborted: checksum mismatch!'') s;
                  Some (AURA_ERR, s) }
      else do { let s = snd (eventbus_publish TOPIC_MIRROR_SYNC (ucast slot OR 0x80000000) s);
                s \<leftarrow> vga_print D (Some ''[Mirror] Restore from slot '') s;
                s \<leftarrow> vga_print_dec D (ucast slot) s;
                s \<leftarrow> vga_print D (Some '': '') s;
                s \<leftarrow> vga_println D (Some (m_label (snapshots s ! unat slot))) s;
                let s = env_init s;
                s \<leftarrow> Some (vga_set_color VGA_COLOR_LIGHT_GREEN VGA_COLOR_BLACK s);
                s \<leftarrow> Some (vga_clear D s);
                s \<leftarrow> menu_draw_banner D s;
                s \<leftarrow> vga_println D (Some ''[Mirror] System state restored. Resuming kernel loop.'') s;
                Some (AURA_OK, s) })"

text \<open>Printing leaves the slots alone, so the dump prints the snapshot it starts with.\<close>

definition mirror_dump :: "'d io_dev \<Rightarrow> u8 \<Rightarrow> ('d, 'z) mirror_st_scheme \<Rightarrow> ('d, 'z) mirror_st_scheme option" where
  "mirror_dump D slot s =
     (if of_nat MIRROR_SLOTS \<le> slot then Some s
      else if \<not> m_valid (snapshots s ! unat slot)
        then do { s \<leftarrow> vga_print D (Some ''[Mirror] Slot '') s;
                  s \<leftarrow> vga_print_dec D (ucast slot) s;
                  vga_println D (Some '' is empty.'') s }
      else let ok = mirror_verify slot s = AURA_OK; sn = snapshots s ! unat slot
           in do { s \<leftarrow> vga_print D (Some ''[Mirror] Slot '') s;
                   s \<leftarrow> vga_print_dec D (ucast slot) s;
                   s \<leftarrow> vga_print D (Some '' label='') s;
                   s \<leftarrow> vga_print D (Some (m_label sn)) s;
                   s \<leftarrow> vga_print D (Some (if ok then ''  [OK]'' else ''  [BAD CHECKSUM]'')) s;
                   s \<leftarrow> vga_print D (Some (LF # ''  tick='')) s;
                   s \<leftarrow> vga_print_dec D (m_timestamp sn) s;
                   s \<leftarrow> vga_print D (Some ''  mem_used='') s;
                   s \<leftarrow> vga_print_dec D (m_mem_used sn) s;
                   s \<leftarrow> vga_print D (Some ''  mem_free='') s;
                   s \<leftarrow> vga_print_dec D (m_mem_free sn) s;
                   s \<leftarrow> vga_print D (Some ''  plugins='') s;
                   s \<leftarrow> vga_print_dec D (m_plugin_count sn) s;
                   s \<leftarrow> vga_print D (Some ''  events='') s;
                   s \<leftarrow> vga_print_dec D (m_event_pending sn) s;
                   vga_putchar D LF s })"

primrec mirror_dump_loop :: "'d io_dev \<Rightarrow> nat list \<Rightarrow> ('d, 'z) mirror_st_scheme \<Rightarrow> ('d, 'z) mirror_st_scheme option" where
  "mirror_dump_loop D [] s = Some s"
| "mirror_dump_loop D (i # is) s = do { s \<leftarrow> mirror_dump D (of_nat i) s; mirror_dump_loop D is s }"

definition mirror_dump_all :: "'d io_dev \<Rightarrow> ('d, 'z) mirror_st_scheme \<Rightarrow> ('d, 'z) mirror_st_scheme option" where
  "mirror_dump_all D s = mirror_dump_loop D [0..<MIRROR_SLOTS] s"

section \<open>The checksum\<close>

text \<open>\<open>x\<close> can be taken out of a chain of XORs.\<close>

lemma xor_left_cancel [simp]: "(a :: u32) XOR x = a XOR y \<longleftrightarrow> x = y"
  by (metis xor.assoc xor_self_eq xor.left_neutral)

lemma xor_right_cancel [simp]: "(x :: u32) XOR a = y XOR a \<longleftrightarrow> x = y"
  by (simp add: xor.commute [of _ a])

lemma xor_absorb [simp]: "(x :: u32) = c XOR x \<longleftrightarrow> c = 0"
  using xor_right_cancel [of 0 x c] by auto

lemma fold_xor_start: "fold (\<lambda>i c. c XOR g i) xs (a XOR b) = fold (\<lambda>i c. c XOR g i) xs a XOR (b :: u32)"
proof (induction xs arbitrary: a)
  case (Cons x xs)
  have "(a XOR b) XOR g x = (a XOR g x) XOR b" by (simp add: ac_simps)
  then show ?case using Cons [of "a XOR g x"] by simp
qed simp

lemma fold_xor_update:
  assumes "distinct xs" "i \<in> set xs" "\<And>j. j \<noteq> i \<Longrightarrow> g' j = g j"
  shows "fold (\<lambda>i c. c XOR g' i) xs a = fold (\<lambda>i c. c XOR g i) xs a XOR (g i XOR g' i :: u32)"
  using assms(1,2)
proof (induction xs arbitrary: a)
  case (Cons x xs)
  show ?case
  proof (cases "x = i")
    case True
    then have "\<forall>j \<in> set xs. g' j = g j" using Cons.prems(1) assms(3) by (metis distinct.simps(2))
    then have same: "fold (\<lambda>i c. c XOR g' i) xs b = fold (\<lambda>i c. c XOR g i) xs b" for b by (intro fold_cong) auto
    have "a XOR g' i = (a XOR g i) XOR (g i XOR g' i)" by (metis xor.assoc xor_self_eq xor.right_neutral)
    then show ?thesis unfolding fold_Cons comp_apply True same by (simp only: fold_xor_start)
  next
    case False
    then show ?thesis using Cons assms(3) [of x] by simp
  qed
qed simp

definition label_sum :: "string \<Rightarrow> u32" where
  "label_sum l = fold (\<lambda>i csum. csum XOR ucast (byte_of (l ! i))) [0..<20] 0"

lemma snapshot_checksum_eq:
  "snapshot_checksum sn = label_sum (m_label sn) XOR m_timestamp sn XOR m_flags sn XOR m_mem_used sn XOR m_mem_free sn
     XOR m_proc_count sn XOR m_plugin_count sn XOR m_event_pending sn"
  by (simp only: snapshot_checksum_def label_sum_def Let_def xor.assoc)

lemma unat_ucast_byte: "unat (ucast (w :: u8) :: u32) = unat w"
  using unsigned_less [of w, where ?'a = nat] by (simp add: unsigned_ucast_eq take_bit_nat_eq_self)

lemma ucast_byte_inj: "(ucast (byte_of c) :: u32) = ucast (byte_of d) \<longleftrightarrow> c = d"
proof
  assume "(ucast (byte_of c) :: u32) = ucast (byte_of d)"
  then have "unat (ucast (byte_of c) :: u32) = unat (ucast (byte_of d) :: u32)" by simp
  then show "c = d" by (simp add: unat_ucast_byte flip: word_unat_eq_iff)
qed simp

lemma label_sum_update:
  assumes "i < 20" "length l = 20" "c \<noteq> l ! i"
  shows "label_sum (l[i := c]) \<noteq> label_sum l"
proof -
  have "label_sum (l[i := c]) = label_sum l XOR (ucast (byte_of (l ! i)) XOR ucast (byte_of (l[i := c] ! i)))"
    unfolding label_sum_def using assms by (intro fold_xor_update) auto
  moreover have "ucast (byte_of (l ! i)) XOR ucast (byte_of (l[i := c] ! i)) \<noteq> (0 :: u32)"
    using assms ucast_byte_inj [of "l ! i" c] xor_right_cancel [of "ucast (byte_of (l ! i))" "ucast (byte_of c)" "ucast (byte_of c)"] by simp
  ultimately show ?thesis by (metis xor.right_neutral xor_left_cancel)
qed

section \<open>Synchronising and capturing\<close>

definition snap_inv :: "('d, 'z) mirror_st_scheme \<Rightarrow> bool" where
  "snap_inv s \<longleftrightarrow> length (snapshots s) = 4 \<and> (\<forall>sn \<in> set (snapshots s). length (m_label sn) = 20)"

text \<open>The statistics of state \<open>s\<close> in a snapshot, with a label, flags and a checksum.\<close>

definition stats :: "('d, 'z) mirror_st_scheme \<Rightarrow> u32 \<times> u32 \<Rightarrow> string \<Rightarrow> u32 \<Rightarrow> u32 \<Rightarrow> mirror_snapshot_t" where
  "stats s uf l fl cs = \<lparr>m_label = l, m_timestamp = g_tick_count s, m_flags = fl, m_mem_used = fst uf, m_mem_free = snd uf,
     m_proc_count = word_of_int (scheduler_task_count s), m_plugin_count = word_of_int (plugin_count s),
     m_event_pending = eventbus_pending s, m_checksum = cs, m_valid = True\<rparr>"

lemma set_snapshot_fields [simp]:
  "snapshots (set_snapshot i f s) = (snapshots s)[i := f (snapshots s ! i)]"
  "sync_count (set_snapshot i f s) = sync_count s" "g_tick_count (set_snapshot i f s) = g_tick_count s"
  "scheduler_task_count (set_snapshot i f s) = scheduler_task_count s" "plugin_count (set_snapshot i f s) = plugin_count s"
  "eventbus_pending (set_snapshot i f s) = eventbus_pending s" "mem (set_snapshot i f s) = mem s"
  "heap_head (set_snapshot i f s) = heap_head s"
  by (simp_all add: set_snapshot_def scheduler_task_count_def plugin_count_def eventbus_pending_def)

lemma set_snapshot_twice [simp]:
  "set_snapshot i f (set_snapshot i g s) = set_snapshot i (\<lambda>n. f (g n)) s"
  by (cases "i < length (snapshots s)") (simp_all add: set_snapshot_def list_update_beyond)

lemma set_snapshot_const: "set_snapshot i f s = set_snapshot i (\<lambda>_. f (snapshots s ! i)) s"
  by (simp add: set_snapshot_def)

lemma publish_mirror_fields [simp]:
  "snapshots (snd (eventbus_publish t x s)) = snapshots s"
  "mem (snd (eventbus_publish t x s)) = mem s" "heap_head (snd (eventbus_publish t x s)) = heap_head s"
  "g_tick_count (snd (eventbus_publish t x s)) = g_tick_count s"
  by (simp_all add: eventbus_publish_def)

lemma snapshot_reset:
  "n\<lparr>m_timestamp := t, m_flags := fl, m_mem_used := u, m_mem_free := f, m_proc_count := p, m_plugin_count := q,
     m_event_pending := e, m_checksum := c, m_valid := True, m_label := l\<rparr> =
   \<lparr>m_label = l, m_timestamp = t, m_flags = fl, m_mem_used = u, m_mem_free = f, m_proc_count = p, m_plugin_count = q,
     m_event_pending = e, m_checksum = c, m_valid = True\<rparr>"
  by (cases n) simp

text \<open>A change of the snapshots, followed perhaps by an event.\<close>

definition synced :: "mirror_snapshot_t list \<Rightarrow> ('d, 'z) mirror_st_scheme \<Rightarrow> ('d, 'z) mirror_st_scheme \<Rightarrow> bool" where
  "synced sn s s' \<longleftrightarrow> (\<exists>n t x. s' = s\<lparr>snapshots := sn, sync_count := n\<rparr> \<or> s' = snd (eventbus_publish t x (s\<lparr>snapshots := sn, sync_count := n\<rparr>)))"

lemma mirror_sync_run:
  assumes inv: "snap_inv s" and st: "memory_stats s = Some uf"
  defines "l \<equiv> m_label (snapshots s ! 0)"
  shows "\<exists>s'. mirror_sync s = Some s' \<and>
    synced ((snapshots s)[0 := stats s uf (set_name l ''LIVE'' 20) 0x0F (snapshot_checksum (stats s uf l 0x0F 0))]) s s'"
proof -
  obtain us fr where uf: "uf = (us, fr)" by fastforce
  have len: "0 < length (snapshots s)" using inv by (simp add: snap_inv_def)
  let ?L = "stats s uf (set_name l ''LIVE'' 20) 0x0F (snapshot_checksum (stats s uf l 0x0F 0))"
  let ?u = "(set_snapshot 0 (\<lambda>_. ?L) s)\<lparr>sync_count := sync_count s + 1\<rparr>"
  obtain f where run: "mirror_sync s = (let u = (set_snapshot 0 f s)\<lparr>sync_count := sync_count s + 1\<rparr> in
      Some (if sync_count u AND 0xFF = 0 then snd (eventbus_publish TOPIC_MIRROR_SYNC (sync_count u) u) else u))"
    and f: "\<And>n. f n = stats s uf (set_name (m_label n) ''LIVE'' 20) 0x0F (snapshot_checksum (stats s uf (m_label n) 0x0F 0))"
  proof
    show "mirror_sync s = (let u = (set_snapshot 0 (\<lambda>n. stats s uf (set_name (m_label n) ''LIVE'' 20) 0x0F (snapshot_checksum (stats s uf (m_label n) 0x0F 0))) s)
        \<lparr>sync_count := sync_count s + 1\<rparr> in
      Some (if sync_count u AND 0xFF = 0 then snd (eventbus_publish TOPIC_MIRROR_SYNC (sync_count u) u) else u))"
      unfolding mirror_sync_def st uf by (simp add: Let_def stats_def snapshot_checksum_eq snapshot_reset)
  qed (rule refl)
  have "set_snapshot 0 f s = s\<lparr>snapshots := (snapshots s)[0 := ?L]\<rparr>" using set_snapshot_const [of 0 f s] by (simp add: f l_def set_snapshot_def)
  then show ?thesis unfolding run Let_def synced_def by auto
qed

lemma synced_fields:
  assumes "synced sn s s'"
  shows "snapshots s' = sn" "mem s' = mem s" "heap_head s' = heap_head s" "g_tick_count s' = g_tick_count s"
  using assms by (auto simp: synced_def)

lemma mirror_sync_effect:
  assumes inv: "snap_inv s" and st: "memory_stats s = Some uf"
  defines "l \<equiv> m_label (snapshots s ! 0)"
  shows "\<exists>s'. mirror_sync s = Some s' \<and> mem s' = mem s \<and> heap_head s' = heap_head s \<and> g_tick_count s' = g_tick_count s \<and>
    snapshots s' = (snapshots s)[0 := stats s uf (set_name l ''LIVE'' 20) 0x0F (snapshot_checksum (stats s uf l 0x0F 0))]"
  using mirror_sync_run [OF assms(1,2)] synced_fields unfolding l_def by blast

lemma stats_sum [simp]:
  "snapshot_checksum (stats s uf l fl cs) = label_sum l XOR g_tick_count s XOR fl XOR fst uf XOR snd uf XOR
     word_of_int (scheduler_task_count s) XOR word_of_int (plugin_count s) XOR eventbus_pending s"
  by (simp add: snapshot_checksum_eq stats_def)

lemma stats_fields [simp]: "m_label (stats s uf l fl cs) = l" "m_checksum (stats s uf l fl cs) = cs" "m_valid (stats s uf l fl cs)"
  by (simp_all add: stats_def)

lemma slot_bound: "4 \<le> (slot :: u8) \<longleftrightarrow> \<not> unat slot < 4"
  by (simp add: word_le_nat_alt not_less)

lemma mirror_capture_effect:
  assumes inv: "snap_inv s" and st: "memory_stats s = Some uf" and slot: "unat slot < 4"
  shows "\<exists>s' l L. mirror_capture slot label fl s = Some (AURA_OK, s') \<and> length l = 20 \<and> cstr l = take 19 (cstr label) \<and> length (m_label L) = 20 \<and>
    snapshots s' = (snapshots s)[0 := L, unat slot := stats s uf l fl (snapshot_checksum (stats s uf l fl 0))] \<and>
    (\<exists>t sn. synced ((snapshots s)[0 := L]) s t \<and> s' = t\<lparr>snapshots := sn\<rparr>)"
proof -
  let ?L = "stats s uf (set_name (m_label (snapshots s ! 0)) ''LIVE'' 20) 0x0F (snapshot_checksum (stats s uf (m_label (snapshots s ! 0)) 0x0F 0))"
  obtain t where t: "mirror_sync s = Some t" "snapshots t = (snapshots s)[0 := ?L]" "synced ((snapshots s)[0 := ?L]) s t"
    using mirror_sync_run [OF inv st] synced_fields(1) by blast
  have len: "length (snapshots s) = 4" "length (m_label ?L) = 20" using inv by (simp_all add: snap_inv_def)
  let ?l = "set_name (m_label ?L) label 20"
  have "mirror_capture slot label fl s = Some (AURA_OK, set_snapshot (unat slot) (\<lambda>_. stats s uf ?l fl (snapshot_checksum (stats s uf ?l fl 0))) t)"
    using slot t len by (simp add: mirror_capture_def slot_bound Let_def stats_def snapshot_checksum_eq)
  moreover have "\<exists>sn. set_snapshot (unat slot) (\<lambda>_. stats s uf ?l fl (snapshot_checksum (stats s uf ?l fl 0))) t = t\<lparr>snapshots := sn\<rparr>"
    unfolding set_snapshot_def by blast
  moreover have "snapshots (set_snapshot (unat slot) (\<lambda>_. stats s uf ?l fl (snapshot_checksum (stats s uf ?l fl 0))) t) =
      (snapshots s)[0 := ?L, unat slot := stats s uf ?l fl (snapshot_checksum (stats s uf ?l fl 0))]" using t(2) by simp
  moreover have "length ?l = 20" "cstr ?l = take 19 (cstr label)" using len(2) by (simp_all add: cstr_set_name)
  ultimately show ?thesis using len(2) t(3) by blast
qed

section \<open>Properties\<close>

definition blank_snapshot :: mirror_snapshot_t where
  "blank_snapshot = \<lparr>m_label = replicate 20 NUL, m_timestamp = 0, m_flags = 0, m_mem_used = 0, m_mem_free = 0, m_proc_count = 0,
     m_plugin_count = 0, m_event_pending = 0, m_checksum = 0, m_valid = False\<rparr>"

definition blank_mirror :: "'d \<Rightarrow> 'd mirror_st" where
  "blank_mirror d = blank_sched d (fat_st_ext (replicate 512 0) (replicate 4608 0) True
     (env_st_ext (replicate 16 blank_var) (replicate 512 0) (replicate 512 0) (fs_st_ext (replicate 32 blank_node)
       (mirror_st_ext (replicate 4 blank_snapshot) 0 ()))))"

lemma memory_init_more: "heap_st.more (memory_init s) = heap_st.more s" "dev (memory_init s) = dev s" "g_tick_count (memory_init s) = g_tick_count s"
    "snapshots (memory_init t) = snapshots t" "env_table (memory_init t) = env_table t" "vga_row (memory_init t) = vga_row t" "vga_col (memory_init t) = vga_col t"
  by (simp_all add: memory_init_def memset_k_def Let_def)

lemma blank_mirror_fields: "snapshots (blank_mirror d) = replicate 4 blank_snapshot" "dev (blank_mirror d) = d"
    "env_table (blank_mirror d) = replicate 16 blank_var" "vga_row (blank_mirror d) = 0" "vga_col (blank_mirror d) = 0"
  by (simp_all only: blank_mirror_def blank_sched_def machine.simps heap_st.simps vga_st.simps mirror_st.simps env_st.simps fs_st.simps)

lemma blank_mirror_inv: "snap_inv (memory_init (blank_mirror d))"
  by (simp add: snap_inv_def memory_init_more blank_mirror_fields blank_snapshot_def)

text \<open>C35: capturing into one of the four slots, on a machine with an intact heap list, succeeds: the slot then holds the
  current tick, heap, task, plugin and event counts under the given flags and label (cut at 19
  characters) and verifies, and apart from the live slot no other slot changes. Any other slot number
  is refused with no effect.\<close>

theorem mirror_capture_verify:
  assumes inv: "snap_inv s" and heap: "heap_rep s bs"
  shows "if unat slot < 4
    then \<exists>s'. mirror_capture slot label fl s = Some (AURA_OK, s') \<and> snap_inv s' \<and> mirror_verify slot s' = AURA_OK \<and>
      (\<forall>i < 4. i \<noteq> unat slot \<and> i \<noteq> 0 \<longrightarrow> snapshots s' ! i = snapshots s ! i) \<and>
      (let sn = snapshots s' ! unat slot in
        cstr (m_label sn) = take 19 (cstr label) \<and> m_timestamp sn = g_tick_count s \<and> m_flags sn = fl \<and>
        m_mem_used sn = of_nat (used_bytes bs) \<and> m_mem_free sn = of_nat (free_bytes bs) \<and>
        m_proc_count sn = word_of_int (scheduler_task_count s) \<and> m_plugin_count sn = word_of_int (plugin_count s) \<and>
        m_event_pending sn = eventbus_pending s)
    else mirror_capture slot label fl s = Some (AURA_ERR, s)"
proof (cases "unat slot < 4")
  case True
  let ?uf = "(of_nat (used_bytes bs), of_nat (free_bytes bs)) :: u32 \<times> u32"
  obtain s' l L where s': "mirror_capture slot label fl s = Some (AURA_OK, s')" "length l = 20" "cstr l = take 19 (cstr label)"
      "length (m_label L) = 20" "snapshots s' = (snapshots s)[0 := L, unat slot := stats s ?uf l fl (snapshot_checksum (stats s ?uf l fl 0))]"
    using mirror_capture_effect [OF inv memory_stats_rep [OF heap] True] by blast
  let ?S = "stats s ?uf l fl (snapshot_checksum (stats s ?uf l fl 0))"
  have len: "length (snapshots s) = 4" "\<forall>sn \<in> set (snapshots s). length (m_label sn) = 20" using inv by (simp_all add: snap_inv_def)
  have at: "snapshots s' ! unat slot = ?S" using len True by (simp add: s'(5))
  have "snap_inv s'" unfolding snap_inv_def s'(5)
    using ball_list_update [OF ball_list_update [OF len(2) s'(4), of 0], of ?S "unat slot"] len(1) s'(2) by simp
  moreover have "mirror_verify slot s' = AURA_OK" using True by (simp add: mirror_verify_def slot_bound at)
  moreover have "\<forall>i < 4. i \<noteq> unat slot \<and> i \<noteq> 0 \<longrightarrow> snapshots s' ! i = snapshots s ! i" by (auto simp: s'(5))
  ultimately show ?thesis using s'(1,3) True by (simp add: at Let_def) (simp add: stats_def)
next
  case False
  then show ?thesis by (simp add: mirror_capture_def slot_bound)
qed

theorem mirror_capture_verify_witness:
  "\<exists>s'. mirror_capture 1 ''boot-snapshot'' 0x0F (memory_init (blank_mirror ())) = Some (AURA_OK, s') \<and> mirror_verify 1 s' = AURA_OK \<and>
     m_mem_free (snapshots s' ! 1) = of_nat (HEAP_SIZE - 20)"
proof -
  let ?s = "memory_init (blank_mirror ())"
  have h: "unat (1 :: u8) < 4" by simp
  show ?thesis
    using mirror_capture_verify [OF blank_mirror_inv memory_init_rep [of "blank_mirror ()"], of 1 "''boot-snapshot''" "0x0F"]
    unfolding if_P [OF h] by (auto simp: Let_def free_bytes_def)
qed

text \<open>A snapshot with exactly one word or one label character replaced by a different one.\<close>

definition one_change :: "mirror_snapshot_t \<Rightarrow> mirror_snapshot_t \<Rightarrow> bool" where
  "one_change a b \<longleftrightarrow>
     (\<exists>v. v \<noteq> m_timestamp a \<and> b = a\<lparr>m_timestamp := v\<rparr>) \<or> (\<exists>v. v \<noteq> m_flags a \<and> b = a\<lparr>m_flags := v\<rparr>) \<or>
     (\<exists>v. v \<noteq> m_mem_used a \<and> b = a\<lparr>m_mem_used := v\<rparr>) \<or> (\<exists>v. v \<noteq> m_mem_free a \<and> b = a\<lparr>m_mem_free := v\<rparr>) \<or>
     (\<exists>v. v \<noteq> m_proc_count a \<and> b = a\<lparr>m_proc_count := v\<rparr>) \<or> (\<exists>v. v \<noteq> m_plugin_count a \<and> b = a\<lparr>m_plugin_count := v\<rparr>) \<or>
     (\<exists>v. v \<noteq> m_event_pending a \<and> b = a\<lparr>m_event_pending := v\<rparr>) \<or> (\<exists>v. v \<noteq> m_checksum a \<and> b = a\<lparr>m_checksum := v\<rparr>) \<or>
     (\<exists>i c. i < 20 \<and> c \<noteq> m_label a ! i \<and> b = a\<lparr>m_label := (m_label a)[i := c]\<rparr>)"

lemma one_change_sum:
  assumes "one_change a b" "length (m_label a) = 20" "m_checksum a = snapshot_checksum a"
  shows "m_checksum b \<noteq> snapshot_checksum b"
  using assms(1) unfolding one_change_def
proof (elim disjE exE conjE)
  fix i c assume "i < 20" "c \<noteq> m_label a ! i" "b = a\<lparr>m_label := (m_label a)[i := c]\<rparr>"
  then show ?thesis using assms(2,3) label_sum_update [of i "m_label a" c] by (simp add: snapshot_checksum_eq)
qed (use assms(3) in \<open>simp_all add: snapshot_checksum_eq\<close>)

text \<open>C36: damage to a single field is noticed. When a snapshot verifies and one of its words, its checksum or one character of its label
  is replaced by a different value, it no longer verifies, and a restore from it is refused without touching
  anything but the screen.\<close>

theorem mirror_detects_change:
  assumes inv: "snap_inv s" and ok: "mirror_verify slot s = AURA_OK" and ch: "one_change (snapshots s ! unat slot) sn"
    and D: "console_dev D K"
  shows "mirror_verify slot (set_snapshot (unat slot) (\<lambda>_. sn) s) = AURA_ERR \<and>
    (\<exists>s'. mirror_restore D slot (set_snapshot (unat slot) (\<lambda>_. sn) s) = Some (AURA_ERR, s') \<and>
      console_only K (set_snapshot (unat slot) (\<lambda>_. sn) s) s')"
proof -
  let ?s = "set_snapshot (unat slot) (\<lambda>_. sn) s"
  have h: "unat slot < 4" "m_valid (snapshots s ! unat slot)" "m_checksum (snapshots s ! unat slot) = snapshot_checksum (snapshots s ! unat slot)"
    using ok by (auto simp: mirror_verify_def slot_bound Let_def split: if_splits)
  have l: "length (m_label (snapshots s ! unat slot)) = 20" "length (snapshots s) = 4" using inv h(1) by (simp_all add: snap_inv_def)
  have v: "m_valid sn" using ch h(2) by (auto simp: one_change_def)
  have at: "snapshots ?s ! unat slot = sn" using h(1) l(2) by simp
  have bad: "mirror_verify slot ?s = AURA_ERR"
    unfolding mirror_verify_def at Let_def using one_change_sum [OF ch l(1) h(3)] by simp
  have "mirror_restore D slot ?s = do { s \<leftarrow> vga_println D (Some ''[Mirror] Restore aborted: checksum mismatch!'') ?s; Some (AURA_ERR, s) }"
    unfolding mirror_restore_def at bad using h(1) v by (simp add: slot_bound)
  moreover obtain s' where "vga_println D (Some ''[Mirror] Restore aborted: checksum mismatch!'') ?s = Some s'" "console_only K ?s s'"
    using drawsD [OF draws_println [OF D]] by blast
  ultimately show ?thesis using bad by simp
qed

definition demo_mirror :: "uart_emu_st mirror_st" where
  "demo_mirror = (blank_mirror \<lparr>emu_dlab = False, emu_sent = [], emu_busy = 0\<rparr>)\<lparr>snapshots := replicate 4 (blank_snapshot\<lparr>m_valid := True\<rparr>)\<rparr>"

lemma label_sum_chars:
  assumes "length l = 20"
  shows "label_sum l = fold (\<lambda>c csum. csum XOR ucast (byte_of c)) l 0"
proof -
  have "map ((!) l) [0..<20] = l" using map_nth [of l] assms by simp
  moreover have "label_sum l = fold (\<lambda>c csum. csum XOR ucast (byte_of c)) (map ((!) l) [0..<20]) 0"
    by (simp only: label_sum_def fold_map comp_def)
  ultimately show ?thesis by simp
qed

lemma label_sum_pad: "fold (\<lambda>c csum. csum XOR ucast (byte_of c)) (replicate n NUL) a = (a :: u32)"
  by (induction n) (simp_all add: byte_of_def)

lemma label_sum_zero: "label_sum (replicate 20 NUL) = 0"
  by (simp only: label_sum_chars [OF length_replicate] label_sum_pad)

lemma demo_mirror_facts: "snapshots demo_mirror = replicate 4 (blank_snapshot\<lparr>m_valid := True\<rparr>)" "snap_inv demo_mirror"
    "unat slot < 4 \<Longrightarrow> mirror_verify slot demo_mirror = AURA_OK"
proof -
  show t: "snapshots demo_mirror = replicate 4 (blank_snapshot\<lparr>m_valid := True\<rparr>)" by (simp add: demo_mirror_def)
  show "snap_inv demo_mirror" by (simp add: snap_inv_def t blank_snapshot_def)
  have "snapshot_checksum (blank_snapshot\<lparr>m_valid := True\<rparr>) = 0" by (simp only: snapshot_checksum_eq) (simp add: blank_snapshot_def label_sum_zero)
  moreover have "m_checksum blank_snapshot = 0" by (simp add: blank_snapshot_def)
  ultimately show "unat slot < 4 \<Longrightarrow> mirror_verify slot demo_mirror = AURA_OK" by (simp add: mirror_verify_def t slot_bound)
qed

theorem mirror_detects_change_witness:
  "mirror_verify 2 demo_mirror = AURA_OK \<and>
   mirror_verify 2 (set_snapshot 2 (\<lambda>_. blank_snapshot\<lparr>m_valid := True, m_mem_used := 9\<rparr>) demo_mirror) = AURA_ERR"
proof -
  have u: "unat (2 :: u8) = 2" by simp
  have v: "mirror_verify 2 demo_mirror = AURA_OK" using demo_mirror_facts(3) [of 2] by simp
  have "one_change (snapshots demo_mirror ! unat (2 :: u8)) (blank_snapshot\<lparr>m_valid := True, m_mem_used := 9\<rparr>)"
    unfolding one_change_def demo_mirror_facts(1) by (simp add: blank_snapshot_def)
  then show ?thesis using mirror_detects_change [OF demo_mirror_facts(2) v _ uart_emu_console] v unfolding u by blast
qed

text \<open>The live slot holds a checksum taken before its label is written. After the first synchronisation of a zeroed
  live slot it does not verify; after the second one it does.\<close>

theorem mirror_live_checksum:
  assumes inv: "snap_inv s" and heap: "heap_rep s bs" and zero: "m_label (snapshots s ! 0) = replicate 20 NUL"
  shows "\<exists>s1 s2. mirror_sync s = Some s1 \<and> mirror_verify 0 s1 = AURA_ERR \<and> mirror_sync s1 = Some s2 \<and> mirror_verify 0 s2 = AURA_OK"
proof -
  let ?uf = "(of_nat (used_bytes bs), of_nat (free_bytes bs)) :: u32 \<times> u32"
  define l1 where "l1 = set_name (replicate 20 NUL) ''LIVE'' 20"
  have eq: "l1 = ''LIVE'' @ NUL # replicate 15 NUL" by (simp add: l1_def set_name_eq cstr_def)
  have l1: "label_sum l1 = 0x16" "set_name l1 ''LIVE'' 20 = l1" "length l1 = 20"
  proof -
    show "length l1 = 20" by (simp add: eq)
    moreover have "fold (\<lambda>c csum. csum XOR ucast (byte_of c)) l1 0 = fold (\<lambda>c csum. csum XOR ucast (byte_of c)) (replicate 15 NUL) (0x16 :: u32)"
      by (simp add: eq byte_of_def del: fold_replicate)
    ultimately show "label_sum l1 = 0x16" by (simp only: label_sum_chars label_sum_pad)
    show "set_name l1 ''LIVE'' 20 = l1" by (simp add: eq set_name_eq cstr_def)
  qed
  have len: "length (snapshots s) = 4" "\<forall>sn \<in> set (snapshots s). length (m_label sn) = 20" using inv by (simp_all add: snap_inv_def)
  let ?S = "\<lambda>s l0. stats s ?uf l1 0x0F (snapshot_checksum (stats s ?uf l0 0x0F 0))"
  obtain s1 where s1: "mirror_sync s = Some s1" "mem s1 = mem s" "heap_head s1 = heap_head s"
      "snapshots s1 = (snapshots s)[0 := ?S s (replicate 20 NUL)]"
    using mirror_sync_effect [OF inv memory_stats_rep [OF heap]] unfolding zero l1_def by blast
  have at1: "snapshots s1 ! 0 = ?S s (replicate 20 NUL)" using len by (simp add: s1(4))
  have h1: "heap_rep s1 bs" using heap s1(2,3) by (simp add: heap_rep_def)
  have i1: "snap_inv s1" unfolding snap_inv_def s1(4) using ball_list_update [OF len(2), of "?S s (replicate 20 NUL)" 0] len(1) l1(3) by simp
  have lab1: "m_label (snapshots s1 ! 0) = l1" by (simp only: at1 stats_fields)
  obtain s2 where s2: "mirror_sync s1 = Some s2" "snapshots s2 = (snapshots s1)[0 := ?S s1 l1]"
    using mirror_sync_effect [OF i1 memory_stats_rep [OF h1]] unfolding lab1 l1(2) by blast
  have at2: "snapshots s2 ! 0 = ?S s1 l1" using len by (simp add: s2(2) s1(4))
  have "mirror_verify 0 s1 = AURA_ERR" unfolding mirror_verify_def unsigned_0 at1 by (simp add: l1(1) label_sum_zero)
  moreover have "mirror_verify 0 s2 = AURA_OK" unfolding mirror_verify_def unsigned_0 at2 by simp
  ultimately show ?thesis using s1(1) s2(1) by blast
qed

theorem mirror_live_checksum_witness:
  "\<exists>s1. mirror_sync (memory_init (blank_mirror ())) = Some s1 \<and> mirror_verify 0 s1 = AURA_ERR"
proof -
  have "m_label (snapshots (memory_init (blank_mirror ())) ! 0) = replicate 20 NUL"
    by (simp add: memory_init_more blank_mirror_fields blank_snapshot_def)
  then show ?thesis using mirror_live_checksum [OF blank_mirror_inv memory_init_rep [of "blank_mirror ()"]] by blast
qed

text \<open>What drawing keeps of the state above the console.\<close>

lemma draws_mirror_fields:
  assumes "console_only K s s'"
  shows "snapshots s' = snapshots s" "sync_count s' = sync_count s" "env_table s' = env_table s" "fs_table s' = fs_table s"
    "pending s' = pending s" "plugin_table s' = plugin_table s" "task_table s' = task_table s"
  using assms by (auto simp: console_only_def pending_def)

lemma draws_draw_line [draws_intros]: "console_dev D K \<Longrightarrow> draws K (draw_line D)"
  unfolding draw_line_def [abs_def] by (intro draws_intros)

lemma draws_banner [draws_intros]: "console_dev D K \<Longrightarrow> draws K (menu_draw_banner D)"
  unfolding menu_draw_banner_def [abs_def] by (intro draws_intros)

lemma mirror_restore_refused:
  assumes D: "console_dev D K" and v: "mirror_verify slot s \<noteq> AURA_OK"
  shows "\<exists>s'. mirror_restore D slot s = Some (AURA_ERR, s') \<and> console_only K s s'"
proof (cases "of_nat MIRROR_SLOTS \<le> slot \<or> \<not> m_valid (snapshots s ! unat slot)")
  case True
  then have "mirror_restore D slot s = Some (AURA_ERR, s)" by (simp add: mirror_restore_def)
  then show ?thesis by simp
next
  case valid: False
  obtain s' where s': "vga_println D (Some ''[Mirror] Restore aborted: checksum mismatch!'') s = Some s'" "console_only K s s'"
    using drawsD [OF draws_println [OF D]] by blast
  have "mirror_restore D slot s = Some (AURA_ERR, s')"
    unfolding mirror_restore_def if_not_P [OF valid] using v s'(1) by simp
  then show ?thesis using s'(2) by blast
qed

text \<open>C34: restoring a slot that holds no verified snapshot is refused with ERR, and at most a message is drawn. Otherwise it succeeds: the
  environment registry is back at its boot defaults, the restore is announced on the event bus when there is
  room, and the snapshots, the file table, the plugin table and the task table are as before.\<close>

theorem mirror_restore_correct:
  fixes s :: "('d, 'z) mirror_st_scheme" and K :: "'d \<Rightarrow> 'k"
  assumes D: "console_dev D K" and env: "length (env_table s) = 16" "\<forall>v \<in> set (env_table s). var_ok v" and bus: "bus_inv s"
  shows "\<exists>r s'. mirror_restore D slot s = Some (r, s') \<and>
    (if mirror_verify slot s \<noteq> AURA_OK then r = AURA_ERR \<and> console_only K s s'
     else r = AURA_OK \<and> env_inv s' \<and> (\<forall>k. map_option cstr (env_get (Some k) s') = boot_env k) \<and>
       pending s' = (if length (pending s) < 64
         then pending s @ [\<lparr>e_topic = 3, e_data = ucast slot OR 0x80000000, e_timestamp = g_tick_count s\<rparr>] else pending s) \<and>
       snapshots s' = snapshots s \<and> fs_table s' = fs_table s \<and> plugin_table s' = plugin_table s \<and> task_table s' = task_table s)"
proof (cases "mirror_verify slot s = AURA_OK")
  case False
  then show ?thesis using mirror_restore_refused [OF D False] by auto
next
  case True
  then have valid: "\<not> (of_nat MIRROR_SLOTS \<le> slot \<or> \<not> m_valid (snapshots s ! unat slot))" by (auto simp: mirror_verify_def split: if_splits)
  let ?x = "ucast slot OR 0x80000000 :: u32"
  define s1 where "s1 = snd (eventbus_publish TOPIC_MIRROR_SYNC ?x s)"
  have p1: "pending s1 = (if length (pending s) < 64 then pending s @ [\<lparr>e_topic = 3, e_data = ?x, e_timestamp = g_tick_count s\<rparr>] else pending s)"
    using eventbus_publish_cases [OF bus, of 3 ?x] bus
    by (cases "length (pending s) < 64") (auto simp: s1_def bus_inv_def length_pending split: if_splits)
  have f1: "env_table s1 = env_table s" "snapshots s1 = snapshots s" "fs_table s1 = fs_table s" "plugin_table s1 = plugin_table s" "task_table s1 = task_table s"
    by (simp_all add: s1_def eventbus_publish_def)
  let ?head = "\<lambda>s :: ('d, 'z) mirror_st_scheme. do { s \<leftarrow> vga_print D (Some ''[Mirror] Restore from slot '') s; s \<leftarrow> vga_print_dec D (ucast slot) s; vga_print D (Some '': '') s }"
  have "draws K ?head" using D by (intro draws_intros)
  then obtain s2 where s2: "?head s1 = Some s2" "console_only K s1 s2" using drawsD by blast
  obtain s3 where s3: "vga_println D (Some (m_label (snapshots s2 ! unat slot))) s2 = Some s3" "console_only K s2 s3"
    using drawsD [OF draws_println [OF D]] by blast
  note c3 = console_only_trans [OF s2(2) s3(2)]
  obtain t where t: "env_init s3 = s3\<lparr>env_table := t\<rparr>" "env_inv (s3\<lparr>env_table := t\<rparr>)" "\<forall>k. env_map (s3\<lparr>env_table := t\<rparr>) k = boot_env k"
    using env_init_effect [of s3] env f1(1) draws_mirror_fields(3) [OF c3] by auto
  let ?tail = "\<lambda>s :: ('d, 'z) mirror_st_scheme. do { s \<leftarrow> Some (vga_set_color VGA_COLOR_LIGHT_GREEN VGA_COLOR_BLACK s); s \<leftarrow> Some (vga_clear D s);
     s \<leftarrow> menu_draw_banner D s; vga_println D (Some ''[Mirror] System state restored. Resuming kernel loop.'') s }"
  have "draws K ?tail" using D by (intro draws_intros)
  then obtain s4 where s4: "?tail (s3\<lparr>env_table := t\<rparr>) = Some s4" "console_only K (s3\<lparr>env_table := t\<rparr>) s4" using drawsD by blast
  have run: "mirror_restore D slot s = Some (AURA_OK, s4)"
    unfolding mirror_restore_def if_not_P [OF valid] using True s2(1) s3(1) s4(1)
    by (auto simp: bind_eq_Some_conv t(1) Let_def simp flip: s1_def)
  have e4: "env_table s4 = t" using draws_mirror_fields(3) [OF s4(2)] by simp
  have "env_inv s4" "\<forall>k. map_option cstr (env_get (Some k) s4) = boot_env k"
    using t(2,3) by (simp_all add: env_inv_def env_map_def env_get_def e4)
  then show ?thesis unfolding run using True p1 f1 draws_mirror_fields [OF c3] draws_mirror_fields [OF s4(2)] by (simp add: pending_def)
qed

lemma demo_mirror_rest: "length (env_table demo_mirror) = 16" "\<forall>v \<in> set (env_table demo_mirror). var_ok v" "bus_inv demo_mirror" "pending demo_mirror = []"
proof -
  have t: "env_table demo_mirror = replicate 16 blank_var" by (simp add: demo_mirror_def blank_mirror_fields)
  show "length (env_table demo_mirror) = 16" "\<forall>v \<in> set (env_table demo_mirror). var_ok v" by (simp_all add: t blank_var_def var_ok_def cstr_def)
  show "bus_inv demo_mirror" by (simp add: bus_inv_def demo_mirror_def blank_mirror_def blank_sched_def)
  show "pending demo_mirror = []" by (simp add: pending_def demo_mirror_def blank_mirror_def blank_sched_def)
qed

theorem mirror_restore_correct_witness:
  "\<exists>s'. mirror_restore uart_emu 1 demo_mirror = Some (AURA_OK, s') \<and> map_option cstr (env_get (Some ''OS_NAME'') s') = Some ''AI Aura OS''"
proof -
  have v: "\<not> mirror_verify 1 demo_mirror \<noteq> AURA_OK" using demo_mirror_facts(3) [of 1] by simp
  have b: "boot_env ''OS_NAME'' = Some ''AI Aura OS''" by (simp add: boot_env_def cstr_def)
  show ?thesis
    using mirror_restore_correct [OF uart_emu_console demo_mirror_rest(1,2,3), of 1] unfolding if_not_P [OF v]
    by (elim exE conjE) (metis b)
qed

end
