(* ===== verification/Modules.thy ===== *)
theory Modules
  imports Mirror
begin

unbundle bit_operations_syntax

text \<open>
  The plugins of the repository and what installs them: the plugin side of
  \<^verbatim>\<open>adapters/adapter_serial.c\<close>, the network adapter \<^verbatim>\<open>adapters/aura_net.c\<close>, the modules
  \<^verbatim>\<open>modules/aura_core.c\<close> and \<^verbatim>\<open>modules/mod_hello.c\<close>, and the module loader \<^verbatim>\<open>modules/loader.c\<close>.
  \<open>plugin_dispatch\<close> says what each function pointer of a descriptor does, and so instantiates the parameter
  of the plugin manager. The address of the adapter structure is chosen by the linker and stays a
  parameter.
\<close>

section \<open>State\<close>

abbreviation MODULE_NAME_LEN :: nat where "MODULE_NAME_LEN \<equiv> 24"

datatype adapter_fn = Serial_open | Serial_close | Serial_read | Serial_write | Serial_ioctl

record adapter_ops_t =
  o_open :: adapter_fn
  o_close :: adapter_fn
  o_read :: adapter_fn
  o_write :: adapter_fn
  o_ioctl :: adapter_fn

record adapter_t =
  a_name :: string
  a_flags :: u32
  a_ops :: adapter_ops_t
  a_open :: u8

datatype module_fn = Mod_hello_load | Mod_aura_core_load

record module_entry_t =
  me_name :: "string option"
  me_load :: "module_fn option"
  me_loaded :: bool

record 'd mod_st = "'d mirror_st" +
  core_tick_count :: u32
  hello_count :: u32
  serial_adapter :: adapter_t
  module_registry :: "module_entry_t list"

text \<open>A character array initialised with a string literal, and the initial values of the static variables.\<close>

definition c_array :: "nat \<Rightarrow> string \<Rightarrow> string" where
  "c_array n str = str @ replicate (n - length str) NUL"

definition serial_adapter_0 :: adapter_t where
  "serial_adapter_0 = \<lparr>a_name = c_array 24 ''serial-com1'', a_flags = 0,
     a_ops = \<lparr>o_open = Serial_open, o_close = Serial_close, o_read = Serial_read, o_write = Serial_write, o_ioctl = Serial_ioctl\<rparr>,
     a_open = 0\<rparr>"

definition module_registry_0 :: "module_entry_t list" where
  "module_registry_0 =
     [\<lparr>me_name = Some ''hello'', me_load = Some Mod_hello_load, me_loaded = False\<rparr>,
      \<lparr>me_name = Some ''aura_core'', me_load = Some Mod_aura_core_load, me_loaded = False\<rparr>,
      \<lparr>me_name = None, me_load = None, me_loaded = False\<rparr>]"

section \<open>The callbacks\<close>

text \<open>A callback that prints one line and succeeds.\<close>

definition say :: "'d io_dev \<Rightarrow> string \<Rightarrow> ('d, 'z) vga_st_scheme \<Rightarrow> (aura_status_t \<times> ('d, 'z) vga_st_scheme) option" where
  "say D msg s = do { s \<leftarrow> vga_println D (Some msg) s; Some (AURA_OK, s) }"

definition core_init :: "'d io_dev \<Rightarrow> ('d, 'z) mod_st_scheme \<Rightarrow> (aura_status_t \<times> ('d, 'z) mod_st_scheme) option" where
  "core_init D s = say D ''[CORE] Aura core module online.'' s"

definition core_tick :: "('d, 'z) mod_st_scheme \<Rightarrow> (aura_status_t \<times> ('d, 'z) mod_st_scheme) option" where
  "core_tick s =
     (let s = s\<lparr>core_tick_count := core_tick_count s + 1\<rparr>;
          s = (if core_tick_count s mod 1000 = 0
               then snd (eventbus_publish TOPIC_KERNEL_TICK (core_tick_count s) s) else s)
      in Some (AURA_OK, s))"

definition core_shutdown :: "'d io_dev \<Rightarrow> ('d, 'z) mod_st_scheme \<Rightarrow> (aura_status_t \<times> ('d, 'z) mod_st_scheme) option" where
  "core_shutdown D s = say D ''[CORE] Aura core module shutting down.'' s"

definition hello_init :: "'d io_dev \<Rightarrow> ('d, 'z) mod_st_scheme \<Rightarrow> (aura_status_t \<times> ('d, 'z) mod_st_scheme) option" where
  "hello_init D s = say D ''[hello] Module initialized.'' s"

definition hello_tick :: "'d io_dev \<Rightarrow> ('d, 'z) mod_st_scheme \<Rightarrow> (aura_status_t \<times> ('d, 'z) mod_st_scheme) option" where
  "hello_tick D s =
     (let s = s\<lparr>hello_count := hello_count s + 1\<rparr>
      in do { s \<leftarrow> (if hello_count s AND 0xFF = 0
                   then do { t \<leftarrow> vga_print D (Some ''[hello] tick #'') s;
                             t \<leftarrow> vga_print_dec D (hello_count s) t;
                             vga_putchar D LF t }
                   else Some s);
              Some (AURA_OK, s) })"

definition hello_shutdown :: "'d io_dev \<Rightarrow> ('d, 'z) mod_st_scheme \<Rightarrow> (aura_status_t \<times> ('d, 'z) mod_st_scheme) option" where
  "hello_shutdown D s = say D ''[hello] Module shutting down.'' s"

definition net_init :: "'d io_dev \<Rightarrow> ('d, 'z) mod_st_scheme \<Rightarrow> (aura_status_t \<times> ('d, 'z) mod_st_scheme) option" where
  "net_init D s = say D ''[NET] Virtual network adapter online (stub).'' s"

definition net_tick :: "('d, 'z) mod_st_scheme \<Rightarrow> (aura_status_t \<times> ('d, 'z) mod_st_scheme) option" where
  "net_tick s = Some (AURA_OK, s)"

definition net_shutdown :: "'d io_dev \<Rightarrow> ('d, 'z) mod_st_scheme \<Rightarrow> (aura_status_t \<times> ('d, 'z) mod_st_scheme) option" where
  "net_shutdown D s = say D ''[NET] Virtual network adapter shutting down.'' s"

definition serial_plugin_init :: "'d io_dev \<Rightarrow> ('d, 'z) mod_st_scheme \<Rightarrow> (aura_status_t \<times> ('d, 'z) mod_st_scheme) option" where
  "serial_plugin_init D s =
     (let (r, s) = serial_open D s
      in if r = AURA_OK
         then do { let s = s\<lparr>serial_adapter := (serial_adapter s)\<lparr>a_open := 1\<rparr>\<rparr>;
                   (n, s) \<leftarrow> serial_write D (map byte_of (''AI Aura OS serial console ready'' @ [CR, LF])) s;
                   let s = vga_set_serial_hook (Some Serial_mirror_char) s;
                   s \<leftarrow> vga_println D (Some ''[serial] COM1 adapter initialized.'') s;
                   Some (r, s) }
         else Some (r, s))"

definition serial_plugin_shutdown :: "'d io_dev \<Rightarrow> ('d, 'z) mod_st_scheme \<Rightarrow> (aura_status_t \<times> ('d, 'z) mod_st_scheme) option" where
  "serial_plugin_shutdown D s =
     (let s = vga_set_serial_hook None s;
          s = snd (serial_close D s)
      in Some (AURA_OK, s\<lparr>serial_adapter := (serial_adapter s)\<lparr>a_open := 0\<rparr>\<rparr>))"

fun plugin_dispatch :: "'d io_dev \<Rightarrow> plugin_fn \<Rightarrow> ('d, 'z) mod_st_scheme \<Rightarrow> (aura_status_t \<times> ('d, 'z) mod_st_scheme) option" where
  "plugin_dispatch D Core_init s = core_init D s"
| "plugin_dispatch D Core_tick s = core_tick s"
| "plugin_dispatch D Core_shutdown s = core_shutdown D s"
| "plugin_dispatch D Hello_init s = hello_init D s"
| "plugin_dispatch D Hello_tick s = hello_tick D s"
| "plugin_dispatch D Hello_shutdown s = hello_shutdown D s"
| "plugin_dispatch D Net_init s = net_init D s"
| "plugin_dispatch D Net_tick s = net_tick s"
| "plugin_dispatch D Net_shutdown s = net_shutdown D s"
| "plugin_dispatch D Serial_plugin_init s = serial_plugin_init D s"
| "plugin_dispatch D Serial_plugin_shutdown s = serial_plugin_shutdown D s"

section \<open>Registration\<close>

text \<open>The common tail of the registrations: register, and activate when that succeeded.\<close>

definition plugin_install ::
    "'d io_dev \<Rightarrow> plugin_desc_t \<Rightarrow> string \<Rightarrow> ('d, 'z) mod_st_scheme \<Rightarrow> (aura_status_t \<times> ('d, 'z) mod_st_scheme) option" where
  "plugin_install D desc name s =
     (let (r, s) = plugin_register (Some desc) s
      in if r = AURA_OK
         then do { (r', s) \<leftarrow> plugin_activate (plugin_dispatch D) (Some name) s; Some (r, s) }
         else Some (r, s))"

definition core_desc :: plugin_desc_t where
  "core_desc = \<lparr>d_name = c_array 24 ''aura_core'', d_version = c_array 8 ''1.0'', d_type = PLUGIN_TYPE_CORE,
     d_init = Some Core_init, d_tick = Some Core_tick, d_shutdown = Some Core_shutdown, d_priv = 0\<rparr>"

definition mod_aura_core_load :: "'d io_dev \<Rightarrow> ('d, 'z) mod_st_scheme \<Rightarrow> (int \<times> ('d, 'z) mod_st_scheme) option" where
  "mod_aura_core_load D s = do { (r, s) \<leftarrow> plugin_install D core_desc ''aura_core'' s; Some (if r = AURA_OK then 0 else - 1, s) }"

definition hello_desc :: plugin_desc_t where
  "hello_desc = \<lparr>d_name = c_array 24 ''hello'', d_version = c_array 8 ''1.0'', d_type = PLUGIN_TYPE_SERVICE,
     d_init = Some Hello_init, d_tick = Some Hello_tick, d_shutdown = Some Hello_shutdown, d_priv = 0\<rparr>"

definition mod_hello_load :: "'d io_dev \<Rightarrow> ('d, 'z) mod_st_scheme \<Rightarrow> (int \<times> ('d, 'z) mod_st_scheme) option" where
  "mod_hello_load D s = do { (r, s) \<leftarrow> plugin_install D hello_desc ''hello'' s; Some (if r = AURA_OK then 0 else - 1, s) }"

definition net_desc :: plugin_desc_t where
  "net_desc = \<lparr>d_name = c_array 24 ''net'', d_version = c_array 8 ''1.0'', d_type = PLUGIN_TYPE_ADAPTER,
     d_init = Some Net_init, d_tick = Some Net_tick, d_shutdown = Some Net_shutdown, d_priv = 0\<rparr>"

definition adapter_net_register :: "'d io_dev \<Rightarrow> ('d, 'z) mod_st_scheme \<Rightarrow> ('d, 'z) mod_st_scheme option" where
  "adapter_net_register D s = map_option snd (plugin_install D net_desc ''net'' s)"

text \<open>\<^verbatim>\<open>adapter_register\<close> gets a pointer: its address and the structure behind it.\<close>

definition adapter_desc :: "u32 \<Rightarrow> adapter_t \<Rightarrow> plugin_desc_t" where
  "adapter_desc addr adp = \<lparr>d_name = set_name (replicate 24 NUL) (a_name adp) PLUGIN_NAME_LEN, d_version = c_array 8 ''1'',
     d_type = PLUGIN_TYPE_ADAPTER, d_init = Some Serial_plugin_init, d_tick = None, d_shutdown = Some Serial_plugin_shutdown,
     d_priv = addr\<rparr>"

definition adapter_register ::
    "'d io_dev \<Rightarrow> u32 \<Rightarrow> adapter_t \<Rightarrow> ('d, 'z) mod_st_scheme \<Rightarrow> (aura_status_t \<times> ('d, 'z) mod_st_scheme) option" where
  "adapter_register D addr adp s = plugin_install D (adapter_desc addr adp) (d_name (adapter_desc addr adp)) s"

definition adapter_serial_register :: "'d io_dev \<Rightarrow> u32 \<Rightarrow> ('d, 'z) mod_st_scheme \<Rightarrow> ('d, 'z) mod_st_scheme option" where
  "adapter_serial_register D addr s = map_option snd (adapter_register D addr (serial_adapter s) s)"

section \<open>The loader\<close>

definition set_module :: "nat \<Rightarrow> bool \<Rightarrow> ('d, 'z) mod_st_scheme \<Rightarrow> ('d, 'z) mod_st_scheme" where
  "set_module i b s = s\<lparr>module_registry := (module_registry s)[i := (module_registry s ! i)\<lparr>me_loaded := b\<rparr>]\<rparr>"

text \<open>The loops run up to the first entry without a name.\<close>

definition modules :: "('d, 'z) mod_st_scheme \<Rightarrow> module_entry_t list" where
  "modules s = takeWhile (\<lambda>e. me_name e \<noteq> None) (module_registry s)"

definition loader_init :: "('d, 'z) mod_st_scheme \<Rightarrow> ('d, 'z) mod_st_scheme" where
  "loader_init s = fold (\<lambda>i. set_module i False) [0..<length (modules s)] s"

definition module_find :: "string option \<Rightarrow> ('d, 'z) mod_st_scheme \<Rightarrow> nat option" where
  "module_find name s = find_index (\<lambda>e. strncmp_k (me_name e) name (int MODULE_NAME_LEN) = 0) (modules s)"

fun module_dispatch :: "'d io_dev \<Rightarrow> module_fn \<Rightarrow> ('d, 'z) mod_st_scheme \<Rightarrow> (int \<times> ('d, 'z) mod_st_scheme) option" where
  "module_dispatch D Mod_hello_load s = mod_hello_load D s"
| "module_dispatch D Mod_aura_core_load s = mod_aura_core_load D s"

text \<open>Calling a null \<^verbatim>\<open>load\<close> pointer is outside the model; no named entry of the registry has one.\<close>

definition loader_load :: "'d io_dev \<Rightarrow> string option \<Rightarrow> ('d, 'z) mod_st_scheme \<Rightarrow> (int \<times> ('d, 'z) mod_st_scheme) option" where
  "loader_load D name s =
     (case module_find name s of
        None \<Rightarrow> Some (- 1, s)
      | Some i \<Rightarrow>
         (if me_loaded (module_registry s ! i) then Some (0, s)
          else do { fn \<leftarrow> me_load (module_registry s ! i);
                    (r, s) \<leftarrow> module_dispatch D fn s;
                    Some (r, if r = 0 then set_module i True s else s) }))"

definition loader_unload :: "string option \<Rightarrow> ('d, 'z) mod_st_scheme \<Rightarrow> int \<times> ('d, 'z) mod_st_scheme" where
  "loader_unload name s =
     (case module_find name s of
        None \<Rightarrow> (- 1, s)
      | Some i \<Rightarrow> (0, set_module i False s))"

primrec loader_load_loop :: "'d io_dev \<Rightarrow> nat list \<Rightarrow> ('d, 'z) mod_st_scheme \<Rightarrow> ('d, 'z) mod_st_scheme option" where
  "loader_load_loop D [] s = Some s"
| "loader_load_loop D (i # is) s =
     do { s \<leftarrow> (if \<not> me_loaded (module_registry s ! i)
               then map_option snd (loader_load D (me_name (module_registry s ! i)) s) else Some s);
          loader_load_loop D is s }"

definition loader_load_all :: "'d io_dev \<Rightarrow> ('d, 'z) mod_st_scheme \<Rightarrow> ('d, 'z) mod_st_scheme option" where
  "loader_load_all D s = loader_load_loop D [0..<length (modules s)] s"

definition loader_list :: "('d, 'z) mod_st_scheme \<Rightarrow> ('d, 'z) mod_st_scheme" where
  "loader_list s = s"

primrec loader_list_loop :: "'d io_dev \<Rightarrow> module_entry_t list \<Rightarrow> ('d, 'z) mod_st_scheme \<Rightarrow> ('d, 'z) mod_st_scheme option" where
  "loader_list_loop D [] s = Some s"
| "loader_list_loop D (e # es) s =
     do { s \<leftarrow> vga_print D (Some ''  ['') s;
          s \<leftarrow> vga_print D (Some (if me_loaded e then ''LOADED'' else ''      '')) s;
          s \<leftarrow> vga_print D (Some '']  '') s;
          s \<leftarrow> vga_println D (me_name e) s;
          loader_list_loop D es s }"

text \<open>Printing leaves the registry alone, so the loop runs over the entries it starts with.\<close>

definition loader_list_vga :: "'d io_dev \<Rightarrow> ('d, 'z) mod_st_scheme \<Rightarrow> ('d, 'z) mod_st_scheme option" where
  "loader_list_vga D s =
     do { s \<leftarrow> vga_println D (Some ''--- Modules ---'') s; loader_list_loop D (modules s) s }"

section \<open>The callbacks keep the kernel's tables\<close>

text \<open>The parts of the state that no callback and no registration touches. \<open>calm\<close> also keeps the screen and the
  event queue in order.\<close>

definition tables :: "('d, 'z) mod_st_scheme \<Rightarrow> _" where
  "tables s = ((task_table s, task_count_val s, sched_tick s), (s_fat_buf s, s_fat_loaded s, env_table s, fs_table s), (snapshots s,
     sync_count s), (kb_buf s, kb_head s, kb_tail s, kb_count s), handlers s, irq_handlers s, heap_head s, g_kernel_state s, mod_st.more s)"

definition calm :: "('d, 'z) mod_st_scheme \<Rightarrow> ('d, 'z) mod_st_scheme \<Rightarrow> bool" where
  "calm s s' \<longleftrightarrow> tables s' = tables s \<and> (bus_inv s \<longrightarrow> bus_inv s') \<and>
     (vga_ok s \<longrightarrow> vga_ok s' \<and> (\<forall>a. a < VGA_BUFFER \<or> VGA_BUFFER + 4000 \<le> a \<longrightarrow> mem s' a = mem s a))"

definition gentle :: "('d \<Rightarrow> 'k) \<Rightarrow> ('d, 'z) mod_st_scheme \<Rightarrow> ('d, 'z) mod_st_scheme \<Rightarrow> bool" where
  "gentle K s s' \<longleftrightarrow> calm s s' \<and> module_registry s' = module_registry s \<and> plugin_table s' = plugin_table s \<and>
     plugin_count_val s' = plugin_count_val s \<and> K (dev s') = K (dev s)"

lemma calm_refl [simp]: "calm s s"
  by (simp add: calm_def)

lemma calm_trans: "calm s t \<Longrightarrow> calm t u \<Longrightarrow> calm s u"
  by (simp add: calm_def)

text \<open>Changing fields that none of the conditions reads.\<close>

lemma calm_fields:
  "calm s (s\<lparr>core_tick_count := c\<rparr>)" "calm s (s\<lparr>hello_count := c\<rparr>)" "calm s (s\<lparr>serial_adapter := a\<rparr>)" "calm s (s\<lparr>module_registry := r\<rparr>)"
  "calm s (vga_set_serial_hook h s)" "calm s (s\<lparr>dev := d\<rparr>)" "calm s (s\<lparr>plugin_table := t\<rparr>)" "calm s (s\<lparr>plugin_count_val := n\<rparr>)"
  by (simp_all add: calm_def tables_def bus_inv_def vga_ok_def vga_set_serial_hook_def)

lemma calm_draw: "console_only K s s' \<Longrightarrow> calm s s'"
  by (auto simp: console_only_def calm_def tables_def bus_inv_def)

lemma calm_publish: "calm s (snd (eventbus_publish t x s))"
proof -
  obtain q tl n where "snd (eventbus_publish t x s) = s\<lparr>queue := q, q_tail := tl, q_count := n\<rparr>" using publish_queue_only by blast
  then show ?thesis using eventbus_publish_cases(3) [of s t x] by (simp add: calm_def tables_def vga_ok_def)
qed

lemma gentle_refl [simp]: "gentle K s s"
  by (simp add: gentle_def)

lemma gentle_trans: "gentle K s t \<Longrightarrow> gentle K t u \<Longrightarrow> gentle K s u"
  using calm_trans unfolding gentle_def by metis

lemma gentle_draw: "console_only K s s' \<Longrightarrow> gentle K s s'"
  using calm_draw [of K s s'] by (auto simp: console_only_def gentle_def)

lemma gentle_publish: "gentle K s (snd (eventbus_publish t x s))"
  using calm_publish [of s t x] by (simp add: gentle_def eventbus_publish_def)

lemma gentle_counts: "gentle K s (s\<lparr>core_tick_count := c\<rparr>)" "gentle K s (s\<lparr>hello_count := c\<rparr>)" "gentle K s (s\<lparr>serial_adapter := a\<rparr>)"
    "gentle K s (vga_set_serial_hook h s)" "K d = K (dev s) \<Longrightarrow> gentle K s (s\<lparr>dev := d\<rparr>)"
  by (simp_all add: gentle_def calm_fields) (simp add: vga_set_serial_hook_def)

lemma say_gentle:
  assumes "console_dev D K"
  shows "\<exists>s'. say D msg s = Some (AURA_OK, s') \<and> gentle K s s' \<and> g_serial_hook s' = g_serial_hook s \<and> serial_adapter s' = serial_adapter s"
proof -
  obtain s' where "vga_println D (Some msg) s = Some s'" "console_only K s s'" using drawsD [OF draws_println [OF assms]] by blast
  then show ?thesis by (auto simp: say_def gentle_draw console_only_fields(2)) (auto simp: console_only_def)
qed

lemma hello_tick_gentle:
  assumes D: "console_dev D K"
  shows "\<exists>s'. hello_tick D s = Some (AURA_OK, s') \<and> gentle K s s'"
proof -
  let ?s = "s\<lparr>hello_count := hello_count s + 1\<rparr>"
  have "draws K (\<lambda>t. do { t \<leftarrow> vga_print D (Some ''[hello] tick #'') t; t \<leftarrow> vga_print_dec D (hello_count ?s) t; vga_putchar D LF t })"
    using D by (intro draws_intros)
  then obtain u where "do { t \<leftarrow> vga_print D (Some ''[hello] tick #'') ?s; t \<leftarrow> vga_print_dec D (hello_count ?s) t; vga_putchar D LF t } = Some u"
    "console_only K ?s u" using drawsD [of K _ ?s] by blast
  then show ?thesis
    using gentle_trans [OF gentle_counts(2) gentle_draw, where s = s] gentle_counts(2) [where s = s] by (auto simp: hello_tick_def Let_def)
qed

lemma serial_open_kept:
  assumes "console_dev D K"
  shows "\<exists>d. serial_open D s = (AURA_OK, s\<lparr>dev := d\<rparr>) \<and> K d = K (dev s)"
  using assms by (simp add: serial_open_def outb_def Let_def) (rule exI, rule conjI, rule refl, simp add: kept_out console_ports_def)

lemma serial_plugin_init_gentle:
  assumes D: "console_dev D K"
  shows "\<exists>s'. serial_plugin_init D s = Some (AURA_OK, s') \<and> gentle K s s' \<and> g_serial_hook s' = Some Serial_mirror_char \<and> a_open (serial_adapter s') = 1"
proof -
  obtain d where d: "serial_open D s = (AURA_OK, s\<lparr>dev := d\<rparr>)" "K d = K (dev s)" using serial_open_kept [OF D] by blast
  let ?s1 = "s\<lparr>dev := d, serial_adapter := (serial_adapter s)\<lparr>a_open := 1\<rparr>\<rparr>"
  obtain d' n where d': "serial_write D (map byte_of (''AI Aura OS serial console ready'' @ [CR, LF])) ?s1 = Some (n, ?s1\<lparr>dev := d'\<rparr>)" "K d' = K (dev ?s1)"
    using serial_write_kept [OF D] by blast
  let ?s2 = "vga_set_serial_hook (Some Serial_mirror_char) (?s1\<lparr>dev := d'\<rparr>)"
  obtain u where u: "vga_println D (Some ''[serial] COM1 adapter initialized.'') ?s2 = Some u" "console_only K ?s2 u"
    using drawsD [OF draws_println [OF D]] by blast
  have g: "gentle K s ?s2" using d(2) d'(2) by (simp add: gentle_def calm_def tables_def bus_inv_def vga_ok_def vga_set_serial_hook_def)
  have "serial_adapter u = serial_adapter ?s2" using u(2) by (auto simp: console_only_def)
  then have "a_open (serial_adapter u) = 1" by (simp add: vga_set_serial_hook_def)
  moreover have "g_serial_hook u = Some Serial_mirror_char" using console_only_fields(2) [OF u(2)] by (simp add: vga_set_serial_hook_def)
  moreover have "serial_plugin_init D s = Some (AURA_OK, u)" unfolding serial_plugin_init_def d(1) using d' u(1) by (simp add: Let_def)
  ultimately show ?thesis using gentle_trans [OF g gentle_draw [OF u(2)]] by blast
qed

lemma serial_plugin_shutdown_gentle:
  assumes D: "console_dev D K"
  shows "\<exists>s'. serial_plugin_shutdown D s = Some (AURA_OK, s') \<and> gentle K s s'"
  using kept_out [OF D, of COM1_IER]
  by (simp add: serial_plugin_shutdown_def serial_close_def outb_def vga_set_serial_hook_def gentle_def calm_def tables_def bus_inv_def vga_ok_def Let_def console_ports_def)

lemma core_tick_gentle: "\<exists>s'. core_tick s = Some (AURA_OK, s') \<and> gentle K s s'"
  using gentle_trans [OF gentle_counts(1) gentle_publish, where s = s and K = K] gentle_counts(1) [where s = s and K = K] by (simp add: core_tick_def Let_def)

lemma dispatch_gentle:
  assumes D: "console_dev D K"
  shows "\<exists>s'. plugin_dispatch D fn s = Some (AURA_OK, s') \<and> gentle K s s'"
proof -
  have "\<exists>s'. say D msg s = Some (AURA_OK, s') \<and> gentle K s s'" for msg using say_gentle [OF D] by blast
  moreover have "\<exists>s'. serial_plugin_init D s = Some (AURA_OK, s') \<and> gentle K s s'" using serial_plugin_init_gentle [OF D] by blast
  ultimately show ?thesis
    using hello_tick_gentle [OF D] serial_plugin_shutdown_gentle [OF D] core_tick_gentle
    by (cases fn) (simp_all add: core_init_def core_shutdown_def hello_init_def hello_shutdown_def net_init_def net_shutdown_def net_tick_def)
qed

lemma dispatch_quiet:
  assumes "console_dev D K"
  shows "plugin_quiet (plugin_dispatch D)"
  unfolding plugin_quiet_def using dispatch_gentle [OF assms] by (metis gentle_def)

section \<open>Installing a plugin\<close>

lemma init_console:
  assumes D: "console_dev D K"
  shows "\<exists>s'. plugin_dispatch D fn s = Some (AURA_OK, s') \<and> gentle K s s' \<and>
    (if fn = Serial_plugin_init then g_serial_hook s' = Some Serial_mirror_char
     else fn \<in> {Core_init, Hello_init, Net_init} \<longrightarrow> g_serial_hook s' = g_serial_hook s \<and> serial_adapter s' = serial_adapter s)"
proof (cases "fn \<in> {Serial_plugin_init, Core_init, Hello_init, Net_init}")
  case True
  then show ?thesis
    using serial_plugin_init_gentle [OF D, of s] say_gentle [OF D, of _ s]
    by (auto simp: core_init_def hello_init_def net_init_def)
next
  case False
  then show ?thesis using dispatch_gentle [OF D, of fn s] by auto
qed

lemma plugin_at_cstr: "plugin_inv s \<Longrightarrow> cstr k = cstr k' \<Longrightarrow> plugin_at s k = plugin_at s k'"
  unfolding plugin_at_def plugin_inv_def by (blast intro: plugins.entry_cstr)

lemma plugin_register_calm: "calm s (snd (plugin_register d s))"
proof (cases "fst (plugin_register d s) = AURA_OK")
  case True
  then show ?thesis
    by (auto simp: plugin_register_def Let_def set_slot_def split: option.splits if_splits intro!: calm_trans [OF _ calm_publish] calm_trans [OF calm_fields(7) calm_fields(8)])
next
  case False
  then show ?thesis by (auto simp: plugin_register_def Let_def split: option.splits if_splits)
qed

lemma plugin_install_new:
  assumes D: "console_dev D K" and inv: "plugin_inv s" and name: "length (cstr (d_name d)) < 24" "cstr name = cstr (d_name d)"
    and room: "plugin_count s \<noteq> 16" and none: "plugin_at s (d_name d) = None" and fn: "d_init d = Some fn"
  shows "\<exists>s'. plugin_install D d name s = Some (AURA_OK, s') \<and> plugin_inv s' \<and> plugin_count s' = plugin_count s + 1 \<and> calm s s' \<and>
    module_registry s' = module_registry s \<and>
    (\<forall>k. plugin_at s' k =
       (if cstr k = cstr name
        then Some \<lparr>p_desc = d, p_state = PLUGIN_STATE_ACTIVE, p_load_tick = g_tick_count s, p_tick_count = 0, p_error_count = 0\<rparr>
        else plugin_at s k)) \<and>
    (if fn = Serial_plugin_init then g_serial_hook s' = Some Serial_mirror_char
     else fn \<in> {Core_init, Hello_init, Net_init} \<longrightarrow> g_serial_hook s' = g_serial_hook s \<and> serial_adapter s' = serial_adapter s)"
proof -
  let ?p = "\<lparr>p_desc = d, p_state = PLUGIN_STATE_LOADED, p_load_tick = g_tick_count s, p_tick_count = 0, p_error_count = 0\<rparr>"
  obtain u where u: "plugin_register (Some d) s = (AURA_OK, u)" "plugin_inv u" "plugin_count u = plugin_count s + 1"
      "\<exists>t c q tl n. u = s\<lparr>plugin_table := t, plugin_count_val := c, queue := q, q_tail := tl, q_count := n\<rparr>"
      "\<forall>k. plugin_at u k = (if cstr k = cstr (d_name d) then Some ?p else plugin_at s k)"
    using plugin_register_new [OF inv name(1) room none] by blast
  obtain v where v: "plugin_dispatch D fn u = Some (AURA_OK, v)" "gentle K u v" 
      "if fn = Serial_plugin_init then g_serial_hook v = Some Serial_mirror_char
       else fn \<in> {Core_init, Hello_init, Net_init} \<longrightarrow> g_serial_hook v = g_serial_hook u \<and> serial_adapter v = serial_adapter u"
    using init_console [OF D] by blast
  have keep: "g_serial_hook u = g_serial_hook s" "serial_adapter u = serial_adapter s" "module_registry u = module_registry s" using u(4) by auto
  have su: "calm s u" using plugin_register_calm [of s "Some d"] u(1) by simp
  have pu: "plugin_at u name = Some ?p" using u(5) name(2) by simp
  have init: "(case d_init (p_desc ?p) of None \<Rightarrow> Some (AURA_OK, u) | Some fn \<Rightarrow> plugin_dispatch D fn u) = Some (AURA_OK, v)"
    using v(1) fn by simp
  obtain t where t: "plugin_activate (plugin_dispatch D) (Some name) u = Some (AURA_OK, v\<lparr>plugin_table := t\<rparr>)" "plugin_inv (v\<lparr>plugin_table := t\<rparr>)"
      "\<forall>k. plugin_at (v\<lparr>plugin_table := t\<rparr>) k = (if cstr k = cstr name then Some (?p\<lparr>p_state := PLUGIN_STATE_ACTIVE\<rparr>) else plugin_at u k)"
    using plugin_activate_loaded [where call = "plugin_dispatch D", OF u(2) pu _ init] v(2) by (auto simp: gentle_def)
  have run: "plugin_install D d name s = Some (AURA_OK, v\<lparr>plugin_table := t\<rparr>)" unfolding plugin_install_def u(1) using t(1) by simp
  have "plugin_count (v\<lparr>plugin_table := t\<rparr>) = plugin_count s + 1" using u(3) v(2) by (simp add: plugin_count_def gentle_def)
  moreover have "calm s (v\<lparr>plugin_table := t\<rparr>)"
    using v(2) calm_trans [OF su] calm_trans [OF _ calm_fields(7)] unfolding gentle_def by blast
  moreover have "module_registry (v\<lparr>plugin_table := t\<rparr>) = module_registry s" using v(2) keep(3) by (simp add: gentle_def)
  ultimately show ?thesis unfolding run using t(2,3) u(5) name(2) v(3) keep
    by (intro exI [of _ "v\<lparr>plugin_table := t\<rparr>"]) (auto split: if_splits)
qed

section \<open>The registry of modules\<close>

lemma c_array_cstr: "NUL \<notin> set str \<Longrightarrow> cstr (c_array n str) = str"
  by (cases "n - length str") (auto simp: c_array_def cstr_append_NUL cstr_id)

lemma desc_names [simp]:
  "cstr (d_name hello_desc) = ''hello''" "cstr (d_name core_desc) = ''aura_core''" "cstr (d_name net_desc) = ''net''"
  "cstr (d_name (adapter_desc addr serial_adapter_0)) = ''serial-com1''"
  by (simp_all add: hello_desc_def core_desc_def net_desc_def adapter_desc_def serial_adapter_0_def c_array_cstr cstr_set_name)

lemma name_literals [simp]: "cstr ''hello'' = ''hello''" "cstr ''aura_core'' = ''aura_core''" "cstr ''net'' = ''net''" "cstr ''serial-com1'' = ''serial-com1''"
  by (simp_all add: cstr_def)

text \<open>The registry with the given loaded flags.\<close>

definition registry :: "bool \<Rightarrow> bool \<Rightarrow> module_entry_t list" where
  "registry h c =
     [\<lparr>me_name = Some ''hello'', me_load = Some Mod_hello_load, me_loaded = h\<rparr>,
      \<lparr>me_name = Some ''aura_core'', me_load = Some Mod_aura_core_load, me_loaded = c\<rparr>,
      \<lparr>me_name = None, me_load = None, me_loaded = False\<rparr>]"

lemma registry_0: "module_registry_0 = registry False False"
  by (simp add: module_registry_0_def registry_def)

lemma registry_modules: "module_registry s = registry h c \<Longrightarrow> modules s = take 2 (registry h c)"
  by (simp add: modules_def registry_def)

lemma registry_find:
  assumes "module_registry s = registry h c"
  shows "module_find (Some ''hello'') s = Some 0" "module_find (Some ''aura_core'') s = Some 1"
  by (simp_all add: module_find_def registry_modules [OF assms] registry_def strncmp_k_zero)

lemma loader_init_registry:
  assumes "module_registry s = registry h c"
  shows "loader_init s = s\<lparr>module_registry := registry False False\<rparr>"
  using assms by (simp add: loader_init_def registry_modules registry_def set_module_def numeral_2_eq_2)

definition module_desc :: "module_fn \<Rightarrow> plugin_desc_t" where
  "module_desc fn = (case fn of Mod_hello_load \<Rightarrow> hello_desc | Mod_aura_core_load \<Rightarrow> core_desc)"

definition mod_name :: "module_fn \<Rightarrow> string" where
  "mod_name fn = (case fn of Mod_hello_load \<Rightarrow> ''hello'' | Mod_aura_core_load \<Rightarrow> ''aura_core'')"

lemma module_dispatch_install:
  "module_dispatch D fn s = do { (r, s) \<leftarrow> plugin_install D (module_desc fn) (mod_name fn) s; Some (if r = AURA_OK then 0 else - 1, s) }"
  by (cases fn) (simp_all add: mod_hello_load_def mod_aura_core_load_def module_desc_def mod_name_def)

lemma module_cstr [simp]: "cstr (d_name (module_desc fn)) = mod_name fn" "cstr (mod_name fn) = mod_name fn" "length (mod_name fn) < 24"
  by (cases fn; simp add: module_desc_def mod_name_def)+

lemma module_find_index:
  assumes "module_registry s = registry h c"
  shows "\<exists>i < 2. module_find (Some (mod_name fn)) s = Some i \<and> me_load (module_registry s ! i) = Some fn \<and>
    me_loaded (module_registry s ! i) = (case fn of Mod_hello_load \<Rightarrow> h | Mod_aura_core_load \<Rightarrow> c) \<and>
    set_module i b s = s\<lparr>module_registry := (case fn of Mod_hello_load \<Rightarrow> registry b c | Mod_aura_core_load \<Rightarrow> registry h b)\<rparr>"
  using registry_find [OF assms] assms by (cases fn) (auto simp: mod_name_def registry_def set_module_def intro: exI [of _ "0::nat"] exI [of _ "1::nat"])

text \<open>Loading a module whose plugin is not there yet.\<close>

lemma loader_load_new:
  assumes D: "console_dev D K" and inv: "plugin_inv s" and reg: "module_registry s = registry h c"
    and room: "plugin_count s \<noteq> 16" and none: "plugin_at s (mod_name fn) = None"
    and un: "\<not> (case fn of Mod_hello_load \<Rightarrow> h | Mod_aura_core_load \<Rightarrow> c)"
  shows "\<exists>s'. loader_load D (Some (mod_name fn)) s = Some (0, s') \<and> plugin_inv s' \<and> plugin_count s' = plugin_count s + 1 \<and>
    module_registry s' = (case fn of Mod_hello_load \<Rightarrow> registry True c | Mod_aura_core_load \<Rightarrow> registry h True) \<and>
    serial_adapter s' = serial_adapter s \<and> calm s s' \<and>
    (\<forall>k. map_option (\<lambda>p. (p_desc p, p_state p)) (plugin_at s' k) =
       (if cstr k = mod_name fn then Some (module_desc fn, PLUGIN_STATE_ACTIVE)
        else map_option (\<lambda>p. (p_desc p, p_state p)) (plugin_at s k)))"
proof -
  obtain i where i: "module_find (Some (mod_name fn)) s = Some i" "me_load (module_registry s ! i) = Some fn" "\<not> me_loaded (module_registry s ! i)"
    using module_find_index [OF reg, of fn] un by auto
  have init: "\<exists>f \<in> {Core_init, Hello_init}. d_init (module_desc fn) = Some f"
    by (cases fn) (simp_all add: module_desc_def hello_desc_def core_desc_def)
  then obtain f where f: "d_init (module_desc fn) = Some f" "f \<noteq> Serial_plugin_init" "f \<in> {Core_init, Hello_init, Net_init}" by auto
  have none': "plugin_at s (d_name (module_desc fn)) = None"
    using none plugin_at_cstr [OF inv, of "mod_name fn" "d_name (module_desc fn)"] by simp
  let ?p = "\<lparr>p_desc = module_desc fn, p_state = PLUGIN_STATE_ACTIVE, p_load_tick = g_tick_count s, p_tick_count = 0, p_error_count = 0\<rparr>"
  obtain u where u: "plugin_install D (module_desc fn) (mod_name fn) s = Some (AURA_OK, u)" "plugin_inv u" "plugin_count u = plugin_count s + 1"
      "calm s u" "module_registry u = module_registry s" "\<forall>k. plugin_at u k = (if cstr k = mod_name fn then Some ?p else plugin_at s k)" "serial_adapter u = serial_adapter s"
    using plugin_install_new [OF D inv _ _ room none' f(1), of "mod_name fn"] f(2,3) by auto
  have ru: "module_registry u = registry h c" using u(5) reg by simp
  let ?reg = "case fn of Mod_hello_load \<Rightarrow> registry True c | Mod_aura_core_load \<Rightarrow> registry h True"
  have set: "set_module i True u = u\<lparr>module_registry := ?reg\<rparr>"
    using module_find_index [OF ru, of fn True] module_find_index [OF reg, of fn] i(1) ru reg by (auto simp: module_find_def modules_def)
  have "loader_load D (Some (mod_name fn)) s = Some (0, u\<lparr>module_registry := ?reg\<rparr>)"
    unfolding loader_load_def i(1) option.case using i(2,3) u(1) set by (simp add: module_dispatch_install)
  moreover have "plugin_inv (u\<lparr>module_registry := ?reg\<rparr>)" "plugin_count (u\<lparr>module_registry := ?reg\<rparr>) = plugin_count s + 1"
    using u(2,3) by (simp_all add: plugin_inv_def plugin_count_def)
  moreover have "plugin_at (u\<lparr>module_registry := ?reg\<rparr>) k = plugin_at u k" for k by (simp add: plugin_at_def)
  moreover have "calm s (u\<lparr>module_registry := ?reg\<rparr>)" using calm_trans [OF u(4) calm_fields(4)] .
  ultimately show ?thesis using u(6,7) by (intro exI [of _ "u\<lparr>module_registry := ?reg\<rparr>"]) simp
qed

section \<open>Properties\<close>

definition blank_mod :: "'d \<Rightarrow> 'd mod_st" where
  "blank_mod d = blank_sched d (fat_st_ext (replicate 512 0) (replicate 4608 0) True
     (env_st_ext (replicate 16 blank_var) (replicate 512 0) (replicate 512 0) (fs_st_ext (replicate 32 blank_node)
       (mirror_st_ext (replicate 4 blank_snapshot) 0 (mod_st_ext 0 0 serial_adapter_0 module_registry_0 ())))))"

definition demo_mod :: "uart_emu_st mod_st" where
  "demo_mod = blank_mod \<lparr>emu_dlab = False, emu_sent = [], emu_busy = 0\<rparr>"

lemma demo_mod_facts: "plugin_inv demo_mod" "plugin_at demo_mod k = None" "module_registry demo_mod = registry False False"
    "serial_adapter demo_mod = serial_adapter_0" "plugin_count demo_mod = 0"
proof -
  have t: "plugin_table demo_mod = plugin_table demo_plugins" and c: "plugin_count_val demo_mod = 0"
    by (simp_all add: demo_mod_def blank_mod_def blank_sched_def)
  have d: "plugin_count_val demo_plugins = 0" using demo_plugins_inv(2) by (simp add: plugin_count_def)
  show "plugin_inv demo_mod" using demo_plugins_inv(1) by (simp add: plugin_inv_def t c d)
  show "plugin_at demo_mod k = None" using demo_plugins_inv(3) [of k] by (simp add: plugin_at_def t)
  show "module_registry demo_mod = registry False False" "serial_adapter demo_mod = serial_adapter_0"
    by (simp_all add: demo_mod_def blank_mod_def blank_sched_def registry_0)
  show "plugin_count demo_mod = 0" by (simp add: plugin_count_def c)
qed

lemma no_plugins:
  assumes inv: "plugin_inv s" and none: "\<And>k. plugin_at s k = None"
  shows "plugin_count_val s = 0"
proof -
  have "\<not> slot_loaded p" if p: "p \<in> set (plugin_table s)" for p
  proof
    assume "slot_loaded p"
    then have "plugin_at s (d_name (p_desc p)) = Some p"
      using p inv plugins.entry_Some [of "plugin_table s" "d_name (p_desc p)" p] by (auto simp: plugin_at_def plugin_inv_def in_set_conv_nth)
    then show False using none by simp
  qed
  then have "filter slot_loaded (plugin_table s) = []" by simp
  then show ?thesis using inv by (simp add: plugin_inv_def)
qed

section \<open>What each callback does\<close>





















section \<open>The boot of the plugins\<close>

text \<open>Loading both modules, and registering both adapters.\<close>

lemma load_all_effect:
  fixes s :: "('d, 'z) mod_st_scheme"
  assumes D: "console_dev D K" and inv: "plugin_inv s" and none: "\<And>k. plugin_at s k = None" and reg: "module_registry s = registry h c"
  shows "\<exists>s1. loader_load_all D (loader_init s) = Some s1 \<and> calm s s1 \<and> plugin_inv s1 \<and> plugin_count s1 = 2 \<and> module_registry s1 = registry True True \<and>
    serial_adapter s1 = serial_adapter s \<and>
    (\<forall>k. map_option (\<lambda>p. (p_desc p, p_state p)) (plugin_at s1 k) =
       (if cstr k = ''hello'' then Some (hello_desc, PLUGIN_STATE_ACTIVE)
        else if cstr k = ''aura_core'' then Some (core_desc, PLUGIN_STATE_ACTIVE) else None))"
proof -
  let ?s = "loader_init s" and ?v = "map_option (\<lambda>p. (p_desc p, p_state p))"
  have s: "?s = s\<lparr>module_registry := registry False False\<rparr>" by (rule loader_init_registry [OF reg])
  have s0: "plugin_inv ?s" "plugin_at ?s k = None" "module_registry ?s = registry False False" "plugin_count ?s = 0" "serial_adapter ?s = serial_adapter s" for k
    using inv none no_plugins [OF inv none] by (simp_all add: s plugin_inv_def plugin_at_def plugin_count_def)
  obtain a where a: "loader_load D (Some ''hello'') ?s = Some (0, a)" "plugin_inv a" "plugin_count a = 1" "module_registry a = registry True False"
      "serial_adapter a = serial_adapter s" "calm ?s a" "\<And>k. ?v (plugin_at a k) = (if cstr k = ''hello'' then Some (hello_desc, PLUGIN_STATE_ACTIVE) else None)"
    using loader_load_new [OF D s0(1,3), of Mod_hello_load] s0(2,4,5) by (auto simp: mod_name_def module_desc_def)
  have na: "plugin_at a ''aura_core'' = None" using a(7) [of "''aura_core''"] by simp
  obtain b where b: "loader_load D (Some ''aura_core'') a = Some (0, b)" "plugin_inv b" "plugin_count b = 2" "module_registry b = registry True True"
      "serial_adapter b = serial_adapter s" "calm a b"
      "\<And>k. ?v (plugin_at b k) = (if cstr k = ''aura_core'' then Some (core_desc, PLUGIN_STATE_ACTIVE) else ?v (plugin_at a k))"
    using loader_load_new [OF D a(2,4), of Mod_aura_core_load] a(3,5) na by (auto simp: mod_name_def module_desc_def)
  have "loader_load_all D ?s = Some b"
    using a(1) b(1) s0(3) a(4) by (simp add: loader_load_all_def registry_modules [OF s0(3)] registry_def numeral_2_eq_2)
  moreover have "calm s b" using calm_trans [OF calm_trans [OF calm_fields(4) a(6) [unfolded s]] b(6)] .
  ultimately show ?thesis using b(2-5,7) a(7) by (intro exI [of _ b]) auto
qed

lemma adapters_effect:
  fixes s :: "('d, 'z) mod_st_scheme"
  assumes D: "console_dev D K" and inv: "plugin_inv s" and n: "plugin_count s = 2" and adp: "serial_adapter s = serial_adapter_0"
    and none: "plugin_at s ''serial-com1'' = None" "plugin_at s ''net'' = None"
  shows "\<exists>s2 s3. adapter_serial_register D addr s = Some s2 \<and> adapter_net_register D s2 = Some s3 \<and> calm s s3 \<and> plugin_inv s3 \<and> plugin_count s3 = 4 \<and>
    g_serial_hook s3 = Some Serial_mirror_char \<and> module_registry s3 = module_registry s \<and>
    (\<forall>k. map_option (\<lambda>p. (p_desc p, p_state p)) (plugin_at s3 k) =
       (if cstr k = ''serial-com1'' then Some (adapter_desc addr serial_adapter_0, PLUGIN_STATE_ACTIVE)
        else if cstr k = ''net'' then Some (net_desc, PLUGIN_STATE_ACTIVE) else map_option (\<lambda>p. (p_desc p, p_state p)) (plugin_at s k)))"
proof -
  let ?v = "map_option (\<lambda>p. (p_desc p, p_state p))"
  have len: "length (cstr (d_name (adapter_desc addr serial_adapter_0))) < 24" "length (cstr (d_name net_desc)) < 24"
    by simp_all
  have nb: "plugin_at s (d_name (adapter_desc addr serial_adapter_0)) = None" "plugin_at s (d_name net_desc) = None"
    using none plugin_at_cstr [OF inv, of "d_name (adapter_desc addr serial_adapter_0)" "''serial-com1''"] plugin_at_cstr [OF inv, of "d_name net_desc" "''net''"] by simp_all
  have fb: "d_init (adapter_desc addr serial_adapter_0) = Some Serial_plugin_init" by (simp add: adapter_desc_def)
  obtain e where e: "plugin_install D (adapter_desc addr serial_adapter_0) (d_name (adapter_desc addr serial_adapter_0)) s = Some (AURA_OK, e)" "plugin_inv e"
      "plugin_count e = 3" "calm s e" "module_registry e = module_registry s" "g_serial_hook e = Some Serial_mirror_char"
      "\<And>k. ?v (plugin_at e k) = (if cstr k = ''serial-com1'' then Some (adapter_desc addr serial_adapter_0, PLUGIN_STATE_ACTIVE) else ?v (plugin_at s k))"
    using plugin_install_new [OF D inv len(1) refl _ nb(1) fb] n by auto
  have ne: "plugin_at e (d_name net_desc) = None" using e(7) [of "d_name net_desc"] nb(2) by simp
  have fe: "d_init net_desc = Some Net_init" by (simp add: net_desc_def)
  obtain f where f: "plugin_install D net_desc ''net'' e = Some (AURA_OK, f)" "plugin_inv f" "plugin_count f = 4" "calm e f" "module_registry f = module_registry e"
      "g_serial_hook f = Some Serial_mirror_char"
      "\<And>k. ?v (plugin_at f k) = (if cstr k = ''net'' then Some (net_desc, PLUGIN_STATE_ACTIVE) else ?v (plugin_at e k))"
    using plugin_install_new [OF D e(2) len(2) _ _ ne fe, of "''net''"] e(3,6) by auto
  have "adapter_serial_register D addr s = Some e" using e(1) by (simp add: adapter_serial_register_def adapter_register_def adp)
  moreover have "adapter_net_register D e = Some f" using f(1) by (simp add: adapter_net_register_def)
  moreover have "module_registry f = module_registry s" using f(5) e(5) by simp
  ultimately show ?thesis using f(2,3,6,7) e(7) calm_trans [OF e(4) f(4)] by (intro exI [of _ e] exI [of _ f]) auto
qed

text \<open>C37: the boot sequence of the loader and the adapters, from a plugin table without plugins, ends with exactly four
  plugins, all ACTIVE: hello, aura_core, serial-com1 and net, with the descriptors of the sources. Both
  modules are marked as loaded and the console is mirrored to the serial line.\<close>

theorem boot_plugins:
  fixes s :: "('d, 'z) mod_st_scheme"
  assumes D: "console_dev D K" and inv: "plugin_inv s" and none: "\<And>k. plugin_at s k = None"
    and reg: "module_registry s = registry h c" and adp: "serial_adapter s = serial_adapter_0"
  shows "\<exists>s1 s2 s3. loader_load_all D (loader_init s) = Some s1 \<and> adapter_serial_register D addr s1 = Some s2 \<and> adapter_net_register D s2 = Some s3 \<and>
    plugin_inv s3 \<and> plugin_count s3 = 4 \<and> g_serial_hook s3 = Some Serial_mirror_char \<and> module_registry s3 = registry True True \<and>
    (\<forall>k. map_option (\<lambda>p. (p_desc p, p_state p)) (plugin_at s3 k) =
       (if cstr k = ''hello'' then Some (hello_desc, PLUGIN_STATE_ACTIVE)
        else if cstr k = ''aura_core'' then Some (core_desc, PLUGIN_STATE_ACTIVE)
        else if cstr k = ''serial-com1'' then Some (adapter_desc addr serial_adapter_0, PLUGIN_STATE_ACTIVE)
        else if cstr k = ''net'' then Some (net_desc, PLUGIN_STATE_ACTIVE) else None))"
proof -
  obtain b where b: "loader_load_all D (loader_init s) = Some b" "plugin_inv b" "plugin_count b = 2" "module_registry b = registry True True"
      "serial_adapter b = serial_adapter_0"
      "\<And>k. map_option (\<lambda>p. (p_desc p, p_state p)) (plugin_at b k) =
       (if cstr k = ''hello'' then Some (hello_desc, PLUGIN_STATE_ACTIVE) else if cstr k = ''aura_core'' then Some (core_desc, PLUGIN_STATE_ACTIVE) else None)"
    using load_all_effect [OF D inv none reg] adp by auto
  have "plugin_at b ''serial-com1'' = None" "plugin_at b ''net'' = None" using b(6) [of "''serial-com1''"] b(6) [of "''net''"] by simp_all
  from adapters_effect [OF D b(2,3,5) this, of addr]
  obtain e f where f: "adapter_serial_register D addr b = Some e" "adapter_net_register D e = Some f" "plugin_inv f" "plugin_count f = 4"
      "g_serial_hook f = Some Serial_mirror_char" "module_registry f = module_registry b"
      "\<And>k. map_option (\<lambda>p. (p_desc p, p_state p)) (plugin_at f k) = (if cstr k = ''serial-com1'' then Some (adapter_desc addr serial_adapter_0, PLUGIN_STATE_ACTIVE)
        else if cstr k = ''net'' then Some (net_desc, PLUGIN_STATE_ACTIVE) else map_option (\<lambda>p. (p_desc p, p_state p)) (plugin_at b k))" by blast
  show ?thesis by (intro exI conjI allI, rule b(1), rule f(1), rule f(2), rule f(3), rule f(4), rule f(5), simp only: f(6) b(4), simp add: f(7) b(6))
qed

theorem boot_plugins_witness:
  "\<exists>s1 s2 s3. loader_load_all uart_emu (loader_init demo_mod) = Some s1 \<and> adapter_serial_register uart_emu 0x20000 s1 = Some s2 \<and>
     adapter_net_register uart_emu s2 = Some s3 \<and> plugin_count s3 = 4"
  using boot_plugins [OF uart_emu_console demo_mod_facts(1,2,3,4), of "0x20000"] by blast

text \<open>Unloading a module only clears its flag. Its plugin stays registered, so that loading the module again fails with -1 and
  changes nothing. Unloading an unknown name fails with -1, loading a module that is loaded succeeds at once.\<close>

theorem loader_unload_stuck:
  fixes s :: "('d, 'z) mod_st_scheme"
  assumes inv: "plugin_inv s" and reg: "module_registry s = registry True True" and p: "plugin_at s (mod_name fn) = Some p"
    and other: "cstr name \<notin> {''hello'', ''aura_core''}" "length (cstr name) < 24"
  shows "loader_load D (Some (mod_name fn)) s = Some (0, s) \<and> loader_unload (Some name) s = (- 1, s) \<and> loader_load D (Some name) s = Some (- 1, s) \<and>
    (\<exists>s'. loader_unload (Some (mod_name fn)) s = (0, s') \<and> plugin_table s' = plugin_table s \<and> module_registry s' \<noteq> module_registry s \<and>
      loader_load D (Some (mod_name fn)) s' = Some (- 1, s'))"
proof -
  obtain i where i: "module_find (Some (mod_name fn)) s = Some i" "me_loaded (module_registry s ! i)"
      "set_module i False s = s\<lparr>module_registry := (case fn of Mod_hello_load \<Rightarrow> registry False True | Mod_aura_core_load \<Rightarrow> registry True False)\<rparr>"
    using module_find_index [OF reg, of fn False] by (cases fn) auto
  have nf: "module_find (Some name) s = None"
    using other by (auto simp: module_find_def registry_modules [OF reg] registry_def strncmp_k_zero)
  let ?r = "case fn of Mod_hello_load \<Rightarrow> registry False True | Mod_aura_core_load \<Rightarrow> registry True False"
  let ?s = "s\<lparr>module_registry := ?r\<rparr>"
  have "\<exists>h c. module_registry ?s = registry h c \<and> \<not> (case fn of Mod_hello_load \<Rightarrow> h | Mod_aura_core_load \<Rightarrow> c)" by (cases fn) auto
  then obtain j where j: "module_find (Some (mod_name fn)) ?s = Some j" "me_load (module_registry ?s ! j) = Some fn" "\<not> me_loaded (module_registry ?s ! j)"
    using module_find_index [of ?s _ _ fn] by (metis (no_types, lifting))
  have "plugin_find (Some (d_name (module_desc fn))) ?s \<noteq> None"
    using p plugin_at_cstr [OF inv, of "mod_name fn" "d_name (module_desc fn)"] plugin_at_find [of s "d_name (module_desc fn)" p]
    by (auto simp: plugin_find_def)
  then have "plugin_install D (module_desc fn) (mod_name fn) ?s = Some (if int PLUGIN_MAX \<le> plugin_count_val s then AURA_NOSLOT else AURA_ERR, ?s)"
    by (simp add: plugin_install_def plugin_register_def)
  then have "loader_load D (Some (mod_name fn)) ?s = Some (- 1, ?s)"
    unfolding loader_load_def j(1) option.case using j(2,3) by (simp add: module_dispatch_install)
  moreover have "?r \<noteq> registry True True" by (cases fn) (simp_all add: registry_def)
  ultimately show ?thesis using i nf reg by (simp add: loader_load_def loader_unload_def)
qed

theorem loader_unload_stuck_witness:
  "\<exists>s s'. loader_unload (Some ''hello'') s = (0, s') \<and> loader_load uart_emu (Some ''hello'') s' = Some (- 1, s' :: uart_emu_st mod_st)"
proof -
  have pre: "plugin_count demo_mod \<noteq> 16" "plugin_at demo_mod (mod_name Mod_hello_load) = None" "\<not> (case Mod_hello_load of Mod_hello_load \<Rightarrow> False | Mod_aura_core_load \<Rightarrow> False)"
    by (simp_all add: demo_mod_facts)
  obtain s1 :: "uart_emu_st mod_st" where s1: "plugin_inv s1"
      "\<forall>k. map_option (\<lambda>p. (p_desc p, p_state p)) (plugin_at s1 k) = (if cstr k = mod_name Mod_hello_load then Some (module_desc Mod_hello_load, PLUGIN_STATE_ACTIVE)
        else map_option (\<lambda>p. (p_desc p, p_state p)) (plugin_at demo_mod k))"
    using loader_load_new [OF uart_emu_console demo_mod_facts(1,3) pre] by (elim exE conjE) (rule that)
  then have s1': "plugin_at s1 (mod_name Mod_hello_load) \<noteq> None" by (metis module_cstr(2) option.map_disc_iff option.distinct(1))
  let ?s = "s1\<lparr>module_registry := registry True True\<rparr>"
  have inv: "plugin_inv ?s" using s1(1) by (simp add: plugin_inv_def)
  obtain p where p: "plugin_at ?s (mod_name Mod_hello_load) = Some p" using s1' by (auto simp: plugin_at_def)
  have r: "module_registry ?s = registry True True" by simp
  have n: "cstr ''other'' \<notin> {''hello'', ''aura_core''}" "length (cstr ''other'') < 24" by (simp_all add: cstr_def)
  have m: "mod_name Mod_hello_load = ''hello''" by (simp add: mod_name_def)
  show ?thesis using loader_unload_stuck [OF inv r p n, of uart_emu] unfolding m by blast
qed

end
