(* ===== verification/Menu.thy ===== *)
theory Menu
  imports Modules
begin

text \<open>
  \<^verbatim>\<open>kernel/menu.c\<close>, the interactive menu, with the two operations of \<^verbatim>\<open>kernel/kernel.c\<close> it calls that stop the
  machine, \<^verbatim>\<open>kernel_panic\<close> and \<^verbatim>\<open>kernel_shutdown\<close>. An operation that may stop the processor has the result type
  \<open>run_result\<close>: after \<^verbatim>\<open>cli; hlt\<close> nothing more runs. The static variable of \<^verbatim>\<open>menu_tick\<close> is the field
  \<open>snap_slot\<close>.
\<close>

section \<open>State\<close>

record 'd menu_st = "'d mod_st" +
  snap_slot :: u8

section \<open>Stopping the machine\<close>

definition cli_hlt :: "('d, 'z) machine_scheme \<Rightarrow> ('d, 'z) machine_scheme run_result option" where
  "cli_hlt s = Some (Halt (s\<lparr>int_flag := False\<rparr>))"

definition kernel_panic :: "'d io_dev \<Rightarrow> string option \<Rightarrow> ('d, 'z) env_st_scheme \<Rightarrow> ('d, 'z) env_st_scheme run_result option" where
  "kernel_panic D msg s =
     do { let s = s\<lparr>g_kernel_state := KERNEL_STATE_PANIC\<rparr>;
          let s = snd (env_save D s);
          s \<leftarrow> Some (vga_set_color VGA_COLOR_WHITE VGA_COLOR_RED s);
          s \<leftarrow> vga_println D (Some (LF # ''*** KERNEL PANIC ***'')) s;
          s \<leftarrow> (if msg \<noteq> None then vga_println D msg s else Some s);
          s \<leftarrow> vga_println D (Some ''System halted.'') s;
          cli_hlt s }"

definition kernel_shutdown :: "'d io_dev \<Rightarrow> ('d, 'z) env_st_scheme \<Rightarrow> ('d, 'z) env_st_scheme run_result option" where
  "kernel_shutdown D s =
     do { let s = s\<lparr>g_kernel_state := KERNEL_STATE_PANIC\<rparr>;
          s \<leftarrow> Some (vga_set_color VGA_COLOR_YELLOW VGA_COLOR_BLACK s);
          s \<leftarrow> vga_println D (Some (LF # ''[Shutdown] Saving environment...'')) s;
          let (r, s) = env_save D s;
          s \<leftarrow> (if r = 0 then vga_println D (Some ''[Shutdown] Environment saved to AIOS.ENV.'') s
               else vga_println D (Some ''[Shutdown] Save skipped (no disk or FAT12 error).'') s);
          s \<leftarrow> vga_println D (Some ''[Shutdown] AI Aura OS halted. Safe to power off.'') s;
          cli_hlt s }"

section \<open>The menu\<close>

definition print_count :: "'d io_dev \<Rightarrow> string \<Rightarrow> u32 \<Rightarrow> ('d, 'z) vga_st_scheme \<Rightarrow> ('d, 'z) vga_st_scheme option" where
  "print_count D label v s =
     do { s \<leftarrow> vga_print D (Some label) s; s \<leftarrow> vga_print_dec D v s; vga_putchar D LF s }"

definition print_bytes :: "'d io_dev \<Rightarrow> string \<Rightarrow> u32 \<Rightarrow> ('d, 'z) vga_st_scheme \<Rightarrow> ('d, 'z) vga_st_scheme option" where
  "print_bytes D label v s =
     do { s \<leftarrow> vga_print D (Some label) s; s \<leftarrow> vga_print_dec D v s; vga_println D (Some '' bytes'') s }"

definition menu_show_status :: "'d io_dev \<Rightarrow> ('d, 'z) sched_st_scheme \<Rightarrow> ('d, 'z) sched_st_scheme option" where
  "menu_show_status D s =
     do { (used, free_b) \<leftarrow> memory_stats s;
          s \<leftarrow> Some (vga_set_color VGA_COLOR_YELLOW VGA_COLOR_BLACK s);
          s \<leftarrow> vga_println D (Some (LF # ''=== System Status ==='')) s;
          s \<leftarrow> Some (vga_set_color VGA_COLOR_WHITE VGA_COLOR_BLACK s);
          s \<leftarrow> print_bytes D ''  Memory Used : '' used s;
          s \<leftarrow> print_bytes D ''  Memory Free : '' free_b s;
          s \<leftarrow> print_count D ''  Plugins     : '' (word_of_int (plugin_count s)) s;
          s \<leftarrow> print_count D ''  Tasks       : '' (word_of_int (scheduler_task_count s)) s;
          print_count D ''  Kernel Tick : '' (g_tick_count s) s }"

definition menu_show_options :: "'d io_dev \<Rightarrow> ('d, 'z) vga_st_scheme \<Rightarrow> ('d, 'z) vga_st_scheme option" where
  "menu_show_options D s =
     do { s \<leftarrow> Some (vga_set_color VGA_COLOR_LIGHT_CYAN VGA_COLOR_BLACK s);
          s \<leftarrow> vga_println D (Some (LF # ''=== Main Menu ==='')) s;
          s \<leftarrow> Some (vga_set_color VGA_COLOR_LIGHT_GREY VGA_COLOR_BLACK s);
          s \<leftarrow> vga_println D (Some ''  [1] Show system status'') s;
          s \<leftarrow> vga_println D (Some ''  [2] List plugins'') s;
          s \<leftarrow> vga_println D (Some ''  [3] List scheduler tasks'') s;
          s \<leftarrow> vga_println D (Some ''  [4] Capture system snapshot'') s;
          s \<leftarrow> vga_println D (Some ''  [5] Dump mirror snapshots'') s;
          s \<leftarrow> vga_println D (Some ''  [6] Memory stats'') s;
          s \<leftarrow> vga_println D (Some ''  [7] List environment variables'') s;
          s \<leftarrow> vga_println D (Some ''  [8] List VFS files'') s;
          s \<leftarrow> vga_println D (Some ''  [9] List loaded modules'') s;
          s \<leftarrow> vga_println D (Some ''  [H] Heartbeat info'') s;
          s \<leftarrow> vga_println D (Some ''  [R] Restore from boot snapshot'') s;
          s \<leftarrow> vga_println D (Some ''  [S] Full system dump (env + VFS + modules)'') s;
          s \<leftarrow> vga_println D (Some ''  [Q] Clean shutdown (saves env to disk)'') s;
          s \<leftarrow> vga_println D (Some ''  [K] Kernel panic (test)'') s;
          s \<leftarrow> Some (vga_set_color VGA_COLOR_DARK_GREY VGA_COLOR_BLACK s);
          s \<leftarrow> vga_println D (Some ''  Press a key to interact...'') s;
          Some (vga_set_color VGA_COLOR_LIGHT_GREEN VGA_COLOR_BLACK s) }"

definition menu_run :: "'d io_dev \<Rightarrow> ('d, 'z) mirror_st_scheme \<Rightarrow> ('d, 'z) mirror_st_scheme option" where
  "menu_run D s =
     do { s \<leftarrow> Some (vga_clear D s);
          s \<leftarrow> menu_draw_banner D s;
          s \<leftarrow> menu_show_status D s;
          s \<leftarrow> menu_show_options D s;
          (r, s) \<leftarrow> mirror_capture 1 ''boot-snapshot'' MIRROR_FLAG_ALL s;
          s \<leftarrow> Some (vga_set_color VGA_COLOR_LIGHT_GREEN VGA_COLOR_BLACK s);
          vga_println D (Some (LF # ''[Aura] OS ready. Entering autonomous kernel loop...'')) s }"

text \<open>The branches of the switch that do more than one call.\<close>

definition menu_snapshot :: "'d io_dev \<Rightarrow> ('d, 'z) menu_st_scheme \<Rightarrow> ('d, 'z) menu_st_scheme option" where
  "menu_snapshot D s =
     do { let s = (if of_nat MIRROR_SLOTS \<le> snap_slot s then s\<lparr>snap_slot := 2\<rparr> else s);
          (r, s) \<leftarrow> mirror_capture (snap_slot s) ''user-snap'' MIRROR_FLAG_ALL s;
          s \<leftarrow> vga_print D (Some ''[Menu] Snapshot captured in slot '') s;
          s \<leftarrow> vga_print_dec D (ucast (snap_slot s)) s;
          s \<leftarrow> vga_putchar D LF s;
          Some (s\<lparr>snap_slot := snap_slot s + 1\<rparr>) }"

definition menu_memory :: "'d io_dev \<Rightarrow> ('d, 'z) menu_st_scheme \<Rightarrow> ('d, 'z) menu_st_scheme option" where
  "menu_memory D s =
     do { (used, free_b) \<leftarrow> memory_stats s;
          s \<leftarrow> print_bytes D ''  Heap used : '' used s;
          print_bytes D ''  Heap free : '' free_b s }"

definition menu_heartbeat :: "'d io_dev \<Rightarrow> ('d, 'z) menu_st_scheme \<Rightarrow> ('d, 'z) menu_st_scheme option" where
  "menu_heartbeat D s =
     do { s \<leftarrow> print_count D ''  Kernel tick : '' (g_tick_count s) s;
          s \<leftarrow> print_count D ''  Plugins     : '' (word_of_int (plugin_count s)) s;
          print_count D ''  Tasks       : '' (word_of_int (scheduler_task_count s)) s }"

definition menu_restore :: "'d io_dev \<Rightarrow> ('d, 'z) menu_st_scheme \<Rightarrow> ('d, 'z) menu_st_scheme option" where
  "menu_restore D s =
     do { s \<leftarrow> vga_println D (Some ''[Menu] Restoring from boot snapshot (slot 1)...'') s;
          map_option snd (mirror_restore D 1 s) }"

definition menu_dump :: "'d io_dev \<Rightarrow> ('d, 'z) menu_st_scheme \<Rightarrow> ('d, 'z) menu_st_scheme option" where
  "menu_dump D s =
     do { s \<leftarrow> Some (vga_set_color VGA_COLOR_YELLOW VGA_COLOR_BLACK s);
          s \<leftarrow> vga_println D (Some (LF # ''=== Full System Dump ==='')) s;
          s \<leftarrow> Some (vga_set_color VGA_COLOR_WHITE VGA_COLOR_BLACK s);
          s \<leftarrow> env_dump_vga D s;
          s \<leftarrow> fs_list_vga D s;
          loader_list_vga D s }"

text \<open>The switch. The cases of \<^verbatim>\<open>k\<close> and \<^verbatim>\<open>q\<close> have no \<^verbatim>\<open>break\<close>; control would fall through if the calls returned.\<close>

definition menu_key :: "'d io_dev \<Rightarrow> char \<Rightarrow> ('d, 'z) menu_st_scheme \<Rightarrow> ('d, 'z) menu_st_scheme run_result option" where
  "menu_key D c s =
     (let ret = map_option Ret;
          default = (\<lambda>s. ret (menu_show_options D s));
          q = (\<lambda>s. and_then (kernel_shutdown D s) default);
          k = (\<lambda>s. and_then (kernel_panic D (Some ''User-triggered test panic from main menu.'') s) q)
      in if c = CHR ''1'' then ret (menu_show_status D s)
         else if c = CHR ''2'' then ret (plugin_list D s)
         else if c = CHR ''3'' then ret (scheduler_list D s)
         else if c = CHR ''4'' then ret (menu_snapshot D s)
         else if c = CHR ''5'' then ret (mirror_dump_all D s)
         else if c = CHR ''6'' then ret (menu_memory D s)
         else if c = CHR ''7'' then ret (env_dump_vga D s)
         else if c = CHR ''8'' then ret (fs_list_vga D s)
         else if c = CHR ''9'' then ret (loader_list_vga D s)
         else if c = CHR ''h'' \<or> c = CHR ''H'' then ret (menu_heartbeat D s)
         else if c = CHR ''r'' \<or> c = CHR ''R'' then ret (menu_restore D s)
         else if c = CHR ''s'' \<or> c = CHR ''S'' then ret (menu_dump D s)
         else if c = CHR ''k'' \<or> c = CHR ''K'' then k s
         else if c = CHR ''q'' \<or> c = CHR ''Q'' then q s
         else default s)"

definition menu_tick :: "'d io_dev \<Rightarrow> ('d, 'z) menu_st_scheme \<Rightarrow> ('d, 'z) menu_st_scheme run_result option" where
  "menu_tick D s =
     (let (c, s) = keyboard_getchar s
      in if c = NUL then Some (Ret s)
         else menu_key D c (vga_set_color VGA_COLOR_LIGHT_GREEN VGA_COLOR_BLACK s))"

section \<open>Listings only draw\<close>

lemma drawn_plugin_list_slot [drawn_intros]: "console_dev D K \<Longrightarrow> drawn K s (plugin_list_slot D p s)"
  unfolding plugin_list_slot_def by (intro drawn_intros)

lemma drawn_plugin_list_loop [drawn_intros]: "console_dev D K \<Longrightarrow> drawn K s (plugin_list_loop D ps s)"
  by (induction ps arbitrary: s) (auto intro!: drawn_intros)

lemma drawn_plugin_list [drawn_intros]: "console_dev D K \<Longrightarrow> drawn K s (plugin_list D s)"
  unfolding plugin_list_def by (intro drawn_intros)

lemma drawn_scheduler_list_slot [drawn_intros]: "console_dev D K \<Longrightarrow> drawn K s (scheduler_list_slot D t s)"
  unfolding scheduler_list_slot_def by (intro drawn_intros)

lemma drawn_scheduler_list_loop [drawn_intros]: "console_dev D K \<Longrightarrow> drawn K s (scheduler_list_loop D ts s)"
  by (induction ts arbitrary: s) (auto intro!: drawn_intros)

lemma drawn_scheduler_list [drawn_intros]: "console_dev D K \<Longrightarrow> drawn K s (scheduler_list D s)"
  unfolding scheduler_list_def by (intro drawn_intros)

lemma drawn_env_dump_loop [drawn_intros]: "console_dev D K \<Longrightarrow> drawn_with K s (env_dump_loop D vs n s)"
  by (induction vs arbitrary: n s) (auto intro!: drawn_intros)

lemma drawn_env_dump [drawn_intros]: "console_dev D K \<Longrightarrow> drawn K s (env_dump_vga D s)"
  unfolding env_dump_vga_def by (intro drawn_intros)

lemma drawn_fs_list_loop [drawn_intros]: "console_dev D K \<Longrightarrow> drawn_with K s (fs_list_loop D ns n s)"
  by (induction ns arbitrary: n s) (auto intro!: drawn_intros)

lemma drawn_fs_list [drawn_intros]: "console_dev D K \<Longrightarrow> drawn K s (fs_list_vga D s)"
  unfolding fs_list_vga_def by (intro drawn_intros)

lemma drawn_mirror_dump [drawn_intros]: "console_dev D K \<Longrightarrow> drawn K s (mirror_dump D slot s)"
  unfolding mirror_dump_def Let_def by (intro drawn_intros)

lemma drawn_mirror_dump_loop [drawn_intros]: "console_dev D K \<Longrightarrow> drawn K s (mirror_dump_loop D is s)"
  by (induction "is" arbitrary: s) (auto intro!: drawn_intros)

lemma drawn_mirror_dump_all [drawn_intros]: "console_dev D K \<Longrightarrow> drawn K s (mirror_dump_all D s)"
  unfolding mirror_dump_all_def by (rule drawn_mirror_dump_loop)

lemma drawn_loader_list_loop [drawn_intros]: "console_dev D K \<Longrightarrow> drawn K s (loader_list_loop D es s)"
  by (induction es arbitrary: s) (auto intro!: drawn_intros)

lemma drawn_loader_list [drawn_intros]: "console_dev D K \<Longrightarrow> drawn K s (loader_list_vga D s)"
  unfolding loader_list_vga_def by (intro drawn_intros)

lemma drawn_print_count [drawn_intros]: "console_dev D K \<Longrightarrow> drawn K s (print_count D l v s)"
  unfolding print_count_def by (intro drawn_intros)

lemma drawn_print_bytes [drawn_intros]: "console_dev D K \<Longrightarrow> drawn K s (print_bytes D l v s)"
  unfolding print_bytes_def by (intro drawn_intros)

lemma drawn_banner [drawn_intros]: "console_dev D K \<Longrightarrow> drawn K s (menu_draw_banner D s)"
  by (rule drawn_draws [OF draws_banner])

lemma drawn_show_options [drawn_intros]: "console_dev D K \<Longrightarrow> drawn K s (menu_show_options D s)"
  unfolding menu_show_options_def by (intro drawn_intros)

lemma drawn_show_status:
  assumes "console_dev D K" "heap_rep s bs"
  shows "drawn K s (menu_show_status D s)"
  unfolding menu_show_status_def memory_stats_rep [OF assms(2)] using assms(1) by (subst bind.bind_lunit, simp only: prod.case, intro drawn_intros)

lemma drawn_menu_memory:
  assumes "console_dev D K" "heap_rep s bs"
  shows "drawn K s (menu_memory D s)"
  unfolding menu_memory_def memory_stats_rep [OF assms(2)] using assms(1) by (subst bind.bind_lunit, simp only: prod.case, intro drawn_intros)

lemma drawn_heartbeat [drawn_intros]: "console_dev D K \<Longrightarrow> drawn K s (menu_heartbeat D s)"
  unfolding menu_heartbeat_def by (intro drawn_intros)

lemma drawn_menu_dump [drawn_intros]: "console_dev D K \<Longrightarrow> drawn K s (menu_dump D s)"
  unfolding menu_dump_def by (intro drawn_intros)

end
