(* ===== verification/Paging.thy ===== *)
theory Paging
  imports Vga
begin

unbundle bit_operations_syntax

text \<open>
  \<^verbatim>\<open>kernel/paging.c\<close>: the page directory and the page table of the first 4 MB, written into physical
  memory, and the control registers that switch paging on. \<open>translate\<close> is the address translation of
  the processor for 4 KB pages (a walk of the directory and the table that gives no address when an
  entry is not present); the property says what the tables mean to it.
\<close>

section \<open>Operations\<close>

abbreviation PDIR_ADDR :: nat where "PDIR_ADDR \<equiv> 0x00280000"
abbreviation PTAB_ADDR :: nat where "PTAB_ADDR \<equiv> 0x00281000"
abbreviation PAGES_4M :: nat where "PAGES_4M \<equiv> 1024"
abbreviation PAGE_SIZE :: nat where "PAGE_SIZE \<equiv> 4096"
abbreviation HEAP_GUARD_LO :: u32 where "HEAP_GUARD_LO \<equiv> of_nat (HEAP_START - PAGE_SIZE)"
abbreviation HEAP_GUARD_HI :: u32 where "HEAP_GUARD_HI \<equiv> of_nat HEAP_END"
abbreviation PTE_PRESENT :: u32 where "PTE_PRESENT \<equiv> 1"
abbreviation PTE_WRITABLE :: u32 where "PTE_WRITABLE \<equiv> 2"

text \<open>The entry the loop body stores for page \<open>i\<close>.\<close>

definition pte_for :: "nat \<Rightarrow> u32" where
  "pte_for i =
     (let phys = of_nat i * of_nat PAGE_SIZE :: u32
      in if phys = HEAP_GUARD_LO then phys
         else if phys = HEAP_GUARD_HI then phys
         else phys OR PTE_PRESENT OR PTE_WRITABLE)"

definition paging_init :: "'d io_dev \<Rightarrow> ('d, 'z) vga_st_scheme \<Rightarrow> ('d, 'z) vga_st_scheme option" where
  "paging_init D s =
     (let s = memset_k (of_nat PDIR_ADDR) 0 (1024 * 4) s;
          s = memset_k (of_nat PTAB_ADDR) 0 (1024 * 4) s;
          s = s\<lparr>mem := fold (\<lambda>i m. wr32 m (PTAB_ADDR + 4 * i) (pte_for i)) [0..<PAGES_4M] (mem s)\<rparr>;
          s = s\<lparr>mem := wr32 (mem s) PDIR_ADDR (of_nat PTAB_ADDR OR PTE_PRESENT OR PTE_WRITABLE)\<rparr>;
          s = s\<lparr>cr3 := of_nat PDIR_ADDR\<rparr>;
          s = s\<lparr>cr4 := cr4 s OR push_bit 4 1\<rparr>;
          s = s\<lparr>cr0 := cr0 s OR push_bit 31 1\<rparr>
      in vga_println D (Some ''[OK] Paging enabled (4 MB identity map, heap guard pages active)'') s)"

section \<open>The address translation of the processor\<close>

definition translate :: "memory \<Rightarrow> u32 \<Rightarrow> u32 \<Rightarrow> u32 option" where
  "translate m dir v =
     (let pde = rd32 m (unat (dir AND NOT 0xFFF) + 4 * unat (drop_bit 22 v))
      in if pde AND PTE_PRESENT = 0 then None
         else let pte = rd32 m (unat (pde AND NOT 0xFFF) + 4 * unat (drop_bit 12 v AND 0x3FF))
              in if pte AND PTE_PRESENT = 0 then None
                 else Some ((pte AND NOT 0xFFF) OR (v AND 0xFFF)))"

section \<open>Lemmas\<close>

lemma page_masks: "(0xFFF :: u32) = mask 12" "(0x3FF :: u32) = mask 10"
  by (simp_all add: mask_eq_exp_minus_1)

lemma page_entry:
  "(push_bit 12 w OR 1 OR 2) AND NOT 0xFFF = (push_bit 12 w :: u32)" "(push_bit 12 w OR 1 OR 2) AND 1 = (1 :: u32)"
  "push_bit 12 w AND 1 = (0 :: u32)"
proof -
  have e: "push_bit 12 w OR 1 OR 2 = push_bit 12 w OR mask 2" by (simp add: or.assoc mask_eq_exp_minus_1)
  have one: "(1 :: u32) = mask 1" by (simp add: mask_eq_exp_minus_1)
  show "(push_bit 12 w OR 1 OR 2) AND NOT 0xFFF = push_bit 12 w"
    unfolding e page_masks by (rule bit_word_eqI) (auto simp: bit_simps)
  have "(push_bit 12 w OR mask 2) AND mask 1 = (mask 1 :: u32)"
    by (rule bit_word_eqI) (auto simp: bit_simps)
  then show "(push_bit 12 w OR 1 OR 2) AND 1 = 1" unfolding e by (simp only: one)
  have "push_bit 12 w AND mask 1 = (0 :: u32)" by (rule bit_word_eqI) (auto simp: bit_simps)
  then show "push_bit 12 w AND 1 = 0" unfolding one .
qed

lemma page_index: "drop_bit 22 v = 0 \<Longrightarrow> push_bit 12 (drop_bit 12 v AND 0x3FF) OR (v AND 0xFFF) = (v :: u32)"
proof (rule bit_word_eqI)
  fix n
  assume z: "drop_bit 22 v = 0" and n: "n < LENGTH(32)"
  have hi: "\<not> bit v n" if "22 \<le> n"
  proof -
    have "\<not> bit (drop_bit 22 v) (n - 22)" unfolding z by simp
    then show ?thesis using that by (simp add: bit_simps)
  qed
  show "bit (push_bit 12 (drop_bit 12 v AND 0x3FF) OR (v AND 0xFFF)) n \<longleftrightarrow> bit v n"
    using n hi unfolding page_masks by (cases "n < 12"; cases "22 \<le> n") (auto simp: bit_simps less_diff_conv2)
qed

lemma ptab_loop:
  "rd32 (fold (\<lambda>i m. wr32 m (a + 4 * i) (f i)) [0..<n] m) (a + 4 * j) = (if j < n then f j else rd32 m (a + 4 * j))"
proof (induction n)
  case 0
  then show ?case by simp
next
  case (Suc n)
  let ?m = "fold (\<lambda>i m. wr32 m (a + 4 * i) (f i)) [0..<n] m"
  have "rd32 (wr32 ?m (a + 4 * n) (f n)) (a + 4 * j) = (if j = n then f n else rd32 ?m (a + 4 * j))"
  proof (cases "j = n")
    case False
    then have "a + 4 * j + 4 \<le> a + 4 * n \<or> a + 4 * n + 4 \<le> a + 4 * j" by linarith
    then show ?thesis using False by (simp add: rd32_wr32_other)
  qed (simp add: rd32_wr32_same)
  then show ?case using Suc by auto
qed

lemma ptab_loop_frame:
  "k < a \<or> a + 4 * n \<le> k \<Longrightarrow> fold (\<lambda>i m. wr32 m (a + 4 * i) (f i)) [0..<n] m k = m k"
  by (induction n) (auto simp: wr32_apply_other)

lemma rd32_zero: "(\<And>k. a \<le> k \<Longrightarrow> k < a + 4 \<Longrightarrow> m k = 0) \<Longrightarrow> rd32 m a = 0"
  by (simp add: rd32_def)

definition page_mem :: "memory \<Rightarrow> memory" where
  "page_mem m =
     wr32 (fold (\<lambda>i m. wr32 m (PTAB_ADDR + 4 * i) (pte_for i)) [0..<PAGES_4M]
       (memset_loop (memset_loop m (of_nat PDIR_ADDR) 0 4096) (of_nat PTAB_ADDR) 0 4096)) PDIR_ADDR 0x00281003"

lemma page_mem_frame: "k < PDIR_ADDR \<or> PDIR_ADDR + 0x2000 \<le> k \<Longrightarrow> page_mem m k = m k"
  unfolding page_mem_def by (auto simp: wr32_apply_other ptab_loop_frame memset_loop_apply simp del: upt_rec_numeral)

lemma page_mem_pte: "i < 1024 \<Longrightarrow> rd32 (page_mem m) (PTAB_ADDR + 4 * i) = pte_for i"
  unfolding page_mem_def by (simp add: rd32_wr32_other ptab_loop del: upt_rec_numeral)

lemma page_mem_pde: "i < 1024 \<Longrightarrow> rd32 (page_mem m) (PDIR_ADDR + 4 * i) = (if i = 0 then 0x00281003 else 0)"
proof (cases "i = 0")
  case True
  then show ?thesis by (simp add: page_mem_def rd32_wr32_same del: upt_rec_numeral)
next
  case False
  assume i: "i < 1024"
  have "page_mem m k = 0" if "PDIR_ADDR + 4 * i \<le> k" "k < PDIR_ADDR + 4 * i + 4" for k
    unfolding page_mem_def using that i False
    by (simp add: wr32_apply_other ptab_loop_frame memset_loop_apply del: upt_rec_numeral)
  then show ?thesis using False by (simp add: rd32_zero)
qed

lemma phys_shift: "of_nat i * of_nat PAGE_SIZE = (push_bit 12 (of_nat i) :: u32)"
  by (simp add: push_bit_eq_mult)

text \<open>The pages just below and just above the heap.\<close>

definition guard_page :: "nat \<Rightarrow> bool" where
  "guard_page i \<longleftrightarrow> i = HEAP_START div PAGE_SIZE - 1 \<or> i = HEAP_END div PAGE_SIZE"

lemma pte_for_eq:
  assumes "i < 1024"
  shows "pte_for i = (if guard_page i then push_bit 12 (of_nat i) else push_bit 12 (of_nat i) OR 1 OR 2)"
proof -
  have eq: "(of_nat (i * PAGE_SIZE) :: u32) = of_nat n \<longleftrightarrow> i * PAGE_SIZE = n" if "n < 2 ^ 32" for n
    using assms that unat_of_nat_u32 [of n] unat_of_nat_u32 [of "i * PAGE_SIZE"]
    by (simp only: word_unat_eq_iff) simp
  have "of_nat i * of_nat PAGE_SIZE = HEAP_GUARD_LO \<longleftrightarrow> i * PAGE_SIZE = HEAP_START - PAGE_SIZE"
    "of_nat i * of_nat PAGE_SIZE = HEAP_GUARD_HI \<longleftrightarrow> i * PAGE_SIZE = HEAP_END"
    using eq [of "HEAP_START - PAGE_SIZE"] eq [of HEAP_END] by simp_all
  then show ?thesis unfolding pte_for_def Let_def phys_shift guard_page_def by auto
qed

lemma translate_page_mem:
  assumes tables: "\<And>k. PDIR_ADDR \<le> k \<Longrightarrow> k < PDIR_ADDR + 0x2000 \<Longrightarrow> m' k = page_mem m k"
  shows "translate m' (of_nat PDIR_ADDR) v =
     (if unat v < 0x400000 \<and> \<not> guard_page (unat v div PAGE_SIZE) then Some v else None)"
proof -
  have d: "unat (of_nat PDIR_ADDR AND NOT (0xFFF :: u32)) = PDIR_ADDR" by simp
  have hi: "unat (drop_bit 22 v) = unat v div 0x400000" by (simp add: drop_bit_eq_div unat_div)
  have hi': "unat (drop_bit 22 v) < 1024" using unsigned_less [of v, where ?'a = nat] by (simp add: hi)
  have pt: "unat (0x00281003 AND NOT (0xFFF :: u32)) = PTAB_ADDR" "(0x00281003 :: u32) AND 1 \<noteq> 0" by simp_all
  have pde: "rd32 m' (PDIR_ADDR + 4 * unat (drop_bit 22 v)) = (if unat (drop_bit 22 v) = 0 then 0x00281003 else 0)"
    unfolding page_mem_pde [OF hi', of m, symmetric] using hi' by (intro rd32_cong tables) simp_all
  show ?thesis
  proof (cases "unat v < 0x400000")
    case False
    then have "unat (drop_bit 22 v) \<noteq> 0" by (simp add: hi)
    then show ?thesis using False pde unfolding translate_def Let_def d by simp
  next
    case True
    then have z: "drop_bit 22 v = 0" by (simp add: word_unat_eq_iff hi)
    let ?i = "unat (drop_bit 12 v AND 0x3FF)"
    have i: "?i = unat v div 4096"
      using True unfolding page_masks
      by (simp add: unsigned_take_bit_eq drop_bit_eq_div unat_div take_bit_nat_eq_self flip: take_bit_eq_mask)
    have i': "?i < 1024" using True by (simp add: i)
    have v: "push_bit 12 (of_nat ?i) OR (v AND 0xFFF) = v" using page_index [OF z] by simp
    have pte: "rd32 m' (PTAB_ADDR + 4 * ?i) = pte_for ?i"
      unfolding page_mem_pte [OF i', of m, symmetric] using i' by (intro rd32_cong tables) simp_all
    have walk: "translate m' (of_nat PDIR_ADDR) v =
        (if pte_for ?i AND 1 = 0 then None else Some ((pte_for ?i AND NOT 0xFFF) OR (v AND 0xFFF)))"
      unfolding translate_def Let_def d using pde z pte pt by simp
    show ?thesis
      unfolding walk pte_for_eq [OF i'] using True v page_entry [of "of_nat ?i"] by (simp add: i)
  qed
qed

section \<open>Properties\<close>

text \<open>C15: switching paging on returns with paging and large-page support enabled and the directory
  installed. The processor then translates every address of the first 4 MB to itself, except those in
  the page below the heap and in the page above it, which fault, as do all addresses from 4 MB on.
  No byte outside the two tables and the text window has changed.\<close>

theorem paging_init_identity:
  assumes "console_ok D dlab sent s"
  shows "\<exists>s'. paging_init D s = Some s' \<and> bit (cr0 s') 31 \<and> bit (cr4 s') 4 \<and>
    (\<forall>v. translate (mem s') (cr3 s') v =
       (if unat v < 0x400000 \<and> unat v div 4096 \<notin> {HEAP_START div 4096 - 1, HEAP_END div 4096} then Some v else None)) \<and>
    (\<forall>k. (k < VGA_BUFFER \<or> VGA_BUFFER + 4000 \<le> k) \<and> (k < PDIR_ADDR \<or> PTAB_ADDR + 4096 \<le> k) \<longrightarrow> mem s' k = mem s k)"
proof -
  let ?msg = "''[OK] Paging enabled (4 MB identity map, heap guard pages active)''"
  define u where "u = s\<lparr>mem := page_mem (mem s), cr3 := of_nat PDIR_ADDR, cr4 := cr4 s OR push_bit 4 1,
    cr0 := cr0 s OR push_bit 31 1\<rparr>"
  have run: "paging_init D s = vga_println D (Some ?msg) u"
    by (simp add: paging_init_def Let_def memset_k_def page_mem_def u_def del: upt_rec_numeral)
  have ok: "console_ok D dlab sent u" using assms by (simp add: console_ok_def vga_ok_def u_def)
  have chars: "vga_println D (Some ?msg) u = vga_put_chars D (cstr ?msg @ [LF]) u"
    by (simp add: vga_println_def vga_print_chars vga_put_chars_append)
  obtain s' where s': "paging_init D s = Some s'" "screen_only u s'"
    using vga_put_chars_refines [OF ok, of "cstr ?msg @ [LF]"] unfolding run chars by blast
  note f = screen_only_fields [OF s'(2)]
  have "translate (mem s') (cr3 s') v =
      (if unat v < 0x400000 \<and> \<not> guard_page (unat v div PAGE_SIZE) then Some v else None)" for v
  proof -
    have "mem s' k = page_mem (mem s) k" if "PDIR_ADDR \<le> k" "k < PDIR_ADDR + 0x2000" for k
      using f(11) [of k] that by (simp add: u_def)
    moreover have "cr3 s' = of_nat PDIR_ADDR" using f(3) by (simp add: u_def)
    ultimately show ?thesis using translate_page_mem [of "mem s'" "mem s" v] by simp
  qed
  moreover have "mem s' k = mem s k"
    if "k < VGA_BUFFER \<or> VGA_BUFFER + 4000 \<le> k" "k < PDIR_ADDR \<or> PTAB_ADDR + 4096 \<le> k" for k
    using f(11) [of k] that page_mem_frame [of k "mem s"] by (simp add: u_def)
  ultimately show ?thesis using s'(1) f(2,4) by (auto simp: u_def guard_page_def bit_simps)
qed

theorem paging_init_identity_witness:
  "\<exists>s'. paging_init uart_emu demo_console = Some s' \<and> translate (mem s') (cr3 s') 0xB8000 = Some 0xB8000 \<and>
    translate (mem s') (cr3 s') 0x1FFFFF = None \<and> translate (mem s') (cr3 s') 0x280000 = None"
  using paging_init_identity [OF demo_console_ok] by auto

end
