(* ===== verification/Pit.thy ===== *)
theory Pit
  imports Idt
begin

unbundle bit_operations_syntax

text \<open>
  \<^verbatim>\<open>kernel/pit.c\<close>: programming channel 0 of the interval timer and the handler of its interrupt. The
  timer is hardware: \<open>pit_ok\<close> states how it takes a command and the two bytes of a reload value,
  \<open>pit_emu\<close> is an emulation.
\<close>

section \<open>Operations\<close>

abbreviation PIT_CHANNEL0 :: u16 where "PIT_CHANNEL0 \<equiv> 0x40"
abbreviation PIT_COMMAND :: u16 where "PIT_COMMAND \<equiv> 0x43"
abbreviation PIT_CMD_CH0 :: u8 where "PIT_CMD_CH0 \<equiv> 0x36"
abbreviation PIT_BASE_HZ :: u32 where "PIT_BASE_HZ \<equiv> 1193182"
abbreviation PIT_FREQUENCY_HZ :: u32 where "PIT_FREQUENCY_HZ \<equiv> 100"

definition pit_irq_handler :: "('d, 'z) idt_st_scheme \<Rightarrow> ('d, 'z) idt_st_scheme" where
  "pit_irq_handler s = s\<lparr>g_tick_count := g_tick_count s + 1\<rparr>"

definition pit_init :: "'d io_dev \<Rightarrow> ('d, 'z) idt_st_scheme \<Rightarrow> ('d, 'z) idt_st_scheme" where
  "pit_init D s =
     (let divisor = PIT_BASE_HZ div PIT_FREQUENCY_HZ;
          divisor = (if 0xFFFF < divisor then 0xFFFF else divisor);
          s = outb D PIT_COMMAND PIT_CMD_CH0 s;
          s = outb D PIT_CHANNEL0 (ucast (divisor AND 0xFF)) s;
          s = outb D PIT_CHANNEL0 (ucast (drop_bit 8 divisor AND 0xFF)) s;
          s = irq_register_handler IRQ_TIMER (Some Pit_irq_handler) s
      in irq_unmask D IRQ_TIMER s)"

section \<open>What the timer does\<close>

record pit_view =
  pit_mode :: u8
  pit_low :: "u8 option"
  pit_reload :: u16

definition pit_ok :: "'d io_dev \<Rightarrow> ('d \<Rightarrow> pit_view) \<Rightarrow> bool" where
  "pit_ok D pv \<longleftrightarrow>
     (\<forall>p d. pv (snd (in8 D p d)) = pv d) \<and>
     (\<forall>v d. v AND 0xC0 = 0 \<longrightarrow> pv (out8 D PIT_COMMAND v d) = (pv d)\<lparr>pit_mode := v, pit_low := None\<rparr>) \<and>
     (\<forall>v d. pv (out8 D PIT_CHANNEL0 v d) =
        (case pit_low (pv d) of
           None \<Rightarrow> (pv d)\<lparr>pit_low := Some v\<rparr>
         | Some lo \<Rightarrow> (pv d)\<lparr>pit_low := None, pit_reload := ucast lo OR push_bit 8 (ucast v)\<rparr>)) \<and>
     (\<forall>p v d. p \<notin> {0x40..0x43} \<longrightarrow> pv (out8 D p v d) = pv d)"

definition pit_emu :: "pit_view io_dev" where
  "pit_emu = \<lparr>in8 = (\<lambda>p d. (0, d)),
     out8 = (\<lambda>p v d. if p = PIT_COMMAND then (if v AND 0xC0 = 0 then d\<lparr>pit_mode := v, pit_low := None\<rparr> else d)
       else if p = PIT_CHANNEL0 then
         (case pit_low d of
            None \<Rightarrow> d\<lparr>pit_low := Some v\<rparr>
          | Some lo \<Rightarrow> d\<lparr>pit_low := None, pit_reload := ucast lo OR push_bit 8 (ucast v)\<rparr>)
       else d),
     in16 = (\<lambda>p d. (0, d)), out16 = (\<lambda>p v d. d)\<rparr>"

lemma pit_emu_ok: "pit_ok pit_emu (\<lambda>d. d)"
  unfolding pit_ok_def by (intro conjI allI impI) (auto simp: pit_emu_def)

lemma pit_laws:
  assumes "pit_ok D pv"
  shows "pv (snd (in8 D p d)) = pv d"
    "v AND 0xC0 = 0 \<Longrightarrow> pv (out8 D PIT_COMMAND v d) = (pv d)\<lparr>pit_mode := v, pit_low := None\<rparr>"
    "pv (out8 D PIT_CHANNEL0 v d) =
        (case pit_low (pv d) of
           None \<Rightarrow> (pv d)\<lparr>pit_low := Some v\<rparr>
         | Some lo \<Rightarrow> (pv d)\<lparr>pit_low := None, pit_reload := ucast lo OR push_bit 8 (ucast v)\<rparr>)"
    "p \<notin> {0x40..0x43} \<Longrightarrow> pv (out8 D p v d) = pv d"
  using assms unfolding pit_ok_def by blast+

section \<open>Properties\<close>

text \<open>The timer ends up in mode 3 with the reload value 11931, the number of input clocks in a tick of
  100 Hz, and the tick handler is registered for interrupt line 0. The handler adds one to the tick
  counter, modulo 2 to the 32, and changes nothing else.\<close>

theorem pit_init_correct:
  assumes "pit_ok D pv" "length (irq_handlers s) = 16"
  shows "pit_reload (pv (dev (pit_init D s))) = 11931 \<and> pit_mode (pv (dev (pit_init D s))) = 0x36 \<and>
    irq_handlers (pit_init D s) ! 0 = Some Pit_irq_handler \<and>
    1193182 div unat (pit_reload (pv (dev (pit_init D s)))) = 100 \<and>
    unat (g_tick_count (pit_irq_handler s)) = (unat (g_tick_count s) + 1) mod 2 ^ 32"
proof -
  have "pit_reload (pv (dev (pit_init D s))) = 11931 \<and> pit_mode (pv (dev (pit_init D s))) = 0x36 \<and>
    irq_handlers (pit_init D s) ! 0 = Some Pit_irq_handler"
    using assms(2)
    by (simp add: pit_init_def irq_unmask_def irq_register_handler_def outb_def inb_def Let_def split_def
        pit_laws [OF assms(1)])
  then show ?thesis by (simp add: pit_irq_handler_def unat_word_ariths)
qed

definition demo_pit :: "pit_view idt_st" where
  "demo_pit = \<lparr>dev = \<lparr>pit_mode = 0, pit_low = None, pit_reload = 0\<rparr>, mem = (\<lambda>_. 0), cr0 = 0, cr2 = 0,
     cr3 = 0, cr4 = 0, idtr = (0, 0), int_flag = False, g_kernel_state = KERNEL_STATE_INIT, g_tick_count = 0,
     heap_head = 0, vga_row = 0, vga_col = 0, vga_color = 0, g_serial_hook = None,
     idt_table = [], irq_handlers = replicate 16 None\<rparr>"

theorem pit_init_correct_witness:
  "pit_reload (dev (pit_init pit_emu demo_pit)) = 11931 \<and> irq_handlers (pit_init pit_emu demo_pit) ! 0 = Some Pit_irq_handler"
  using pit_init_correct [OF pit_emu_ok, of demo_pit] by (simp add: demo_pit_def)

end
