(* ===== verification/Interrupt_Entry.thy ===== *)
theory Interrupt_Entry
  imports Console Pit Keyboard
begin

unbundle bit_operations_syntax

text \<open>
  The way into the kernel for interrupts and exceptions: the assembly stubs and the two trampolines of
  \<^verbatim>\<open>kernel/idt.c\<close>. The stubs are lists of the instructions they consist of, \<open>exec\<close> gives the meaning of an instruction
  on the registers and the stack in physical memory, and \<open>deliver\<close> puts the processor's part in front: it
  pushes flags, code segment and instruction pointer, and an error code for some exceptions, clears the
  interrupt flag and goes where the gate of the vector leads.

  A \<^verbatim>\<open>call\<close> runs the C function with the pointer found on the stack. What compiled C code may leave in the registers
  that the calling convention does not protect, and the address to return to, are the fields of \<open>abi\<close>; a return address
  that was overwritten has no defined continuation, the value \<open>None\<close>. The bit of the interrupt flag in the flags register
  is the field \<open>int_flag\<close> of the machine.
\<close>

section \<open>Registers and instructions\<close>

record cpu_regs =
  r_eax :: u32
  r_ecx :: u32
  r_edx :: u32
  r_ebx :: u32
  r_esp :: u32
  r_ebp :: u32
  r_esi :: u32
  r_edi :: u32
  r_eip :: u32
  r_cs :: u32
  r_eflags :: u32

record abi =
  ab_ret :: u32
  ab_eax :: u32
  ab_ecx :: u32
  ab_edx :: u32
  ab_eflags :: u32

datatype c_function = C_isr_dispatch | C_irq_dispatch

datatype stub_instr = Pushl u32 | Pusha | Lea_eax u32 | Push_eax | Call_c c_function | Add_esp u32 | Popa | Iret

abbreviation EFLAGS_IF :: u32 where "EFLAGS_IF \<equiv> 0x200"

definition flags_word :: "cpu_regs \<Rightarrow> bool \<Rightarrow> u32" where
  "flags_word r f = (r_eflags r AND NOT EFLAGS_IF) OR (if f then EFLAGS_IF else 0)"

definition push32 :: "u32 \<Rightarrow> cpu_regs \<times> ('d, 'z) machine_scheme \<Rightarrow> cpu_regs \<times> ('d, 'z) machine_scheme" where
  "push32 v c = (let (r, s) = c; a = r_esp r - 4 in (r\<lparr>r_esp := a\<rparr>, s\<lparr>mem := wr32 (mem s) (unat a) v\<rparr>))"

text \<open>The word \<open>n\<close> words above the top of the stack.\<close>

definition stack_word :: "cpu_regs \<times> ('d, 'z) machine_scheme \<Rightarrow> nat \<Rightarrow> u32" where
  "stack_word c n = rd32 (mem (snd c)) (unat (r_esp (fst c) + of_nat (4 * n)))"

section \<open>The C functions behind the stubs\<close>

text \<open>The functions an entry of \<^verbatim>\<open>irq_handlers\<close> can point to.\<close>

fun irq_call :: "'d io_dev \<Rightarrow> irq_fn \<Rightarrow> ('d, 'z) kbd_st_scheme \<Rightarrow> ('d, 'z) kbd_st_scheme option" where
  "irq_call D Pit_irq_handler s = Some (pit_irq_handler s)"
| "irq_call D Keyboard_poll s = keyboard_poll D s"

text \<open>Both dispatchers read the structure their argument points to; the report of an exception is written to the text window,
  so that the fields can be read at the start.\<close>

fun c_call ::
    "'d io_dev \<Rightarrow> (irq_fn \<Rightarrow> ('d, 'z) idt_st_scheme \<Rightarrow> ('d, 'z) idt_st_scheme option) \<Rightarrow> c_function \<Rightarrow> u32 \<Rightarrow>
     ('d, 'z) idt_st_scheme \<Rightarrow> ('d, 'z) idt_st_scheme run_result option" where
  "c_call D call C_isr_dispatch f s =
     (let at = (\<lambda>n. rd32 (mem s) (unat (f + n)))
      in isr_dispatch D \<lparr>f_vector = at 0, f_error_code = at 4, f_eip = at 8, f_cs = at 12, f_eflags = at 16\<rparr> s)"
| "c_call D call C_irq_dispatch f s = map_option Ret (irq_dispatch D call (rd32 (mem s) (unat f)) s)"

fun exec ::
    "'d io_dev \<Rightarrow> (irq_fn \<Rightarrow> ('d, 'z) idt_st_scheme \<Rightarrow> ('d, 'z) idt_st_scheme option) \<Rightarrow> abi \<Rightarrow> stub_instr \<Rightarrow>
     cpu_regs \<times> ('d, 'z) idt_st_scheme \<Rightarrow> (cpu_regs \<times> ('d, 'z) idt_st_scheme) run_result option" where
  "exec D call ab (Pushl v) c = Some (Ret (push32 v c))"
| "exec D call ab Pusha c =
     (let r = fst c
      in Some (Ret (push32 (r_edi r) (push32 (r_esi r) (push32 (r_ebp r) (push32 (r_esp r)
           (push32 (r_ebx r) (push32 (r_edx r) (push32 (r_ecx r) (push32 (r_eax r) c))))))))))"
| "exec D call ab (Lea_eax d) (r, s) = Some (Ret (r\<lparr>r_eax := r_esp r + d\<rparr>, s))"
| "exec D call ab Push_eax c = Some (Ret (push32 (r_eax (fst c)) c))"
| "exec D call ab (Call_c f) c =
     (let c = push32 (ab_ret ab) c
      in case c_call D call f (stack_word c 1) (snd c) of
           None \<Rightarrow> None
         | Some (Halt s) \<Rightarrow> Some (Halt (fst c, s))
         | Some (Ret s) \<Rightarrow>
             (if stack_word (fst c, s) 0 \<noteq> ab_ret ab then None
              else Some (Ret ((fst c)\<lparr>r_eax := ab_eax ab, r_ecx := ab_ecx ab, r_edx := ab_edx ab,
                     r_eflags := ab_eflags ab, r_esp := r_esp (fst c) + 4\<rparr>, s))))"
| "exec D call ab (Add_esp d) (r, s) = Some (Ret (r\<lparr>r_esp := r_esp r + d\<rparr>, s))"
| "exec D call ab Popa c =
     Some (Ret ((fst c)\<lparr>r_edi := stack_word c 0, r_esi := stack_word c 1, r_ebp := stack_word c 2, r_ebx := stack_word c 4,
       r_edx := stack_word c 5, r_ecx := stack_word c 6, r_eax := stack_word c 7, r_esp := r_esp (fst c) + 32\<rparr>, snd c))"
| "exec D call ab Iret c =
     Some (Ret ((fst c)\<lparr>r_eip := stack_word c 0, r_cs := stack_word c 1, r_eflags := stack_word c 2 AND NOT EFLAGS_IF,
       r_esp := r_esp (fst c) + 12\<rparr>, (snd c)\<lparr>int_flag := bit (stack_word c 2) 9\<rparr>))"

primrec run_stub ::
    "'d io_dev \<Rightarrow> (irq_fn \<Rightarrow> ('d, 'z) idt_st_scheme \<Rightarrow> ('d, 'z) idt_st_scheme option) \<Rightarrow> abi \<Rightarrow> stub_instr list \<Rightarrow>
     cpu_regs \<times> ('d, 'z) idt_st_scheme \<Rightarrow> (cpu_regs \<times> ('d, 'z) idt_st_scheme) run_result option" where
  "run_stub D call ab [] c = Some (Ret c)"
| "run_stub D call ab (i # is) c = and_then (exec D call ab i c) (run_stub D call ab is)"

section \<open>The stubs\<close>

definition isr_noerr :: "nat \<Rightarrow> stub_instr list" where
  "isr_noerr n = [Pushl 0, Pushl (of_nat n)]"

definition isr_hwerr :: "nat \<Rightarrow> stub_instr list" where
  "isr_hwerr n = [Pushl (of_nat n)]"

definition irq_stub_code :: "nat \<Rightarrow> stub_instr list" where
  "irq_stub_code vec = [Pushl 0, Pushl (of_nat vec)]"

definition isr_common :: "stub_instr list" where
  "isr_common = [Pusha, Lea_eax 32, Push_eax, Call_c C_isr_dispatch, Add_esp 4, Popa, Add_esp 8, Iret]"

definition irq_common :: "stub_instr list" where
  "irq_common = [Pusha, Lea_eax 32, Push_eax, Call_c C_irq_dispatch, Add_esp 4, Popa, Add_esp 8, Iret]"

text \<open>Which macro the source instantiates for which vector; the jump to the trampoline is the concatenation.\<close>

definition isr_code :: "nat \<Rightarrow> stub_instr list" where
  "isr_code n = (if n \<in> {8, 10, 11, 12, 13, 14, 17, 30} then isr_hwerr n else isr_noerr n) @ isr_common"

definition irq_code :: "nat \<Rightarrow> stub_instr list" where
  "irq_code n = irq_stub_code (32 + n) @ irq_common"

section \<open>The processor\<close>

text \<open>An 80386 and its successors push an error code for the exceptions in \<open>error_code_vectors\<close>.\<close>

definition error_code_vectors :: "nat set" where
  "error_code_vectors = {8, 10, 11, 12, 13, 14, 17, 30}"

definition cpu_interrupt :: "nat \<Rightarrow> u32 option \<Rightarrow> cpu_regs \<times> ('d, 'z) idt_st_scheme \<Rightarrow> cpu_regs \<times> ('d, 'z) idt_st_scheme" where
  "cpu_interrupt v err c =
     (let (r, s) = c;
          c = push32 (r_eip r) (push32 (r_cs r) (push32 (flags_word r (int_flag s)) c));
          (r, s) = (case err of None \<Rightarrow> c | Some e \<Rightarrow> push32 e c);
          g = idt_table s ! v
      in (r\<lparr>r_eip := gate_target g, r_cs := ucast (selector g)\<rparr>, s\<lparr>int_flag := False\<rparr>))"

text \<open>\<open>code a\<close> are the instructions from the address \<open>a\<close> on. The linker puts the stubs at the addresses that \<^verbatim>\<open>idt_init\<close> is given.\<close>

definition linked :: "(u32 \<Rightarrow> stub_instr list) \<Rightarrow> (nat \<Rightarrow> u32) \<Rightarrow> (nat \<Rightarrow> u32) \<Rightarrow> bool" where
  "linked code isr irq \<longleftrightarrow> (\<forall>n < 32. code (isr n) = isr_code n) \<and> (\<forall>n < 16. code (irq n) = irq_code n)"

definition deliver ::
    "'d io_dev \<Rightarrow> (irq_fn \<Rightarrow> ('d, 'z) idt_st_scheme \<Rightarrow> ('d, 'z) idt_st_scheme option) \<Rightarrow> abi \<Rightarrow> (u32 \<Rightarrow> stub_instr list) \<Rightarrow> nat \<Rightarrow> u32 option \<Rightarrow>
     cpu_regs \<times> ('d, 'z) idt_st_scheme \<Rightarrow> (cpu_regs \<times> ('d, 'z) idt_st_scheme) run_result option" where
  "deliver D call ab code v err c =
     (let c = cpu_interrupt v err c in run_stub D call ab (code (r_eip (fst c))) c)"

section \<open>The stack of an entry\<close>

lemma unat_above_nat: "unat w + 60 < 2 ^ 32 \<Longrightarrow> k \<le> 60 \<Longrightarrow> unat (w + of_nat k :: u32) = unat w + k"
  by (simp add: unat_word_ariths unat_of_nat)

lemma unat_above:
  assumes "unat w + 60 < 2 ^ 32"
  shows "unat (w + 4 :: u32) = unat w + 4" "unat (w + 8) = unat w + 8" "unat (w + 12) = unat w + 12" "unat (w + 16) = unat w + 16"
    "unat (w + 20) = unat w + 20" "unat (w + 24) = unat w + 24" "unat (w + 28) = unat w + 28" "unat (w + 32) = unat w + 32"
    "unat (w + 36) = unat w + 36" "unat (w + 40) = unat w + 40" "unat (w + 44) = unat w + 44" "unat (w + 48) = unat w + 48"
    "unat (w + 52) = unat w + 52" "unat (w + 56) = unat w + 56" "unat (w + 60) = unat w + 60"
  using unat_above_nat [OF assms, of 4] unat_above_nat [OF assms, of 8] unat_above_nat [OF assms, of 12] unat_above_nat [OF assms, of 16]
    unat_above_nat [OF assms, of 20] unat_above_nat [OF assms, of 24] unat_above_nat [OF assms, of 28] unat_above_nat [OF assms, of 32]
    unat_above_nat [OF assms, of 36] unat_above_nat [OF assms, of 40] unat_above_nat [OF assms, of 44] unat_above_nat [OF assms, of 48]
    unat_above_nat [OF assms, of 52] unat_above_nat [OF assms, of 56] unat_above_nat [OF assms, of 60]
  by simp_all

lemma esp_base:
  assumes "60 \<le> unat (e :: u32)"
  obtains w where "e = w + 60" "unat e = unat w + 60" "unat w + 60 < 2 ^ 32"
proof
  show "e = (e - 60) + 60" by simp
  have "(60 :: u32) \<le> e" using assms by (simp add: word_le_nat_alt)
  then show eq: "unat e = unat (e - 60) + 60" using assms by (simp add: unat_sub)
  have "unat e < 2 ^ 32" by (rule order.strict_trans2 [OF unsigned_less]) simp
  then show "unat (e - 60) + 60 < 2 ^ 32" unfolding eq .
qed

lemmas stub_simps = push32_def stack_word_def Let_def split_def

lemma flags_word_bit: "bit (flags_word r f) 9 = f"
proof -
  have "EFLAGS_IF = push_bit 9 1" by simp
  then show ?thesis unfolding flags_word_def by (simp add: bit_simps)
qed

lemma flags_word_rest: "flags_word r f AND NOT EFLAGS_IF = r_eflags r AND NOT EFLAGS_IF"
  by (rule bit_word_eqI) (auto simp: flags_word_def bit_simps)

lemma and_not_disjoint: "x AND y = 0 \<Longrightarrow> x AND NOT y = (x :: u32)"
proof -
  assume "x AND y = 0"
  moreover have "(x AND y) OR (x AND NOT y) = x" by (simp flip: bit.conj_disj_distrib)
  ultimately show ?thesis by simp
qed

lemma run_stub_append: "run_stub D call ab (xs @ ys) c = and_then (run_stub D call ab xs c) (run_stub D call ab ys)"
proof (induction xs arbitrary: c)
  case (Cons i xs)
  then have "run_stub D call ab (xs @ ys) = (\<lambda>c. and_then (run_stub D call ab xs c) (run_stub D call ab ys))" by (rule ext)
  then show ?case by (simp add: and_then_assoc)
qed simp

text \<open>The 14 words below the interrupted code's stack pointer at the time of the call, and the return address; \<open>w\<close> is the lowest address.\<close>

definition entry_frame :: "abi \<Rightarrow> u32 \<Rightarrow> cpu_regs \<Rightarrow> bool \<Rightarrow> u32 \<Rightarrow> u32 \<Rightarrow> memory \<Rightarrow> memory" where
  "entry_frame ab w r f err v m =
     fold (\<lambda>(k, x) m. wr32 m (unat w + k) x)
       [(56, flags_word r f), (52, r_cs r), (48, r_eip r), (44, err), (40, v), (36, r_eax r), (32, r_ecx r), (28, r_edx r), (24, r_ebx r),
        (20, w + 40), (16, r_ebp r), (12, r_esi r), (8, r_edi r), (4, w + 40), (0, ab_ret ab)] m"

lemma entry_frame_other: "a < unat w \<or> unat w + 60 \<le> a \<Longrightarrow> entry_frame ab w r f err v m a = m a"
  unfolding entry_frame_def by (auto simp: mem_simps)

lemma entry_frame_words:
  "rd32 (entry_frame ab w r f err v m) (unat w + 56) = flags_word r f" "rd32 (entry_frame ab w r f err v m) (unat w + 52) = r_cs r"
  "rd32 (entry_frame ab w r f err v m) (unat w + 48) = r_eip r" "rd32 (entry_frame ab w r f err v m) (unat w + 44) = err"
  "rd32 (entry_frame ab w r f err v m) (unat w + 40) = v" "rd32 (entry_frame ab w r f err v m) (unat w + 36) = r_eax r"
  "rd32 (entry_frame ab w r f err v m) (unat w + 32) = r_ecx r" "rd32 (entry_frame ab w r f err v m) (unat w + 28) = r_edx r"
  "rd32 (entry_frame ab w r f err v m) (unat w + 24) = r_ebx r" "rd32 (entry_frame ab w r f err v m) (unat w + 16) = r_ebp r"
  "rd32 (entry_frame ab w r f err v m) (unat w + 12) = r_esi r" "rd32 (entry_frame ab w r f err v m) (unat w + 8) = r_edi r"
  "rd32 (entry_frame ab w r f err v m) (unat w + 4) = w + 40" "rd32 (entry_frame ab w r f err v m) (unat w) = ab_ret ab"
  unfolding entry_frame_def by (simp_all add: mem_simps)

text \<open>The registers when the C function is called.\<close>

definition entry_regs :: "u32 \<Rightarrow> idt_entry_t \<Rightarrow> cpu_regs \<Rightarrow> cpu_regs" where
  "entry_regs w g r = r\<lparr>r_esp := w, r_eax := w + 40, r_eip := gate_target g, r_cs := ucast (selector g)\<rparr>"

lemma stub_to_call:
  assumes w: "r_esp r = w + 60" "unat w + 60 < 2 ^ 32"
    and x: "(err = None \<and> xs = [Pushl 0, Pushl v]) \<or> (err \<noteq> None \<and> xs = [Pushl v])"
  shows "run_stub D call ab (xs @ [Pusha, Lea_eax 32, Push_eax, Call_c f] @ ys) (cpu_interrupt n err (r, s)) =
    (let m = entry_frame ab w r (int_flag s) (case err of None \<Rightarrow> 0 | Some e \<Rightarrow> e) v (mem s); q = entry_regs w (idt_table s ! n) r
     in case c_call D call f (w + 40) (s\<lparr>mem := m, int_flag := False\<rparr>) of
          None \<Rightarrow> None
        | Some (Halt t) \<Rightarrow> Some (Halt (q, t))
        | Some (Ret t) \<Rightarrow>
            (if rd32 (mem t) (unat w) \<noteq> ab_ret ab then None
             else run_stub D call ab ys (q\<lparr>r_eax := ab_eax ab, r_ecx := ab_ecx ab, r_edx := ab_edx ab, r_eflags := ab_eflags ab, r_esp := w + 4\<rparr>, t)))"
proof -
  note u = unat_above [OF w(2)] unat_above [OF w(2), unfolded add.commute [of w]]
  let ?m = "entry_frame ab w r (int_flag s) (case err of None \<Rightarrow> 0 | Some e \<Rightarrow> e) v (mem s)"
  let ?q = "entry_regs w (idt_table s ! n) r"
  have "run_stub D call ab (xs @ [Pusha, Lea_eax 32, Push_eax]) (cpu_interrupt n err (r, s)) = Some (Ret c) \<Longrightarrow>
      push32 (ab_ret ab) c = (?q, s\<lparr>mem := ?m, int_flag := False\<rparr>)" for c
    using x by (auto simp: cpu_interrupt_def entry_frame_def entry_regs_def stub_simps w(1) u add.commute)
  moreover obtain c where c: "run_stub D call ab (xs @ [Pusha, Lea_eax 32, Push_eax]) (cpu_interrupt n err (r, s)) = Some (Ret c)"
    using x by (cases "cpu_interrupt n err (r, s)") (auto simp: stub_simps)
  ultimately have p: "push32 (ab_ret ab) c = (?q, s\<lparr>mem := ?m, int_flag := False\<rparr>)" by blast
  have a: "stack_word (?q, s\<lparr>mem := ?m, int_flag := False\<rparr>) 1 = w + 40" "stack_word (?q, t) 0 = rd32 (mem t) (unat w)" for t :: "('a, 'b) idt_st_scheme"
    by (simp_all add: stack_word_def entry_regs_def u entry_frame_words)
  have "run_stub D call ab (xs @ [Pusha, Lea_eax 32, Push_eax, Call_c f] @ ys) (cpu_interrupt n err (r, s)) = and_then (exec D call ab (Call_c f) c) (run_stub D call ab ys)"
    using run_stub_append [of D call ab "xs @ [Pusha, Lea_eax 32, Push_eax]" "Call_c f # ys"] c by simp
  then show ?thesis unfolding exec.simps p Let_def fst_conv snd_conv a
    by (simp add: entry_regs_def split: option.split run_result.split)
qed

text \<open>The way back: the trampoline restores all registers from the frame, if the C function left it alone.\<close>

lemma stub_return:
  assumes w: "r_esp r = w + 60" "unat w + 60 < 2 ^ 32" and m: "mem t = entry_frame ab w r f err v m"
    and q: "r_esp q = w + 4"
  shows "run_stub D call ab [Add_esp 4, Popa, Add_esp 8, Iret] (q, t) =
    Some (Ret (r\<lparr>r_eflags := r_eflags r AND NOT EFLAGS_IF\<rparr>, t\<lparr>int_flag := f\<rparr>))"
proof -
  note u = unat_above [OF w(2)] unat_above [OF w(2), unfolded add.commute [of w]]
  show ?thesis
    by (cases r; cases q) (use q w in \<open>simp add: stack_word_def u m entry_frame_words flags_word_bit flags_word_rest [simplified] add.commute\<close>)
qed

section \<open>The interrupt handlers\<close>

lemma kb_push_machine:
  "kb_push c (s\<lparr>mem := m\<rparr>) = (kb_push c s)\<lparr>mem := m\<rparr>" "kb_push c (s\<lparr>int_flag := f\<rparr>) = (kb_push c s)\<lparr>int_flag := f\<rparr>"
  by (simp_all add: kb_push_def)

lemma kb_scancode_machine:
  "kb_scancode sc (s\<lparr>mem := m\<rparr>) = (kb_scancode sc s)\<lparr>mem := m\<rparr>" "kb_scancode sc (s\<lparr>int_flag := f\<rparr>) = (kb_scancode sc s)\<lparr>int_flag := f\<rparr>"
  by (simp_all add: kb_scancode_def Let_def kb_push_machine)

lemma fold_scancode_machine:
  "fold kb_scancode scs (s\<lparr>mem := m\<rparr>) = (fold kb_scancode scs s)\<lparr>mem := m\<rparr>"
  "fold kb_scancode scs (s\<lparr>int_flag := f\<rparr>) = (fold kb_scancode scs s)\<lparr>int_flag := f\<rparr>"
  by (induction scs arbitrary: s) (simp_all add: kb_scancode_machine)

text \<open>The table the drivers register: the timer on line 0, the keyboard on line 1.\<close>

definition driver_handlers :: "irq_fn option list" where
  "driver_handlers = [Some Pit_irq_handler, Some Keyboard_poll] @ replicate 14 None"

text \<open>What an interrupt on line \<open>n\<close> does when the keyboard controller holds the scancodes \<open>scs\<close>.\<close>

definition irq_effect :: "'d io_dev \<Rightarrow> u8 list \<Rightarrow> 'd \<Rightarrow> nat \<Rightarrow> ('d, 'z) kbd_st_scheme \<Rightarrow> ('d, 'z) kbd_st_scheme" where
  "irq_effect D scs d' n s =
     irq_send_eoi D (of_nat n)
       (if n = 0 then pit_irq_handler s else if n = 1 then (fold kb_scancode scs s)\<lparr>dev := d'\<rparr> else s)"

lemma irq_dispatch_effect:
  assumes feed: "kbd_feed D (dev s) scs d'" and h: "irq_handlers s = driver_handlers" and n: "n < 16"
  shows "irq_dispatch D (irq_call D) (of_nat (32 + n)) s = Some (irq_effect D scs d' n s)"
proof -
  have "of_nat (32 + n) - ucast IRQ_BASE = (of_nat n :: u32)" by simp
  moreover have "ucast (of_nat n :: u32) = (of_nat n :: u8)" using n by (simp add: unsigned_of_nat take_bit_nat_eq_self)
  moreover have u: "unat (of_nat n :: u8) = n" "(of_nat n :: u8) < 16" using n by (simp_all add: unat_of_nat word_less_nat_alt)
  moreover have "irq_handlers s ! n = (if n = 0 then Some Pit_irq_handler else if n = 1 then Some Keyboard_poll else None)"
    using n unfolding h driver_handlers_def by (auto simp: nth_append nth_Cons split: nat.split)
  ultimately show ?thesis using keyboard_poll_feed [OF feed refl]
    by (simp add: irq_dispatch_def irq_effect_def Let_def)
qed

lemma irq_effect_machine:
  "irq_effect D scs d' n (s\<lparr>mem := m\<rparr>) = (irq_effect D scs d' n s)\<lparr>mem := m\<rparr>"
  "irq_effect D scs d' n (s\<lparr>int_flag := f\<rparr>) = (irq_effect D scs d' n s)\<lparr>int_flag := f\<rparr>"
  by (simp_all add: irq_effect_def irq_send_eoi_def Let_def outb_def pit_irq_handler_def fold_scancode_machine)

section \<open>The report of an exception\<close>

definition isr_report :: "u32 \<Rightarrow> isr_frame \<Rightarrow> string" where
  "isr_report fault f =
     (if f_vector f = 14
      then (LF # ''[CPU] Page Fault at 0x'') @ hex_string fault @ ''  eip=0x'' @ hex_string (f_eip f) @ ''  err=0x'' @ hex_string (f_error_code f)
      else (LF # ''[CPU] Exception '') @ dec_string (unat (f_vector f)) @ ''  err=0x'' @ hex_string (f_error_code f) @ ''  eip=0x'' @ hex_string (f_eip f)) @ [LF]"

lemma literal_chars:
  "cstr (LF # ''[CPU] Page Fault at 0x'') = LF # ''[CPU] Page Fault at 0x''" "cstr (LF # ''[CPU] Exception '') = LF # ''[CPU] Exception ''"
  "cstr ''  eip=0x'' = ''  eip=0x''" "cstr ''  err=0x'' = ''  err=0x''"
  by (simp_all add: cstr_def)

lemma console_only_cr2: "console_only K s t \<Longrightarrow> cr2 t = cr2 s"
  by (auto simp: console_only_def)

lemma isr_dispatch_report:
  assumes D: "console_dev D K"
  shows "\<exists>u. vga_put_chars D (isr_report (cr2 s) f) (vga_set_color VGA_COLOR_WHITE VGA_COLOR_RED s) = Some u \<and>
    isr_dispatch D f s = Some (Halt (u\<lparr>int_flag := False\<rparr>))"
proof -
  let ?c = "vga_set_color VGA_COLOR_WHITE VGA_COLOR_RED s"
  obtain u where u: "vga_put_chars D (isr_report (cr2 s) f) ?c = Some u" using drawsD [OF draws_put_chars [OF D]] by blast
  have cr2: "cr2 t = cr2 s" if "vga_put_chars D xs ?c = Some t" for xs t
    using drawsD [OF draws_put_chars [OF D, of xs], of ?c] that console_only_cr2 [of K ?c t] by (auto simp: vga_set_color_def)
  have "isr_dispatch D f s = do { u \<leftarrow> vga_put_chars D (isr_report (cr2 s) f) ?c; Some (Halt (u\<lparr>int_flag := False\<rparr>)) }"
  proof (cases "f_vector f = 14")
    case True
    obtain t where t: "vga_put_chars D (LF # ''[CPU] Page Fault at 0x'') ?c = Some t" using drawsD [OF draws_put_chars [OF D]] by blast
    show ?thesis using cr2 [OF t] t True
      unfolding isr_dispatch_def isr_report_def vga_println_def vga_print_chars vga_print_hex_chars vga_putchar_chars literal_chars
      by (simp add: vga_put_chars_append Option.bind_assoc cstr_def del: vga_put_chars.simps(2) append_Cons)
  next
    case False
    then show ?thesis
      unfolding isr_dispatch_def isr_report_def vga_println_def vga_print_chars vga_print_hex_chars vga_print_dec_chars vga_putchar_chars literal_chars
      by (simp add: vga_put_chars_append Option.bind_assoc cstr_def del: vga_put_chars.simps(2) append_Cons)
  qed
  then show ?thesis using u by simp
qed

section \<open>An example machine\<close>

definition demo_code :: "u32 \<Rightarrow> stub_instr list" where
  "demo_code a = (if a < 0x2000 then isr_code (unat (a - 0x1000)) else irq_code (unat (a - 0x2000)))"

lemma demo_code_linked: "linked demo_code (\<lambda>n. 0x1000 + of_nat n) (\<lambda>n. 0x2000 + of_nat n)"
proof -
  have u: "unat (of_nat n :: u32) = n" if "n < 32" for n using that by (simp add: unat_of_nat)
  have "(0x1000 + of_nat n :: u32) < 0x2000" "\<not> (0x2000 + of_nat n :: u32) < 0x2000" if "n < 32" for n
    using that by (simp_all add: word_less_nat_alt unat_word_ariths u)
  then show ?thesis unfolding linked_def demo_code_def by (auto simp: u)
qed

definition demo_regs :: cpu_regs where
  "demo_regs = \<lparr>r_eax = 1, r_ecx = 2, r_edx = 3, r_ebx = 4, r_esp = 0x8FF00, r_ebp = 0x8FF80, r_esi = 5, r_edi = 6,
     r_eip = 0x101234, r_cs = 8, r_eflags = 0x46\<rparr>"

definition demo_abi :: abi where
  "demo_abi = \<lparr>ab_ret = 0x3000, ab_eax = 0xFFFF, ab_ecx = 0xFFFF, ab_edx = 0xFFFF, ab_eflags = 0\<rparr>"

definition demo_entry :: "'d \<Rightarrow> 'd kbd_st" where
  "demo_entry d = \<lparr>dev = d, mem = (\<lambda>_. 0), cr0 = 0, cr2 = 0x27F004,
     cr3 = 0, cr4 = 0, idtr = (0, 0), int_flag = True, g_kernel_state = KERNEL_STATE_RUN, g_tick_count = 41,
     heap_head = 0, vga_row = 0, vga_col = 0, vga_color = 0, g_serial_hook = None,
     idt_table = map (\<lambda>n. gate_for (if n < 32 then 0x1000 + of_nat n else 0x2000 + of_nat (n - 32))) [0..<256],
     irq_handlers = driver_handlers, shift_held = False, caps_active = False,
     kb_buf = replicate 32 NUL, kb_head = 0, kb_tail = 0, kb_count = 0\<rparr>"

section \<open>Properties\<close>

text \<open>C4: a hardware interrupt is invisible to the code it interrupts. When line \<open>n\<close> is raised, the processor, the stub, the
  trampoline and the handler run to the end and give control back at the interrupted instruction with every
  register, the stack pointer, the flags and the interrupt flag as they were; the memory changes in the 60 bytes below the stack pointer only. In between
  exactly the handler of that line has run (the timer counts a tick, the keyboard driver takes in the scancodes
  that are waiting) and the end of the interrupt has been signalled to the controllers.\<close>

theorem irq_entry_transparent:
  assumes feed: "kbd_feed D (dev s) scs d'" and h: "irq_handlers s = driver_handlers" and n: "n < 16"
    and link: "linked code isr irq" "gate_target (idt_table s ! (32 + n)) = irq n"
    and r: "60 \<le> unat (r_esp r)" "r_eflags r AND EFLAGS_IF = 0"
  shows "\<exists>m. (\<forall>a. a < unat (r_esp r) - 60 \<or> unat (r_esp r) \<le> a \<longrightarrow> m a = mem s a) \<and>
    deliver D (irq_call D) ab code (32 + n) None (r, s) = Some (Ret (r, (irq_effect D scs d' n s)\<lparr>mem := m\<rparr>))"
proof -
  obtain w where w: "r_esp r = w + 60" "unat (r_esp r) = unat w + 60" "unat w + 60 < 2 ^ 32" using esp_base [OF r(1)] .
  let ?v = "of_nat (32 + n) :: u32"
  let ?m = "entry_frame ab w r (int_flag s) 0 ?v (mem s)"
  let ?s = "s\<lparr>mem := ?m, int_flag := False\<rparr>"
  let ?t = "irq_effect D scs d' n ?s"
  have t: "?t = (irq_effect D scs d' n s)\<lparr>mem := ?m, int_flag := False\<rparr>" by (simp only: irq_effect_machine)
  have run: "irq_dispatch D (irq_call D) ?v ?s = Some ?t" using feed h n by (intro irq_dispatch_effect) simp_all
  have v: "rd32 ?m (unat (w + 40)) = ?v" by (simp only: unat_above [OF w(3)] entry_frame_words)
  have call: "c_call D (irq_call D) C_irq_dispatch (w + 40) ?s = Some (Ret ?t)" using v run by simp
  have ret: "rd32 (mem ?t) (unat w) = ab_ret ab" unfolding t by (simp add: entry_frame_words)
  have "code (r_eip (fst (cpu_interrupt (32 + n) None (r, s)))) = [Pushl 0, Pushl ?v] @ [Pusha, Lea_eax 32, Push_eax, Call_c C_irq_dispatch] @ [Add_esp 4, Popa, Add_esp 8, Iret]"
    using link n by (simp add: cpu_interrupt_def push32_def Let_def linked_def irq_code_def irq_stub_code_def irq_common_def)
  then have "deliver D (irq_call D) ab code (32 + n) None (r, s) =
      run_stub D (irq_call D) ab [Add_esp 4, Popa, Add_esp 8, Iret] ((entry_regs w (idt_table s ! (32 + n)) r)\<lparr>r_eax := ab_eax ab,
        r_ecx := ab_ecx ab, r_edx := ab_edx ab, r_eflags := ab_eflags ab, r_esp := w + 4\<rparr>, ?t)"
    unfolding deliver_def Let_def by (simp only: stub_to_call [OF w(1,3) disjI1 [OF conjI [OF refl refl]]] Let_def option.case call run_result.case ret simp_thms if_False)
  also have "\<dots> = Some (Ret (r\<lparr>r_eflags := r_eflags r AND NOT EFLAGS_IF\<rparr>, ?t\<lparr>int_flag := int_flag s\<rparr>))"
  proof (rule stub_return [OF w(1,3), of _ ab "int_flag s" 0 ?v "mem s"])
    show "mem ?t = ?m" unfolding t by simp
  qed simp
  finally have "deliver D (irq_call D) ab code (32 + n) None (r, s) = Some (Ret (r\<lparr>r_eflags := r_eflags r AND NOT EFLAGS_IF\<rparr>, ?t\<lparr>int_flag := int_flag s\<rparr>))" .
  moreover have "r\<lparr>r_eflags := r_eflags r AND NOT EFLAGS_IF\<rparr> = r"
  proof -
    have "r_eflags r AND NOT EFLAGS_IF = r_eflags r" by (rule and_not_disjoint [OF r(2)])
    then show ?thesis by simp
  qed
  moreover have "?t\<lparr>int_flag := int_flag s\<rparr> = (irq_effect D scs d' n s)\<lparr>mem := ?m\<rparr>"
  proof -
    have "(irq_effect D scs d' n s)\<lparr>int_flag := int_flag s\<rparr> = irq_effect D scs d' n s"
      using irq_effect_machine(2) [where s = s and f = "int_flag s" and n = n] by simp
    then have f: "int_flag (irq_effect D scs d' n s) = int_flag s" by (metis machine.select_convs(8) machine.surjective machine.update_convs(8))
    show ?thesis unfolding t by (cases "irq_effect D scs d' n s") (use f in simp)
  qed
  ultimately show ?thesis using entry_frame_other [of _ w ab r "int_flag s" 0 ?v "mem s"] w(2) by (intro exI [of _ ?m]) simp
qed

theorem irq_entry_transparent_witness:
  "\<exists>m. deliver kbd_emu (irq_call kbd_emu) demo_abi demo_code 32 None (demo_regs, demo_entry [0x1E]) =
     Some (Ret (demo_regs, (demo_entry [0x1E])\<lparr>g_tick_count := 42, mem := m\<rparr>))"
proof -
  let ?s = "demo_entry [0x1E] :: u8 list kbd_st"
  have f: "kbd_feed kbd_emu (dev ?s) [0x1E] []" "irq_handlers ?s = driver_handlers" "(0 :: nat) < 16" "60 \<le> unat (r_esp demo_regs)" "r_eflags demo_regs AND EFLAGS_IF = 0"
    using kbd_emu_feed [of "[0x1E]"] by (simp_all add: demo_entry_def demo_regs_def)
  have "idt_table ?s ! 32 = gate_for (0x2000 + of_nat 0)" by (simp add: demo_entry_def)
  then have g: "gate_target (idt_table ?s ! (32 + 0)) = 0x2000 + of_nat 0" by (simp only: gate_target_gate_for add_0_right)
  obtain m where "deliver kbd_emu (irq_call kbd_emu) demo_abi demo_code (32 + 0) None (demo_regs, ?s) = Some (Ret (demo_regs, (irq_effect kbd_emu [0x1E] [] 0 ?s)\<lparr>mem := m\<rparr>))"
    using irq_entry_transparent [OF f(1-3) demo_code_linked g f(4,5), of demo_abi] by blast
  moreover have "irq_effect kbd_emu [0x1E] [] 0 ?s = ?s\<lparr>g_tick_count := 42\<rparr>"
    by (simp add: irq_effect_def pit_irq_handler_def irq_send_eoi_def outb_def kbd_emu_def demo_entry_def)
  ultimately show ?thesis by (intro exI [of _ m]) simp
qed

text \<open>C19: an exception is reported with its own vector, error code and instruction address, and the processor stops. The stubs
  find the words in their places whether or not the processor pushes an error code for the vector: without one
  the report shows 0. For a page fault the report shows the faulting address. The interrupt flag is clear afterwards.\<close>

theorem exception_entry_reports:
  assumes D: "console_dev D K" and v: "v < 32" "err \<noteq> None \<longleftrightarrow> v \<in> error_code_vectors"
    and link: "linked code isr irq" "gate_target (idt_table s ! v) = isr v" and r: "60 \<le> unat (r_esp r)"
  shows "\<exists>m q u. (\<forall>a. a < unat (r_esp r) - 60 \<or> unat (r_esp r) \<le> a \<longrightarrow> m a = mem s a) \<and>
    vga_put_chars D
      (isr_report (cr2 s) \<lparr>f_vector = of_nat v, f_error_code = (case err of None \<Rightarrow> 0 | Some e \<Rightarrow> e), f_eip = r_eip r, f_cs = r_cs r, f_eflags = flags_word r (int_flag s)\<rparr>)
      (vga_set_color VGA_COLOR_WHITE VGA_COLOR_RED (s\<lparr>mem := m, int_flag := False\<rparr>)) = Some u \<and>
    deliver D call ab code v err (r, s) = Some (Halt (q, u\<lparr>int_flag := False\<rparr>))"
proof -
  obtain w where w: "r_esp r = w + 60" "unat (r_esp r) = unat w + 60" "unat w + 60 < 2 ^ 32" using esp_base [OF r] .
  let ?e = "case err of None \<Rightarrow> 0 | Some e \<Rightarrow> e"
  let ?m = "entry_frame ab w r (int_flag s) ?e (of_nat v) (mem s)"
  let ?s = "s\<lparr>mem := ?m, int_flag := False\<rparr>"
  let ?f = "\<lparr>f_vector = of_nat v, f_error_code = ?e, f_eip = r_eip r, f_cs = r_cs r, f_eflags = flags_word r (int_flag s)\<rparr>"
  obtain u where u: "vga_put_chars D (isr_report (cr2 ?s) ?f) (vga_set_color VGA_COLOR_WHITE VGA_COLOR_RED ?s) = Some u"
    "isr_dispatch D ?f ?s = Some (Halt (u\<lparr>int_flag := False\<rparr>))" using isr_dispatch_report [OF D] by blast
  note a = unat_above [OF w(3)] unat_above [OF w(3), unfolded add.commute [of w]]
  have "c_call D call C_isr_dispatch (w + 40) ?s = isr_dispatch D ?f ?s" by (simp add: Let_def a entry_frame_words)
  then have call: "c_call D call C_isr_dispatch (w + 40) ?s = Some (Halt (u\<lparr>int_flag := False\<rparr>))" using u(2) by simp
  let ?xs = "if err = None then [Pushl 0, Pushl (of_nat v)] else [Pushl (of_nat v)]"
  have x: "err = None \<and> ?xs = [Pushl 0, Pushl (of_nat v)] \<or> err \<noteq> None \<and> ?xs = [Pushl (of_nat v)]" by simp
  have "code (r_eip (fst (cpu_interrupt v err (r, s)))) = ?xs @ [Pusha, Lea_eax 32, Push_eax, Call_c C_isr_dispatch] @ [Add_esp 4, Popa, Add_esp 8, Iret]"
    using link v by (auto simp: cpu_interrupt_def push32_def Let_def linked_def isr_code_def isr_hwerr_def isr_noerr_def isr_common_def error_code_vectors_def split: option.splits)
  then have "deliver D call ab code v err (r, s) = Some (Halt (entry_regs w (idt_table s ! v) r, u\<lparr>int_flag := False\<rparr>))"
    unfolding deliver_def Let_def by (simp only: stub_to_call [OF w(1,3) x] Let_def option.case call run_result.case)
  then show ?thesis using u(1) entry_frame_other [of _ w ab r "int_flag s" ?e "of_nat v" "mem s"] w(2)
    by (intro exI [of _ ?m] exI [of _ "entry_regs w (idt_table s ! v) r"] exI [of _ u]) simp
qed

theorem exception_entry_reports_witness:
  "\<exists>q t. deliver uart_emu (irq_call uart_emu) demo_abi demo_code 14 (Some 2) (demo_regs, demo_entry \<lparr>emu_dlab = False, emu_sent = [], emu_busy = 0\<rparr>) =
     Some (Halt (q, t)) \<and> \<not> int_flag t"
proof -
  let ?s = "demo_entry \<lparr>emu_dlab = False, emu_sent = [], emu_busy = 0\<rparr>"
  have "idt_table ?s ! 14 = gate_for (0x1000 + of_nat 14)" by (simp add: demo_entry_def)
  then have g: "gate_target (idt_table ?s ! 14) = 0x1000 + of_nat 14" by (simp only: gate_target_gate_for)
  have "(14 :: nat) < 32" "Some (2 :: u32) \<noteq> None \<longleftrightarrow> (14 :: nat) \<in> error_code_vectors" "60 \<le> unat (r_esp demo_regs)"
    by (simp_all add: error_code_vectors_def demo_regs_def)
  from exception_entry_reports [OF uart_emu_console this(1,2) demo_code_linked g this(3), of "irq_call uart_emu" demo_abi]
  show ?thesis by auto
qed

end
