(* ===== verification/Kernel_Main.thy ===== *)
theory Kernel_Main
  imports Menu Paging Interrupt_Entry
begin

text \<open>
  \<^verbatim>\<open>kernel/kernel.c\<close>: the boot sequence of \<^verbatim>\<open>kernel_main\<close> and the main loop. The boot sequence is split into the
  stages its comments name. \<open>task_dispatch\<close> says what each function pointer of a task does, and so
  instantiates the parameter of the scheduler; the functions behind event handler addresses stay a
  parameter, since the repository subscribes none. The addresses the linker chooses are the fields of
  \<open>link_map\<close>.

  The main loop never returns. \<open>kernel_loop\<close> has the value \<open>Some s\<close> when a task stops the processor in state \<open>s\<close>,
  and no value when the loop runs forever.
\<close>

record link_map =
  isr_stub :: "nat \<Rightarrow> u32"
  irq_stub :: "nat \<Rightarrow> u32"
  idt_base :: u32
  adapter_addr :: u32

section \<open>Tasks\<close>

definition kernel_heartbeat :: "('d, 'z) machine_scheme \<Rightarrow> ('d, 'z) machine_scheme" where
  "kernel_heartbeat s = s\<lparr>g_tick_count := g_tick_count s + 1\<rparr>"

fun task_dispatch ::
    "'d io_dev \<Rightarrow> (event_handler_t \<Rightarrow> aura_event_t \<Rightarrow> ('d, 'z) menu_st_scheme \<Rightarrow> ('d, 'z) menu_st_scheme option) \<Rightarrow>
     task_fn \<Rightarrow> ('d, 'z) menu_st_scheme \<Rightarrow> ('d, 'z) menu_st_scheme run_result option" where
  "task_dispatch D h Kernel_heartbeat s = Some (Ret (kernel_heartbeat s))"
| "task_dispatch D h Eventbus_process s = map_option Ret (eventbus_process h s)"
| "task_dispatch D h Mirror_sync s = map_option Ret (mirror_sync s)"
| "task_dispatch D h Plugin_tick_all s = map_option Ret (plugin_tick_all (plugin_dispatch D) s)"
| "task_dispatch D h task_fn.Keyboard_poll s = map_option Ret (keyboard_poll D s)"
| "task_dispatch D h Menu_tick s = menu_tick D s"
| "task_dispatch D h Serial_poll s = Some (Ret (serial_poll D s))"

section \<open>The stages of the boot sequence\<close>

definition boot_core :: "'d io_dev \<Rightarrow> ('d, 'z) menu_st_scheme \<Rightarrow> ('d, 'z) menu_st_scheme option" where
  "boot_core D s =
     do { s \<leftarrow> Some (s\<lparr>g_kernel_state := KERNEL_STATE_INIT\<rparr>);
          s \<leftarrow> Some (vga_init D s);
          s \<leftarrow> Some (vga_set_color VGA_COLOR_LIGHT_GREEN VGA_COLOR_BLACK s);
          s \<leftarrow> vga_println D (Some (''AI Aura OS '' @ [CHR 0xE2, CHR 0x80, CHR 0x94] @ '' Kernel Initializing'')) s;
          s \<leftarrow> vga_println D (Some ''=================================='') s;
          s \<leftarrow> Some (memory_init s);
          s \<leftarrow> vga_println D (Some ''[OK] Memory Manager initialized'') s;
          s \<leftarrow> paging_init D s;
          s \<leftarrow> Some (eventbus_init s);
          s \<leftarrow> vga_println D (Some ''[OK] Event Bus initialized'') s;
          s \<leftarrow> Some (plugin_manager_init s);
          s \<leftarrow> vga_println D (Some ''[OK] Plugin Manager initialized'') s;
          s \<leftarrow> Some (mirror_init s);
          s \<leftarrow> vga_println D (Some ''[OK] System Mirror initialized'') s;
          s \<leftarrow> Some (scheduler_init s);
          s \<leftarrow> vga_println D (Some ''[OK] Scheduler initialized'') s;
          s \<leftarrow> Some (env_init s);
          s \<leftarrow> vga_println D (Some ''[OK] Environment registry initialized'') s;
          s \<leftarrow> Some (fs_init s);
          vga_println D (Some ''[OK] Virtual filesystem initialized'') s }"

definition boot_drivers :: "'d io_dev \<Rightarrow> link_map \<Rightarrow> ('d, 'z) menu_st_scheme \<Rightarrow> ('d, 'z) menu_st_scheme option" where
  "boot_drivers D L s =
     do { s \<leftarrow> Some (idt_init D (isr_stub L) (irq_stub L) (idt_base L) s);
          s \<leftarrow> vga_println D (Some ''[OK] IDT + PIC initialized'') s;
          s \<leftarrow> Some (pit_init D s);
          s \<leftarrow> vga_println D (Some ''[OK] PIT timer initialized'') s;
          s \<leftarrow> Some (keyboard_init D s);
          vga_println D (Some ''[OK] Keyboard driver initialized'') s }"

definition boot_task_list :: "(string \<times> task_fn \<times> u32) list" where
  "boot_task_list =
     [(''heartbeat'', Kernel_heartbeat, 1), (''event_drain'', Eventbus_process, 1), (''mirror_sync'', Mirror_sync, 10),
      (''plugin_tick'', Plugin_tick_all, 5), (''keyboard_poll'', task_fn.Keyboard_poll, 1), (''menu_tick'', Menu_tick, 2),
      (''serial_poll'', Serial_poll, 5)]"

definition boot_tasks :: "'d io_dev \<Rightarrow> ('d, 'z) menu_st_scheme \<Rightarrow> ('d, 'z) menu_st_scheme option" where
  "boot_tasks D s =
     do { s \<leftarrow> Some (fold (\<lambda>(name, fn, period) s. snd (scheduler_add_task (Some name) (Some fn) period s)) boot_task_list s);
          vga_println D (Some ''[OK] Built-in tasks registered'') s }"

definition boot_modules :: "'d io_dev \<Rightarrow> link_map \<Rightarrow> ('d, 'z) menu_st_scheme \<Rightarrow> ('d, 'z) menu_st_scheme option" where
  "boot_modules D L s =
     do { s \<leftarrow> Some (loader_init s);
          s \<leftarrow> loader_load_all D s;
          s \<leftarrow> vga_println D (Some ''[OK] Modules loaded'') s;
          s \<leftarrow> adapter_serial_register D (adapter_addr L) s;
          s \<leftarrow> adapter_net_register D s;
          vga_println D (Some ''[OK] Adapters registered'') s }"

definition boot_disk :: "'d io_dev \<Rightarrow> ('d, 'z) menu_st_scheme \<Rightarrow> ('d, 'z) menu_st_scheme option" where
  "boot_disk D s =
     (let (r, s) = ata_init D s
      in if r = AURA_OK
         then do { s \<leftarrow> vga_println D (Some ''[OK] ATA primary master detected'') s;
                   let (r, s) = fat12_init D s
                   in if r = AURA_OK
                      then do { s \<leftarrow> vga_println D (Some ''[OK] FAT12 volume mounted'') s;
                                let (r, s) = env_load D s
                                in if r = 0 then vga_println D (Some ''[OK] Environment loaded from AIOS.ENV'') s else Some s }
                      else vga_println D (Some ''[  ] FAT12 mount skipped (no FAT12 volume)'') s }
         else vga_println D (Some (''[  ] ATA drive not present '' @ [CHR 0xE2, CHR 0x80, CHR 0x94] @ '' disk I/O disabled'')) s)"

definition kernel_boot :: "'d io_dev \<Rightarrow> link_map \<Rightarrow> ('d, 'z) menu_st_scheme \<Rightarrow> ('d, 'z) menu_st_scheme option" where
  "kernel_boot D L s =
     do { s \<leftarrow> boot_core D s;
          s \<leftarrow> boot_drivers D L s;
          s \<leftarrow> boot_tasks D s;
          s \<leftarrow> boot_modules D L s;
          s \<leftarrow> boot_disk D s;
          s \<leftarrow> vga_println D (Some ''=================================='') s;
          s \<leftarrow> Some (s\<lparr>g_kernel_state := KERNEL_STATE_RUN\<rparr>);
          menu_run D s }"

section \<open>The main loop\<close>

partial_function (option) kernel_loop :: "('d, 'z) task_run \<Rightarrow> ('d, 'z) sched_st_scheme \<Rightarrow> ('d, 'z) sched_st_scheme option" where
  "kernel_loop run s =
     do { r \<leftarrow> scheduler_tick run s;
          case r of Halt s' \<Rightarrow> Some s' | Ret s' \<Rightarrow> kernel_loop run s' }"

definition kernel_main ::
    "'d io_dev \<Rightarrow> link_map \<Rightarrow> (event_handler_t \<Rightarrow> aura_event_t \<Rightarrow> ('d, 'z) menu_st_scheme \<Rightarrow> ('d, 'z) menu_st_scheme option) \<Rightarrow>
     ('d, 'z) menu_st_scheme \<Rightarrow> ('d, 'z) menu_st_scheme option" where
  "kernel_main D L h s = do { s \<leftarrow> kernel_boot D L s; kernel_loop (task_dispatch D h) s }"

end
