(* ===== verification/Disk_Frame.thy ===== *)
theory Disk_Frame
  imports Env
begin

text \<open>
  What the disk code can change on any device, well behaved or not: the driver the state of the device, the file system
  the device and its own buffers. \<open>dev_only s t\<close> and \<open>disk_only s t\<close> say that \<open>t\<close> differs from \<open>s\<close> there only; the rules
  in \<open>frame_intros\<close> follow the code backwards, from the state an operation leaves to the one it started in.
\<close>

named_theorems frame_intros \<open>operations that change the device, or the buffers of the file system\<close>

definition dev_only :: "('d, 'z) machine_scheme \<Rightarrow> ('d, 'z) machine_scheme \<Rightarrow> bool" where
  "dev_only s t \<longleftrightarrow> (\<exists>d. t = s\<lparr>dev := d\<rparr>)"

definition disk_only :: "('d, 'z) fat_st_scheme \<Rightarrow> ('d, 'z) fat_st_scheme \<Rightarrow> bool" where
  "disk_only s t \<longleftrightarrow> (\<exists>d b f l. t = s\<lparr>dev := d, s_sector_buf := b, s_fat_buf := f, s_fat_loaded := l\<rparr>)"

lemma dev_only_refl [frame_intros]: "dev_only s s"
proof -
  have "s = s\<lparr>dev := dev s\<rparr>" by simp
  then show ?thesis unfolding dev_only_def by blast
qed

lemma dev_only_dev: "dev_only s t \<Longrightarrow> dev_only s (t\<lparr>dev := d\<rparr>)"
  unfolding dev_only_def by fastforce

lemma dev_only_if [frame_intros]:
  "(b \<Longrightarrow> dev_only s t) \<Longrightarrow> (\<not> b \<Longrightarrow> dev_only s u) \<Longrightarrow> dev_only s (if b then t else u)"
  by simp

lemma dev_only_ports [frame_intros]:
  "dev_only s t \<Longrightarrow> dev_only s (outb D p v t)" "dev_only s t \<Longrightarrow> dev_only s (outw D p w t)"
  "dev_only s t \<Longrightarrow> dev_only s (snd (inb D p t))" "dev_only s t \<Longrightarrow> dev_only s (snd (inw D p t))"
  using dev_only_dev by (simp_all add: outb_def outw_def inb_def inw_def Let_def case_prod_beta')

lemma dev_only_fold:
  "(\<And>x u. dev_only s u \<Longrightarrow> dev_only s (f x u)) \<Longrightarrow> dev_only s t \<Longrightarrow> dev_only s (fold f xs t)"
  by (induction xs arbitrary: t) simp_all

lemmas frame_unfold = Let_def case_prod_beta' if_distrib [of snd] snd_conv

section \<open>The driver\<close>

lemma dev_only_bsy [frame_intros]: "dev_only s t \<Longrightarrow> dev_only s (snd (ata_poll_bsy D t))"
proof -
  have "dev_only s t \<Longrightarrow> dev_only s (snd (poll_bsy_loop D n t))" for n
    by (induction n arbitrary: t) (simp_all only: poll_bsy_loop.simps frame_unfold, intro frame_intros, simp_all add: dev_only_ports)
  then show "dev_only s t \<Longrightarrow> ?thesis" by (simp only: ata_poll_bsy_def)
qed

lemma dev_only_drq [frame_intros]: "dev_only s t \<Longrightarrow> dev_only s (snd (ata_poll_drq D t))"
proof -
  have "dev_only s t \<Longrightarrow> dev_only s (snd (poll_drq_loop D n t))" for n
    by (induction n arbitrary: t) (simp_all only: poll_drq_loop.simps frame_unfold, intro frame_intros, simp_all add: dev_only_ports)
  then show "dev_only s t \<Longrightarrow> ?thesis" by (simp only: ata_poll_drq_def)
qed

lemma dev_only_setup [frame_intros]: "dev_only s t \<Longrightarrow> dev_only s (ata_setup_lba D lba n t)"
  unfolding ata_setup_lba_def Let_def by (intro frame_intros)

lemma dev_only_init [frame_intros]: "dev_only s t \<Longrightarrow> dev_only s (snd (ata_init D t))"
  unfolding ata_init_def frame_unfold by (intro frame_intros dev_only_fold)

lemma dev_only_words [frame_intros]: "dev_only s (snd bt) \<Longrightarrow> dev_only s (snd (fold (ata_read_word D off) is bt))"
proof (induction "is" arbitrary: bt)
  case (Cons i "is")
  have "dev_only s (snd (ata_read_word D off i bt))" unfolding ata_read_word_def frame_unfold using Cons.prems by (intro frame_intros)
  then show ?case using Cons.IH by simp
qed simp

lemma dev_only_read_loop [frame_intros]: "dev_only s t \<Longrightarrow> dev_only s (snd (snd (ata_read_loop D ks buf t)))"
proof (induction ks arbitrary: buf t)
  case (Cons k ks)
  then show ?case
    unfolding ata_read_loop.simps frame_unfold by (intro frame_intros Cons.IH; simp only: snd_conv; intro frame_intros)
qed simp

lemma dev_only_read1 [frame_intros]: "dev_only s t \<Longrightarrow> dev_only s (snd (snd (ata_read1 D lba buf t)))"
  unfolding ata_read1_def ata_read_sectors_def option.case frame_unfold by (intro frame_intros)

lemma dev_only_write_loop [frame_intros]: "dev_only s t \<Longrightarrow> dev_only s (snd (ata_write_loop D b ks t))"
proof (induction ks arbitrary: t)
  case (Cons k ks)
  then show ?case
    unfolding ata_write_loop.simps ata_write_word_def frame_unfold by (intro frame_intros Cons.IH dev_only_fold)
qed simp

lemma dev_only_write1 [frame_intros]: "dev_only s t \<Longrightarrow> dev_only s (snd (ata_write1 D lba buf t))"
  unfolding ata_write1_def ata_write_sectors_def option.case frame_unfold by (intro frame_intros)

section \<open>The file system\<close>

lemma disk_onlyI:
  "t = s\<lparr>dev := d, s_sector_buf := b, s_fat_buf := f, s_fat_loaded := l\<rparr> \<Longrightarrow> disk_only s t"
  unfolding disk_only_def by blast

lemma disk_only_refl [frame_intros]: "disk_only s s"
  by (rule disk_onlyI [where d = "dev s" and b = "s_sector_buf s" and f = "s_fat_buf s" and l = "s_fat_loaded s"]) simp

lemma disk_only_trans:
  assumes "disk_only s t" "disk_only t u"
  shows "disk_only s u"
proof -
  obtain d b f l d' b' f' l' where "t = s\<lparr>dev := d, s_sector_buf := b, s_fat_buf := f, s_fat_loaded := l\<rparr>"
      "u = t\<lparr>dev := d', s_sector_buf := b', s_fat_buf := f', s_fat_loaded := l'\<rparr>"
    using assms unfolding disk_only_def by blast
  then show ?thesis by (intro disk_onlyI [where d = d' and b = b' and f = f' and l = l']) simp
qed

lemma disk_only_if [frame_intros]:
  "(b \<Longrightarrow> disk_only s t) \<Longrightarrow> (\<not> b \<Longrightarrow> disk_only s u) \<Longrightarrow> disk_only s (if b then t else u)"
  by simp

lemma disk_only_fields [frame_intros]:
  "disk_only s t \<Longrightarrow> disk_only s (t\<lparr>s_sector_buf := b\<rparr>)" "disk_only s t \<Longrightarrow> disk_only s (t\<lparr>s_fat_buf := f\<rparr>)"
  "disk_only s t \<Longrightarrow> disk_only s (t\<lparr>s_fat_loaded := l\<rparr>)"
  by (erule disk_only_trans, rule disk_onlyI [where d = "dev t" and f = "s_fat_buf t" and l = "s_fat_loaded t"], simp)
    (erule disk_only_trans, rule disk_onlyI [where d = "dev t" and b = "s_sector_buf t" and l = "s_fat_loaded t"], simp,
     erule disk_only_trans, rule disk_onlyI [where d = "dev t" and b = "s_sector_buf t" and f = "s_fat_buf t"], simp)

lemma disk_only_dev:
  assumes "disk_only s t" "dev_only t u"
  shows "disk_only s u"
proof -
  obtain d where "u = t\<lparr>dev := d\<rparr>" using assms(2) unfolding dev_only_def by blast
  then have "disk_only t u" by (intro disk_onlyI [where d = d and b = "s_sector_buf t" and f = "s_fat_buf t" and l = "s_fat_loaded t"]) simp
  then show ?thesis by (rule disk_only_trans [OF assms(1)])
qed

lemmas disk_only_ata [frame_intros] =
  disk_only_dev [OF _ dev_only_init [OF dev_only_refl]] disk_only_dev [OF _ dev_only_read1 [OF dev_only_refl]]
  disk_only_dev [OF _ dev_only_write1 [OF dev_only_refl]]

lemma disk_only_read_run [frame_intros]: "disk_only s t \<Longrightarrow> disk_only s (snd (snd (read_run (ata_read1 D) base ks buf t)))"
proof (induction ks arbitrary: buf t)
  case (Cons k ks)
  then show ?case unfolding read_run.simps frame_unfold by (intro frame_intros Cons.IH)
qed simp

lemma disk_only_write_run [frame_intros]: "disk_only s t \<Longrightarrow> disk_only s (snd (write_run (ata_write1 D) base ks buf t))"
proof (induction ks arbitrary: t)
  case (Cons k ks)
  then show ?case unfolding write_run.simps frame_unfold by (intro frame_intros Cons.IH)
qed simp

lemma disk_only_fat12_init [frame_intros]: "disk_only s t \<Longrightarrow> disk_only s (snd (fat12_init D t))"
  unfolding fat12_init_def frame_unfold by (intro frame_intros)

lemma disk_only_read_sector [frame_intros]: "disk_only s t \<Longrightarrow> disk_only s (snd (read_sector D lba t))"
  unfolding read_sector_def frame_unfold by (intro frame_intros)

lemma disk_only_read_loop [frame_intros]: "disk_only s t \<Longrightarrow> disk_only s (snd (snd (fat12_read_loop D n buf len es t)))"
proof (induction es arbitrary: t)
  case (Cons e es)
  then show ?case unfolding fat12_read_loop.simps read_data_def frame_unfold by (intro frame_intros Cons.IH)
qed simp

lemma disk_only_read_file [frame_intros]: "disk_only s t \<Longrightarrow> disk_only s (snd (snd (fat12_read_file D (Some n) (Some b) len t)))"
proof -
  have "snd (snd (fat12_read_file D (Some n) (Some b) len t)) =
      (if \<not> s_fat_loaded t \<or> len = 0 then t else snd (snd (fat12_read_loop D (name_to_fat83 n) b len [0..<224] t)))"
    by (simp add: fat12_read_file_def frame_unfold del: upt_rec_numeral)
  then show "disk_only s t \<Longrightarrow> ?thesis" by (simp only:) (intro frame_intros)
qed

lemma disk_only_scan [frame_intros]: "disk_only s t \<Longrightarrow> disk_only s (snd (snd (snd (fat12_scan D n es fr t))))"
proof (induction es arbitrary: fr t)
  case (Cons e es)
  then show ?case unfolding fat12_scan.simps frame_unfold by (intro frame_intros Cons.IH)
qed simp

lemma disk_only_write_entry [frame_intros]: "disk_only s t \<Longrightarrow> disk_only s (snd (write_entry D n b len c sec off t))"
  unfolding write_entry_def fat12_flush_fat_def frame_unfold by (intro frame_intros)

lemma disk_only_write_file [frame_intros]: "disk_only s t \<Longrightarrow> disk_only s (snd (fat12_write_file D (Some n) (Some b) len t))"
proof (cases "s_fat_loaded t")
  case True
  let ?r = "fat12_scan D (name_to_fat83 n) [0..<224] None t" and ?len = "if 512 < len then 512 else len"
  let ?t = "snd (snd (snd ?r))"
  obtain r found free where r: "?r = (r, found, free, ?t)" by (metis prod.collapse)
  assume t: "disk_only s t"
  then have dt: "disk_only s ?t" by (intro frame_intros)
  have w: "disk_only s (snd (write_entry D (name_to_fat83 n) b ?len c sec off (fat12_set_cluster c 0xFFF ?t)))" for c sec off
    unfolding fat12_set_cluster_def using t by (intro frame_intros)
  have "fat12_write_file D (Some n) (Some b) len t =
      (if r \<noteq> AURA_OK then (- 1, ?t)
       else case found of Some (sec, off, c) \<Rightarrow> write_entry D (name_to_fat83 n) b ?len c sec off (fat12_set_cluster c 0xFFF ?t)
       | None \<Rightarrow> (case free of None \<Rightarrow> (- 1, ?t)
          | Some (sec, off) \<Rightarrow> if fat12_alloc_cluster ?t = 0 then (- 1, ?t)
              else write_entry D (name_to_fat83 n) b ?len (fat12_alloc_cluster ?t) sec off (fat12_set_cluster (fat12_alloc_cluster ?t) 0xFFF ?t)))"
    unfolding fat12_write_file_def prod.case option.case Let_def by (subst r) (simp only: True if_False not_True_eq_False prod.case)
  then show ?thesis using w dt by (auto split: option.split)
qed (simp add: fat12_write_file_def)

lemma disk_only_save: "\<exists>b. disk_only (s\<lparr>env_save_buf := b\<rparr>) (snd (env_save D s))"
  unfolding env_save_def Let_def case_prod_beta' by (rule exI, rule disk_only_write_file [OF disk_only_refl])

section \<open>Loading the environment\<close>

definition vars_ok :: "env_var_t list \<Rightarrow> bool" where
  "vars_ok t \<longleftrightarrow> length t = 16 \<and> (\<forall>v \<in> set t. var_ok v)"

lemma vars_ok_update: "vars_ok t \<Longrightarrow> var_ok v \<Longrightarrow> vars_ok (t[i := v])"
  using ball_list_update [of t var_ok v i] by (simp add: vars_ok_def)

lemma vars_ok_nth: "vars_ok t \<Longrightarrow> i < 16 \<Longrightarrow> var_ok (t ! i)"
  by (simp add: vars_ok_def)

lemma env_set_frame:
  assumes ok: "vars_ok (env_table s)"
  shows "\<exists>t. snd (env_set (Some k) (Some v) s) = s\<lparr>env_table := t\<rparr> \<and> vars_ok t"
proof -
  let ?t = "env_table s"
  have len: "length ?t = 16" using ok by (simp add: vars_ok_def)
  show ?thesis
  proof (cases "env_find k ?t")
    case (Some i)
    then have i: "i < 16" using len find_index_Some(1) by (fastforce simp: env_find_def table_find_def)
    have "var_ok ((?t ! i)\<lparr>v_value := set_name (v_value (?t ! i)) v 32\<rparr>)"
      using vars_ok_nth [OF ok i] by (simp add: var_ok_def cstr_set_name min_def)
    then show ?thesis using vars_ok_update [OF ok] by (simp add: env_set_def Some set_var_def) blast
  next
    case None
    show ?thesis
    proof (cases "find_index (\<lambda>v. \<not> v_set v) ?t")
      case None
      then show ?thesis using \<open>env_find k ?t = None\<close> ok by (intro exI [of _ ?t]) (simp add: env_set_def)
    next
      case (Some i)
      then have i: "i < 16" using len find_index_Some(1) by fastforce
      have "var_ok ((?t ! i)\<lparr>v_key := set_name (v_key (?t ! i)) k 16, v_value := set_name (v_value (?t ! i)) v 32, v_set := True\<rparr>)"
        using vars_ok_nth [OF ok i] by (simp add: var_ok_def cstr_set_name min_def)
      then show ?thesis using vars_ok_update [OF ok] None by (simp add: env_set_def Some set_var_def) blast
    qed
  qed
qed

lemma env_load_loop_frame:
  "vars_ok (env_table s) \<Longrightarrow> \<exists>t. snd (env_load_loop n i buf s) = s\<lparr>env_table := t\<rparr> \<and> vars_ok t"
proof (induction "n - i" arbitrary: i buf s rule: less_induct)
  case less
  let ?i = "skip_to [byte_of (CHR ''=''), byte_of LF] buf n i"
  consider "\<not> i < n" | (skip) "i < n" "n \<le> ?i \<or> buf ! ?i \<noteq> byte_of (CHR ''='')" | (var) "i < n" "\<not> (n \<le> ?i \<or> buf ! ?i \<noteq> byte_of (CHR ''=''))"
    by blast
  then show ?case
  proof cases
    case 1
    then show ?thesis using less.prems by (intro exI [of _ "env_table s"]) (simp add: env_load_loop.simps)
  next
    case skip
    let ?j = "skip_to [byte_of LF] buf n ?i + 1"
    have "i \<le> skip_to [byte_of LF] buf n ?i" using skip_to_ge le_trans by blast
    then have j: "n - ?j < n - i" using skip(1) by linarith
    have "env_load_loop n i buf s = env_load_loop n ?j buf s"
      unfolding env_load_loop.simps [of n i] Let_def using skip by (simp only: if_True if_False not_True_eq_False)
    then show ?thesis using less.hyps [OF j less.prems, of buf] by (simp only:)
  next
    case var
    let ?v = "skip_to [byte_of LF] buf n (?i + 1)"
    let ?j = "if ?v < n then ?v + 1 else ?v"
    let ?b = "if ?i < 512 then buf[?i := byte_of NUL] else buf"
    let ?c = "if ?v < 512 then ?b[?v := byte_of NUL] else ?b"
    let ?k = "map char_of_byte (drop i ?c)" and ?w = "map char_of_byte (drop (?i + 1) ?c)"
    have "i \<le> ?i" "?i + 1 \<le> ?v" by (rule skip_to_ge)+
    then have j: "n - ?j < n - i" using var(1) by (auto simp del: One_nat_def)
    obtain t where t: "snd (env_set (Some ?k) (Some ?w) s) = s\<lparr>env_table := t\<rparr>" "vars_ok t" using env_set_frame [OF less.prems] by blast
    have "env_load_loop n i buf s = env_load_loop n ?j ?c (snd (env_set (Some ?k) (Some ?w) s))"
      unfolding env_load_loop.simps [of n i] Let_def using var by (simp only: if_True if_False not_True_eq_False)
    moreover have "vars_ok (env_table (s\<lparr>env_table := t\<rparr>))" using t(2) by simp
    ultimately show ?thesis using less.hyps [OF j, of "s\<lparr>env_table := t\<rparr>" ?c] by (simp only: t(1)) simp
  qed
qed

lemma env_load_frame:
  assumes ok: "vars_ok (env_table s)"
  shows "\<exists>r u t b. env_load D s = (r, u\<lparr>env_table := t, env_load_buf := b\<rparr>) \<and> disk_only s u \<and> vars_ok t"
proof -
  let ?r = "fat12_read_file D (Some ''AIOS.ENV'') (Some (env_load_buf s)) 511 s"
  obtain n b where r: "?r = (n, b, snd (snd ?r))" by (metis prod.collapse)
  let ?u = "snd (snd ?r)"
  have u: "disk_only s ?u" by (rule disk_only_read_file [OF disk_only_refl])
  then have e: "env_table ?u = env_table s" by (auto simp: disk_only_def)
  show ?thesis
  proof (cases "n \<le> 0")
    case True
    then have "env_load D s = (- 1, ?u\<lparr>env_load_buf := the b\<rparr>)" unfolding env_load_def Let_def by (subst r) simp
    moreover have "?u\<lparr>env_load_buf := the b\<rparr> = ?u\<lparr>env_table := env_table s, env_load_buf := the b\<rparr>" by (simp flip: e)
    ultimately show ?thesis using u ok by metis
  next
    case False
    let ?s = "?u\<lparr>env_load_buf := the b\<rparr>"
    have "vars_ok (env_table ?s)" using ok e by simp
    then obtain t where t: "snd (env_load_loop (nat n) 0 ((env_load_buf ?s)[nat n := byte_of NUL]) ?s) = ?s\<lparr>env_table := t\<rparr>" "vars_ok t"
      using env_load_loop_frame by blast
    then obtain c where "env_load_loop (nat n) 0 ((env_load_buf ?s)[nat n := byte_of NUL]) ?s = (c, ?s\<lparr>env_table := t\<rparr>)" by (metis prod.collapse)
    then have "env_load D s = (0, ?s\<lparr>env_table := t, env_load_buf := c\<rparr>)" using False unfolding env_load_def Let_def by (subst r) simp
    moreover have "?s\<lparr>env_table := t, env_load_buf := c\<rparr> = ?u\<lparr>env_table := t, env_load_buf := c\<rparr>" by simp
    ultimately show ?thesis using u t(2) by metis
  qed
qed

end
