(* ===== verification/Kernel_Invariant.thy ===== *)
theory Kernel_Invariant
  imports Kernel_Main Disk_Frame
begin

text \<open>
  The invariant of the whole kernel, part by part. \<open>holds\<close> is what a part promises once it is initialised, \<open>sized\<close>
  what its static arrays promise before that, and \<open>parts A\<close> says which parts are up. An operation has the
  specification \<open>boots P f Q\<close> when from a state with \<open>P\<close> it returns one with \<open>Q\<close>; the rules for sequences
  carry it through the boot sequence, and the same invariant carries through the tasks of the main loop.
\<close>

datatype part = Screen | Heap | Kbd | Bus | Plugins | Tasks | Vars | Files | Snaps | Bootsnap | Slot | Mods | Running | Irqs

text \<open>The plugins by name, with descriptor and state, and the tasks without their accounting.\<close>

type_synonym plugin_map = "string \<Rightarrow> (plugin_desc_t \<times> plugin_state_t) option"
type_synonym task_list = "(string \<times> task_fn option \<times> u32 \<times> bool) list"

definition plugin_view :: "('d, 'z) plugin_st_scheme \<Rightarrow> plugin_map" where
  "plugin_view s k = map_option (\<lambda>p. (p_desc p, p_state p)) (plugin_at s k)"

definition task_view :: "task_t list \<Rightarrow> task_list" where
  "task_view ts = map (\<lambda>t. (tk_name t, tk_fn t, tk_period t, task_live t)) ts"

fun holds :: "(task_list \<Rightarrow> bool) \<Rightarrow> (plugin_map \<Rightarrow> bool) \<Rightarrow> part \<Rightarrow> ('d, 'z) menu_st_scheme \<Rightarrow> bool" where
  "holds T P Screen s \<longleftrightarrow> vga_ok s"
| "holds T P Heap s \<longleftrightarrow> (\<exists>bs. heap_rep s bs)"
| "holds T P Kbd s \<longleftrightarrow> kb_inv s"
| "holds T P Bus s \<longleftrightarrow> bus_inv s \<and> (\<forall>row \<in> set (handlers s). \<forall>h \<in> set row. h = 0)"
| "holds T P Plugins s \<longleftrightarrow> plugin_inv s \<and> P (plugin_view s)"
| "holds T P Tasks s \<longleftrightarrow> sched_inv s \<and> T (task_view (task_table s))"
| "holds T P Vars s \<longleftrightarrow> vars_ok (env_table s)"
| "holds T P Files s \<longleftrightarrow> fs_inv s"
| "holds T P Snaps s \<longleftrightarrow> snap_inv s"
| "holds T P Bootsnap s \<longleftrightarrow> mirror_verify 1 s = AURA_OK"
| "holds T P Slot s \<longleftrightarrow> snap_slot s \<in> {2, 3, 4}"
| "holds T P Mods s \<longleftrightarrow> module_registry s = registry True True"
| "holds T P Running s \<longleftrightarrow> g_kernel_state s = KERNEL_STATE_RUN"
| "holds T P Irqs s \<longleftrightarrow> irq_handlers s = driver_handlers"

fun sized :: "part \<Rightarrow> ('d, 'z) menu_st_scheme \<Rightarrow> bool" where
  "sized Screen s \<longleftrightarrow> True"
| "sized Heap s \<longleftrightarrow> True"
| "sized Kbd s \<longleftrightarrow> length (kb_buf s) = 32"
| "sized Bus s \<longleftrightarrow> length (queue s) = 64 \<and> length (handlers s) = 32 \<and> (\<forall>row \<in> set (handlers s). length row = 8)"
| "sized Plugins s \<longleftrightarrow> length (plugin_table s) = 16"
| "sized Tasks s \<longleftrightarrow> length (task_table s) = 16 \<and> (\<forall>t \<in> set (task_table s). length (tk_name t) = 16)"
| "sized Vars s \<longleftrightarrow> vars_ok (env_table s)"
| "sized Files s \<longleftrightarrow> length (fs_table s) = 32 \<and> (\<forall>n \<in> set (fs_table s). length (n_name n) = 24 \<and> length (n_data n) = 512)"
| "sized Snaps s \<longleftrightarrow> snap_inv s"
| "sized Bootsnap s \<longleftrightarrow> True"
| "sized Slot s \<longleftrightarrow> snap_slot s \<in> {2, 3, 4}"
| "sized Mods s \<longleftrightarrow> (\<exists>h c. module_registry s = registry h c) \<and> serial_adapter s = serial_adapter_0"
| "sized Running s \<longleftrightarrow> True"
| "sized Irqs s \<longleftrightarrow> length (irq_handlers s) = 16"

definition parts ::
    "(task_list \<Rightarrow> bool) \<Rightarrow> (plugin_map \<Rightarrow> bool) \<Rightarrow> part set \<Rightarrow> ('d, 'z) menu_st_scheme \<Rightarrow> bool" where
  "parts T P A s \<longleftrightarrow> (\<forall>p. if p \<in> A then holds T P p s else sized p s)"

abbreviation any :: "'a \<Rightarrow> bool" where "any \<equiv> \<lambda>_. True"

text \<open>The invariant of the running kernel.\<close>

definition kernel_inv :: "('d, 'z) menu_st_scheme \<Rightarrow> bool" where
  "kernel_inv s \<longleftrightarrow> parts any any UNIV s"

text \<open>The fields a part depends on.\<close>

fun same :: "part \<Rightarrow> ('d, 'z) menu_st_scheme \<Rightarrow> ('d, 'z) menu_st_scheme \<Rightarrow> bool" where
  "same Screen s s' \<longleftrightarrow> vga_row s' = vga_row s \<and> vga_col s' = vga_col s"
| "same Heap s s' \<longleftrightarrow> heap_head s' = heap_head s \<and> (\<forall>k. HEAP_START \<le> k \<and> k < HEAP_END \<longrightarrow> mem s' k = mem s k)"
| "same Kbd s s' \<longleftrightarrow> kb_buf s' = kb_buf s \<and> kb_head s' = kb_head s \<and> kb_tail s' = kb_tail s \<and> kb_count s' = kb_count s"
| "same Bus s s' \<longleftrightarrow> handlers s' = handlers s \<and> queue s' = queue s \<and> q_head s' = q_head s \<and> q_tail s' = q_tail s \<and> q_count s' = q_count s"
| "same Plugins s s' \<longleftrightarrow> plugin_table s' = plugin_table s \<and> plugin_count_val s' = plugin_count_val s"
| "same Tasks s s' \<longleftrightarrow> task_table s' = task_table s \<and> task_count_val s' = task_count_val s"
| "same Vars s s' \<longleftrightarrow> env_table s' = env_table s"
| "same Files s s' \<longleftrightarrow> fs_table s' = fs_table s"
| "same Snaps s s' \<longleftrightarrow> snapshots s' = snapshots s"
| "same Bootsnap s s' \<longleftrightarrow> snapshots s' ! 1 = snapshots s ! 1"
| "same Slot s s' \<longleftrightarrow> snap_slot s' = snap_slot s"
| "same Mods s s' \<longleftrightarrow> module_registry s' = module_registry s \<and> serial_adapter s' = serial_adapter s"
| "same Running s s' \<longleftrightarrow> g_kernel_state s' = g_kernel_state s"
| "same Irqs s s' \<longleftrightarrow> irq_handlers s' = irq_handlers s"

lemma heap_rep_cong:
  assumes "heap_head s' = heap_head s" "\<And>k. HEAP_START \<le> k \<Longrightarrow> k < HEAP_END \<Longrightarrow> mem s' k = mem s k" "heap_rep s bs"
  shows "heap_rep s' bs"
proof -
  have "seg (mem s') HEAP_START 0 bs 0 = seg (mem s) HEAP_START 0 bs 0"
    using assms(2,3) hdr_bytes_bounds [of HEAP_START bs] by (intro seg_cong) (auto simp: heap_rep_def)
  then show ?thesis using assms(1,3) by (simp add: heap_rep_def)
qed

lemma mirror_verify_cong: "snapshots s' ! unat slot = snapshots s ! unat slot \<Longrightarrow> mirror_verify slot s' = mirror_verify slot s"
  by (simp only: mirror_verify_def)

lemma same_holds:
  assumes "same p s s'" "holds T P p s"
  shows "holds T P p s'"
proof (cases p)
  case Heap
  then obtain bs where "heap_rep s bs" using assms(2) by auto
  then have "heap_rep s' bs" using Heap assms(1) by (intro heap_rep_cong [of s' s]) simp_all
  then show ?thesis using Heap by (simp, blast)
next
  case Plugins
  then have "plugin_view s' = plugin_view s" "plugin_inv s' = plugin_inv s"
    using assms(1) by (simp_all add: plugin_view_def fun_eq_iff plugin_at_def plugin_inv_def)
  then show ?thesis using Plugins assms(2) by simp
next
  case Bootsnap
  then have "mirror_verify 1 s' = mirror_verify 1 s" using assms(1) by (intro mirror_verify_cong) (simp only: same.simps unat_1)
  then show ?thesis using Bootsnap assms(2) by (simp only: holds.simps)
qed (use assms in \<open>auto simp: vga_ok_def kb_inv_def bus_inv_def sched_inv_def fs_inv_def snap_inv_def\<close>)

lemma same_sized: "same p s s' \<Longrightarrow> sized p s \<Longrightarrow> sized p s'"
  by (cases p) (auto simp: snap_inv_def)

text \<open>Bringing the parts in \<open>C\<close> up, and keeping every part.\<close>

lemma parts_change:
  assumes "parts T P A s" "\<And>p. p \<in> C \<Longrightarrow> holds T P p s'" "\<And>p. p \<notin> C \<Longrightarrow> same p s s'"
  shows "parts T P (C \<union> A) s'"
  using assms same_holds same_sized unfolding parts_def by (metis Un_iff)

lemma parts_up:
  assumes "parts T P A s" "holds T P c s'" "\<And>p. p \<noteq> c \<Longrightarrow> same p s s'"
  shows "parts T P (insert c A) s'"
  using parts_change [of T P A s "{c}" s'] assms by simp

lemma parts_keep:
  assumes "parts T P A s" "\<And>p. holds T P p s \<Longrightarrow> holds T P p s'" "\<And>p. sized p s \<Longrightarrow> sized p s'"
  shows "parts T P A s'"
  using assms by (simp add: parts_def)

lemma parts_same: "parts T P A s \<Longrightarrow> (\<And>p. same p s s') \<Longrightarrow> parts T P A s'"
  using parts_keep same_holds same_sized by metis

lemma parts_holds: "parts T P A s \<Longrightarrow> p \<in> A \<Longrightarrow> holds T P p s"
  unfolding parts_def by meson

lemma parts_sized: "parts T P A s \<Longrightarrow> p \<notin> A \<Longrightarrow> sized p s"
  unfolding parts_def by meson

section \<open>Drawing\<close>

lemma parts_draw:
  assumes up: "parts T P A s" and c: "console_only K s s'" and A: "Screen \<in> A"
  shows "parts T P A s'"
proof -
  have v: "vga_ok s" using parts_holds [OF up A] by simp
  obtain m d r cl k where e: "s' = s\<lparr>mem := m, dev := d, vga_row := r, vga_col := cl, vga_color := k\<rparr>" using c by (auto simp: console_only_def)
  have "\<And>a. a < VGA_BUFFER \<or> VGA_BUFFER + 4000 \<le> a \<Longrightarrow> mem s' a = mem s a" "vga_ok s'" using c v by (auto simp: console_only_def)
  then have "parts T P (insert Screen A) s'"
  proof (intro parts_up [OF up])
    fix p assume "p \<noteq> Screen" "\<And>a. a < VGA_BUFFER \<or> VGA_BUFFER + 4000 \<le> a \<Longrightarrow> mem s' a = mem s a"
    then show "same p s s'" by (cases p) (simp_all add: e)
  qed simp
  then show ?thesis using A by (simp add: insert_absorb)
qed

section \<open>Specifications of operations\<close>

definition boots :: "('s \<Rightarrow> bool) \<Rightarrow> ('s \<Rightarrow> 's option) \<Rightarrow> ('s \<Rightarrow> bool) \<Rightarrow> bool" where
  "boots P f Q \<longleftrightarrow> (\<forall>s. P s \<longrightarrow> (\<exists>s'. f s = Some s' \<and> Q s'))"

lemma boots_bind: "boots P f Q \<Longrightarrow> boots Q g R \<Longrightarrow> boots P (\<lambda>s. Option.bind (f s) g) R"
  unfolding boots_def by (metis bind.bind_lunit)

lemma boots_Some: "(\<And>s. P s \<Longrightarrow> Q (f s)) \<Longrightarrow> boots P (\<lambda>s. Some (f s)) Q"
  by (simp add: boots_def)

lemma boots_drawn:
  assumes "\<And>s. drawn K s (f s)" "Screen \<in> A"
  shows "boots (parts T P A) f (parts T P A)"
  unfolding boots_def using assms parts_draw by (metis drawn_def)

section \<open>Publishing and callbacks\<close>

lemma parts_publish:
  assumes up: "parts T P A s" and A: "Bus \<in> A"
  shows "parts T P A (snd (eventbus_publish t x s))"
proof -
  obtain q tl n where e: "snd (eventbus_publish t x s) = s\<lparr>queue := q, q_tail := tl, q_count := n\<rparr>" using publish_queue_only by blast
  have "bus_inv s" "\<forall>row \<in> set (handlers s). \<forall>h \<in> set row. h = 0" using parts_holds [OF up A] by simp_all
  then have "parts T P (insert Bus A) (snd (eventbus_publish t x s))"
  proof (intro parts_up [OF up])
    fix p :: part assume "p \<noteq> Bus"
    then show "same p s (snd (eventbus_publish t x s))" unfolding e by (cases p) simp_all
  qed (simp add: eventbus_publish_cases(3), simp add: e)
  then show ?thesis using A by (simp add: insert_absorb)
qed

text \<open>What a plugin callback or the registration of a plugin leaves in order.\<close>

lemma calm_same:
  assumes c: "calm s s'" and v: "vga_ok s" and p: "p \<notin> {Screen, Bus, Plugins, Mods}"
  shows "same p s s'"
proof (cases p)
  case Heap
  then show ?thesis using c v by (simp add: calm_def tables_def)
next
  case Slot
  have "mod_st.more s' = mod_st.more s" using c by (simp add: calm_def tables_def)
  then show ?thesis using Slot by (metis menu_st.ext_inject menu_st.surjective mod_st.select_convs(5) same.simps(11))
qed (use c p in \<open>simp_all add: calm_def tables_def\<close>)

lemma parts_calm:
  assumes up: "parts T P A s" and c: "calm s s'" and A: "{Screen, Bus} \<subseteq> A"
    and pl: "holds T P Plugins s'" and md: "holds T P Mods s'"
  shows "parts T P ({Plugins, Mods} \<union> A) s'"
proof -
  have v: "vga_ok s" "bus_inv s" "\<forall>row \<in> set (handlers s). \<forall>h \<in> set row. h = 0"
    using parts_holds [OF up, of Screen] parts_holds [OF up, of Bus] A by simp_all
  then have "parts T P ({Screen, Bus, Plugins, Mods} \<union> A) s'"
  proof (intro parts_change [OF up])
    fix p assume "p \<in> {Screen, Bus, Plugins, Mods}"
    then show "holds T P p s'" using c v pl md by (auto simp: calm_def tables_def)
  qed (rule calm_same [OF c])
  then show ?thesis using A by (simp add: insert_absorb Un_insert_left insert_commute)
qed

lemma parts_gentle:
  assumes up: "parts T P UNIV s" and g: "gentle K s s'"
  shows "parts T P UNIV s'"
proof -
  have h: "holds T P Plugins s" "holds T P Mods s" using parts_holds [OF up] by blast+
  have "holds T P Plugins s'" using g by (intro same_holds [OF _ h(1)]) (simp add: gentle_def)
  moreover have "holds T P Mods s'" using g h(2) by (simp add: gentle_def)
  ultimately show ?thesis using parts_calm [OF up] g by (simp add: gentle_def)
qed

end
