(* ===== verification/Kernel_Tasks.thy ===== *)
theory Kernel_Tasks
  imports Kernel_Invariant
begin

text \<open>
  Every task of the main loop keeps the invariant of the kernel, or stops the processor in good order.
\<close>

section \<open>Machines\<close>

text \<open>The transmitter of the UART becomes ready after finitely many polls, and the keyboard controller has finitely
  many scancodes to deliver.\<close>

definition machine_ok :: "'d io_dev \<Rightarrow> bool" where
  "machine_ok D \<longleftrightarrow> console_dev D (\<lambda>_. ()) \<and> (\<forall>d. \<exists>scs d'. kbd_feed D d scs d')"

definition stopped :: "('d, 'z) machine_scheme \<Rightarrow> bool" where
  "stopped s \<longleftrightarrow> g_kernel_state s = KERNEL_STATE_PANIC \<and> \<not> int_flag s"

section \<open>Small tasks\<close>

lemma heartbeat_keeps: "parts T P A s \<Longrightarrow> parts T P A (kernel_heartbeat s)"
proof (erule parts_same)
  fix p show "same p s (kernel_heartbeat s)" by (cases p) (simp_all add: kernel_heartbeat_def)
qed

text \<open>The event bus without subscribers: the queue is emptied.\<close>

lemma deliver_none: "(\<And>h. h \<in> set hs \<Longrightarrow> handlers s ! unat (e_topic e) ! h = 0) \<Longrightarrow> eventbus_deliver call e hs s = Some s"
  by (induction hs) simp_all

lemma process_none:
  assumes "bus_inv s" "\<forall>row \<in> set (handlers s). \<forall>h \<in> set row. h = 0" "pending s = es"
  shows "\<exists>h. eventbus_process call s = Some (s\<lparr>q_head := h, q_count := 0\<rparr>) \<and> bus_inv (s\<lparr>q_head := h, q_count := 0\<rparr>)"
  using assms
proof (induction es arbitrary: s)
  case Nil
  then have "q_count s = 0" using length_pending [of s] by (simp add: word_unat_eq_iff)
  then show ?case using Nil by (intro exI [of _ "q_head s"]) (simp add: eventbus_process.simps bus_inv_def)
next
  case (Cons e es)
  then have nz: "q_count s \<noteq> 0" using length_pending [of s] by auto
  let ?u = "snd (eventbus_take s)"
  have tk: "fst (eventbus_take s) = e" "bus_inv ?u" "pending ?u = es"
    using eventbus_take_law [OF Cons.prems(1,3)] by auto
  have u: "handlers ?u = handlers s" by (simp add: eventbus_take_def)
  have "eventbus_deliver call e [0..<8] ?u = Some ?u" if "e_topic e < 32"
  proof (rule deliver_none)
    fix h assume "h \<in> set [0..<8]"
    moreover have "unat (e_topic e) < 32" using that by (simp add: word_less_nat_alt)
    ultimately have "handlers s ! unat (e_topic e) \<in> set (handlers s)" "h < length (handlers s ! unat (e_topic e))"
      using Cons.prems(1) by (simp_all add: bus_inv_def del: upt_rec_numeral)
    then show "handlers ?u ! unat (e_topic e) ! h = 0" using Cons.prems(2) nth_mem unfolding u by blast
  qed
  then have "eventbus_process call s = eventbus_process call ?u"
    using nz by (subst eventbus_process.simps) (simp add: tk(1) del: upt_rec_numeral)
  then show ?case using Cons.IH [OF tk(2) _ tk(3)] Cons.prems(2) u by (auto simp: eventbus_take_def)
qed

lemma eventbus_process_keeps:
  assumes up: "parts T P A s" and A: "Bus \<in> A"
  shows "\<exists>s'. eventbus_process call s = Some s' \<and> parts T P A s' \<and> task_table s' = task_table s"
proof -
  have b: "bus_inv s" "\<forall>row \<in> set (handlers s). \<forall>h \<in> set row. h = 0" using parts_holds [OF up A] by simp_all
  obtain h where h: "eventbus_process call s = Some (s\<lparr>q_head := h, q_count := 0\<rparr>)" "bus_inv (s\<lparr>q_head := h, q_count := 0\<rparr>)"
    using process_none [OF b refl] by blast
  have "parts T P (insert Bus A) (s\<lparr>q_head := h, q_count := 0\<rparr>)"
  proof (rule parts_up [OF up])
    fix p assume "p \<noteq> Bus" then show "same p s (s\<lparr>q_head := h, q_count := 0\<rparr>)" by (cases p) simp_all
  qed (use h b in simp)
  then show ?thesis using h(1) A by (simp add: insert_absorb)
qed

text \<open>Characters arrive from the keyboard and from the serial line.\<close>

definition keyed :: "('d, 'z) kbd_st_scheme \<Rightarrow> ('d, 'z) kbd_st_scheme \<Rightarrow> bool" where
  "keyed s s' \<longleftrightarrow> (\<exists>sh ca b h t c d. s' = s\<lparr>shift_held := sh, caps_active := ca, kb_buf := b, kb_head := h, kb_tail := t, kb_count := c, dev := d\<rparr>) \<and>
     (kb_inv s \<longrightarrow> kb_inv s')"

lemma keyedI:
  assumes "s' = s\<lparr>shift_held := sh, caps_active := ca, kb_buf := b, kb_head := h, kb_tail := t, kb_count := c, dev := d\<rparr>" "kb_inv s \<Longrightarrow> kb_inv s'"
  shows "keyed s s'"
  unfolding keyed_def using assms by blast

lemma keyed_refl [simp]: "keyed s s"
  by (rule keyedI [where sh = "shift_held s" and ca = "caps_active s" and b = "kb_buf s" and h = "kb_head s" and t = "kb_tail s" and c = "kb_count s" and d = "dev s"]) simp_all

lemma keyed_trans:
  assumes "keyed s s1" "keyed s1 s2"
  shows "keyed s s2"
proof -
  obtain sh ca b h t c d sh' ca' b' h' t' c' d' where
    "s1 = s\<lparr>shift_held := sh, caps_active := ca, kb_buf := b, kb_head := h, kb_tail := t, kb_count := c, dev := d\<rparr>"
    "s2 = s1\<lparr>shift_held := sh', caps_active := ca', kb_buf := b', kb_head := h', kb_tail := t', kb_count := c', dev := d'\<rparr>"
    using assms unfolding keyed_def by blast
  then have "s2 = s\<lparr>shift_held := sh', caps_active := ca', kb_buf := b', kb_head := h', kb_tail := t', kb_count := c', dev := d'\<rparr>" by simp
  then show ?thesis using assms unfolding keyed_def by blast
qed

lemma keyed_push: "keyed s (kb_push c s)"
proof (cases "32 \<le> kb_count s")
  case True
  then have "kb_push c s = s" by (simp add: kb_push_def)
  then show ?thesis by simp
next
  case False
  then show ?thesis
    by (intro keyedI [where sh = "shift_held s" and ca = "caps_active s" and t = "kb_tail s" and d = "dev s"] kb_push_inv) (simp add: kb_push_def)
qed

lemma keyed_scancode: "keyed s (kb_scancode sc s)"
proof -
  have m: "keyed s (s\<lparr>shift_held := x\<rparr>)" "keyed s (s\<lparr>caps_active := x\<rparr>)" for x
    by (rule keyedI [where sh = x and ca = "caps_active s" and b = "kb_buf s" and h = "kb_head s" and t = "kb_tail s" and c = "kb_count s" and d = "dev s"]; simp)
      (rule keyedI [where sh = "shift_held s" and ca = x and b = "kb_buf s" and h = "kb_head s" and t = "kb_tail s" and c = "kb_count s" and d = "dev s"]; simp)
  have "keyed s (fold kb_push cs s)" for cs
    by (induction cs arbitrary: s) (auto intro: keyed_trans [OF keyed_push])
  then show ?thesis unfolding kb_scancode_eq using m by auto
qed

lemma parts_keyed:
  assumes up: "parts T P A s" and k: "keyed s s'" and A: "Kbd \<in> A"
  shows "parts T P A s'"
proof -
  obtain sh ca b h t c d where e: "s' = s\<lparr>shift_held := sh, caps_active := ca, kb_buf := b, kb_head := h, kb_tail := t, kb_count := c, dev := d\<rparr>"
    using k unfolding keyed_def by blast
  have "holds T P Kbd s'" using k parts_holds [OF up A] by (simp add: keyed_def)
  then have "parts T P (insert Kbd A) s'"
  proof (rule parts_up [OF up])
    fix p assume "p \<noteq> Kbd" then show "same p s s'" by (cases p) (simp_all add: e)
  qed
  then show ?thesis using A by (simp add: insert_absorb)
qed

lemma keyed_tasks: "keyed s s' \<Longrightarrow> task_table s' = task_table s"
  by (auto simp: keyed_def)

lemma keyed_dev: "keyed s (s\<lparr>dev := d\<rparr>)"
  by (rule keyedI [where sh = "shift_held s" and ca = "caps_active s" and b = "kb_buf s" and h = "kb_head s" and t = "kb_tail s" and c = "kb_count s" and d = d]) simp_all

lemma keyed_fold_scancode: "keyed s (fold kb_scancode scs s)"
  by (induction scs arbitrary: s) (auto intro: keyed_trans [OF keyed_scancode])

lemma keyed_poll: "kbd_feed D (dev s) scs d' \<Longrightarrow> \<exists>s'. keyboard_poll D s = Some s' \<and> keyed s s'"
proof -
  assume f: "kbd_feed D (dev s) scs d'"
  have "keyed s ((fold kb_scancode scs s)\<lparr>dev := d'\<rparr>)" by (rule keyed_trans [OF keyed_fold_scancode keyed_dev])
  then show ?thesis using keyboard_poll_feed [OF f refl] by blast
qed

lemma serial_read_dev:
  shows "\<exists>buf d. serial_read D n s = (buf, s\<lparr>dev := d\<rparr>)"
proof (induction n arbitrary: s)
  case 0
  then show ?case by (intro exI [of _ "[]"] exI [of _ "dev s"]) simp
next
  case (Suc n)
  obtain v d1 where d1: "in8 D COM1_LSR (dev s) = (v, d1)" by fastforce
  obtain b d2 where d2: "in8 D COM1_DATA d1 = (b, d2)" by fastforce
  obtain buf d where "serial_read D n (s\<lparr>dev := d2\<rparr>) = (buf, s\<lparr>dev := d2\<rparr>\<lparr>dev := d\<rparr>)" using Suc [of "s\<lparr>dev := d2\<rparr>"] by (elim exE)
  then show ?case using d1 d2 by (simp add: serial_rx_ready_def inb_def) blast
qed

lemma keyed_receive:
  "keyed s (fold (\<lambda>b s. let c = char_of_byte b; c = (if c = CR then LF else c) in keyboard_push c s) bs s)"
proof (induction bs arbitrary: s)
  case (Cons b bs)
  let ?t = "let c = char_of_byte b; c = (if c = CR then LF else c) in keyboard_push c s"
  have "keyed s ?t" by (simp only: Let_def keyboard_push_def keyed_push)
  then show ?case using keyed_trans [OF _ Cons [of ?t]] by (simp only: fold_Cons comp_apply)
qed simp

lemma keyed_serial_poll: "keyed s (serial_poll D s)"
proof -
  obtain buf d where r: "serial_read D 16 s = (buf, s\<lparr>dev := d\<rparr>)" using serial_read_dev [of D 16 s] by (elim exE)
  show ?thesis
    unfolding serial_poll_def r Let_def [of "(buf, s\<lparr>dev := d\<rparr>)"] prod.case by (rule keyed_trans [OF keyed_dev keyed_receive])
qed

lemma keyed_getchar: "kb_inv s \<Longrightarrow> keyed s (snd (keyboard_getchar s))"
proof (cases "kb_contents s")
  case Nil
  moreover assume "kb_inv s"
  ultimately have "unat (kb_count s) = 0" using length_ring_list [of "kb_buf s" "unat (kb_tail s)" "unat (kb_count s)"] by (simp add: kb_contents_def)
  then have "kb_count s = 0" by (simp add: word_unat_eq_iff)
  then show ?thesis by (simp add: keyboard_getchar_def)
next
  case (Cons x xs)
  moreover assume "kb_inv s"
  ultimately have "kb_inv (snd (keyboard_getchar s))" using keyboard_getchar_law by blast
  then show ?thesis
    by (intro keyedI [where sh = "shift_held s" and ca = "caps_active s" and b = "kb_buf s" and h = "kb_head s" and d = "dev s"
        and t = "kb_tail (snd (keyboard_getchar s))" and c = "kb_count (snd (keyboard_getchar s))"]) (simp_all add: keyboard_getchar_def)
qed

section \<open>Snapshots\<close>

lemma parts_snapshots:
  assumes up: "parts T P A s" and sn: "snap_inv (s\<lparr>snapshots := sn, sync_count := n\<rparr>)" and b: "sn ! 1 = snapshots s ! 1"
  shows "parts T P A (s\<lparr>snapshots := sn, sync_count := n\<rparr>)"
proof (rule parts_keep [OF up])
  fix p
  have s: "same p s (s\<lparr>snapshots := sn, sync_count := n\<rparr>)" if "p \<noteq> Snaps" using that b by (cases p) simp_all
  show "holds T P p (s\<lparr>snapshots := sn, sync_count := n\<rparr>)" if "holds T P p s"
    using that sn s same_holds by (cases "p = Snaps") (simp, blast)
  show "sized p (s\<lparr>snapshots := sn, sync_count := n\<rparr>)" if "sized p s"
    using that sn s same_sized by (cases "p = Snaps") (simp, blast)
qed

lemma publish_slot [simp]: "snap_slot (snd (eventbus_publish t x s)) = snap_slot s"
  by (simp add: eventbus_publish_def)

lemma parts_synced:
  assumes up: "parts T P A s" and b: "synced sn s s'" and sn: "length sn = 4" "\<forall>x \<in> set sn. length (m_label x) = 20" "sn ! 1 = snapshots s ! 1"
    and A: "Bus \<in> A"
  shows "parts T P A s' \<and> task_table s' = task_table s \<and> snap_slot s' = snap_slot s"
proof -
  obtain n t x where u: "s' = s\<lparr>snapshots := sn, sync_count := n\<rparr> \<or> s' = snd (eventbus_publish t x (s\<lparr>snapshots := sn, sync_count := n\<rparr>))"
    using b unfolding synced_def by blast
  have "snap_inv (s\<lparr>snapshots := sn, sync_count := n\<rparr>)" using sn(1,2) by (simp add: snap_inv_def)
  then have "parts T P A (s\<lparr>snapshots := sn, sync_count := n\<rparr>)" using parts_snapshots [OF up] sn(3) by blast
  then have "parts T P A s'" using u parts_publish [OF _ A] by blast
  then show ?thesis using u by auto
qed

lemma parts_stats:
  assumes up: "parts T P A s" and A: "Heap \<in> A"
  obtains uf where "memory_stats s = Some uf" "snap_inv s"
proof -
  have "snap_inv s" using parts_holds [OF up, of Snaps] parts_sized [OF up, of Snaps] by (cases "Snaps \<in> A") simp_all
  moreover obtain bs where "heap_rep s bs" using parts_holds [OF up A] by auto
  ultimately show ?thesis using that memory_stats_rep by blast
qed

lemma mirror_sync_keeps:
  assumes up: "parts T P A s" and A: "{Bus, Heap} \<subseteq> A"
  shows "\<exists>s'. mirror_sync s = Some s' \<and> parts T P A s' \<and> task_table s' = task_table s"
proof -
  obtain uf where st: "memory_stats s = Some uf" "snap_inv s" using parts_stats [OF up] A by blast
  obtain s' L where s': "mirror_sync s = Some s'" "synced ((snapshots s)[0 := L]) s s'" "length (m_label L) = 20"
  proof -
    have "length (m_label (stats s uf (set_name (m_label (snapshots s ! 0)) ''LIVE'' 20) fl cs)) = 20" for fl cs
      using st(2) by (simp add: snap_inv_def)
    then show thesis using that mirror_sync_run [OF st(2,1)] by blast
  qed
  have "length ((snapshots s)[0 := L]) = 4" "\<forall>x \<in> set ((snapshots s)[0 := L]). length (m_label x) = 20"
    using st(2) s'(3) ball_list_update [of "snapshots s" "\<lambda>x. length (m_label x) = 20" L 0] by (simp_all add: snap_inv_def)
  then show ?thesis using s'(1) parts_synced [OF up s'(2)] A by simp
qed

section \<open>Plugins\<close>

lemma parts_slot:
  assumes up: "parts T P UNIV s" and i: "i < 16" and act: "p_state (plugin_table s ! i) = PLUGIN_STATE_ACTIVE"
    and p': "p_desc p' = p_desc (plugin_table s ! i)" "p_state p' = PLUGIN_STATE_ACTIVE"
  shows "parts T P UNIV (s\<lparr>plugin_table := (plugin_table s)[i := p']\<rparr>)"
proof -
  let ?s = "s\<lparr>plugin_table := (plugin_table s)[i := p']\<rparr>" and ?n = "d_name (p_desc (plugin_table s ! i))"
  have inv: "plugin_inv s" "P (plugin_view s)" using parts_holds [OF up, of Plugins] by simp_all
  have f: "plugin_find (Some ?n) s = Some i"
    using plugins.find_iff [of "plugin_table s" ?n i] inv(1) i act by (simp add: plugin_find_def plugin_inv_def slot_loaded_def)
  then have at: "plugin_at s ?n = Some (plugin_table s ! i)" using plugin_find_Some(3) [OF inv(1)] by blast
  have r: "plugin_inv ?s" "plugin_at ?s k = (if cstr k = cstr ?n then Some p' else plugin_at s k)" for k
    using plugin_replace [OF inv(1) f p'(1), of ?s k] p'(2) by (simp_all add: slot_loaded_def)
  have "plugin_view ?s k = plugin_view s k" for k
    using plugin_at_cstr [OF inv(1), of k ?n] at p' act by (simp add: plugin_view_def r(2))
  then have "plugin_view ?s = plugin_view s" by blast
  then have "parts T P (insert Plugins UNIV) ?s"
  proof (intro parts_up [OF up])
    fix p assume "p \<noteq> Plugins" then show "same p s ?s" by (cases p) simp_all
  qed (use inv r(1) in simp)
  then show ?thesis by simp
qed

lemma tick_slot_keeps:
  assumes D: "console_dev D K" and up: "parts T P UNIV s" and i: "i < 16"
  shows "\<exists>s'. plugin_tick_slot (plugin_dispatch D) i s = Some s' \<and> parts T P UNIV s' \<and> task_table s' = task_table s"
proof (cases "p_state (plugin_table s ! i) = PLUGIN_STATE_ACTIVE \<and> d_tick (p_desc (plugin_table s ! i)) \<noteq> None")
  case False
  then show ?thesis using up by (auto simp: plugin_tick_slot_def split: option.split)
next
  case True
  then obtain fn where fn: "d_tick (p_desc (plugin_table s ! i)) = Some fn" by blast
  obtain u where u: "plugin_dispatch D fn s = Some (AURA_OK, u)" "gentle K s u" using dispatch_gentle [OF D] by blast
  let ?s' = "set_slot i (\<lambda>p. p\<lparr>p_tick_count := p_tick_count p + 1\<rparr>) u"
  have "plugin_tick_slot (plugin_dispatch D) i s = Some ?s'" using True fn u(1) by (simp add: plugin_tick_slot_def Let_def)
  moreover have pu: "parts T P UNIV u" by (rule parts_gentle [OF up u(2)])
  moreover have tu: "plugin_table u = plugin_table s" using u(2) by (simp add: gentle_def)
  have "parts T P UNIV ?s'" unfolding set_slot_def using True by (intro parts_slot [OF pu i]) (simp_all add: tu)
  moreover have "task_table ?s' = task_table s" using u(2) by (simp add: set_slot_def gentle_def calm_def tables_def)
  ultimately show ?thesis by blast
qed

lemma plugin_tick_keeps:
  assumes D: "console_dev D K" and up: "parts T P UNIV s"
  shows "\<exists>s'. plugin_tick_all (plugin_dispatch D) s = Some s' \<and> parts T P UNIV s' \<and> task_table s' = task_table s"
proof -
  have "\<forall>i \<in> set is. i < 16 \<Longrightarrow> parts T P UNIV s \<Longrightarrow> \<exists>s'. plugin_tick_loop (plugin_dispatch D) is s = Some s' \<and> parts T P UNIV s' \<and> task_table s' = task_table s" for "is"
  proof (induction "is" arbitrary: s)
    case (Cons i "is")
    then obtain u where "plugin_tick_slot (plugin_dispatch D) i s = Some u" "parts T P UNIV u" "task_table u = task_table s"
      using tick_slot_keeps [OF D, of T P s i] by auto
    then show ?case using Cons.IH [of u] Cons.prems(1) by auto
  qed simp
  then show ?thesis using up unfolding plugin_tick_all_def by simp
qed

section \<open>The menu\<close>

definition safely :: "(task_list \<Rightarrow> bool) \<Rightarrow> (plugin_map \<Rightarrow> bool) \<Rightarrow> task_t list \<Rightarrow> ('d, 'z) menu_st_scheme run_result option \<Rightarrow> bool" where
  "safely T P ts r \<longleftrightarrow> (case r of None \<Rightarrow> False | Some (Ret s') \<Rightarrow> parts T P UNIV s' \<and> task_table s' = ts | Some (Halt s') \<Rightarrow> stopped s')"

lemma safely_ret: "\<exists>s'. r = Some s' \<and> parts T P UNIV s' \<and> task_table s' = ts \<Longrightarrow> safely T P ts (map_option Ret r)"
  by (auto simp: safely_def)

lemma safely_drawn:
  assumes up: "parts T P UNIV s" and d: "drawn K s r"
  shows "safely T P (task_table s) (map_option Ret r)"
proof -
  obtain s' where s': "r = Some s'" "console_only K s s'" using d unfolding drawn_def by blast
  then have "task_table s' = task_table s" by (auto simp: console_only_def)
  then show ?thesis using s' parts_draw [OF up s'(2)] by (intro safely_ret) simp
qed

lemma drawn_fields: "drawn K s r \<Longrightarrow> \<exists>s'. r = Some s' \<and> g_kernel_state s' = g_kernel_state s"
  unfolding drawn_def using console_only_fields(4) by blast

lemma cli_stops: "g_kernel_state s = KERNEL_STATE_PANIC \<Longrightarrow> \<exists>s'. cli_hlt s = Some (Halt s') \<and> stopped s'"
  by (simp add: cli_hlt_def stopped_def)

lemma save_keeps_state: "g_kernel_state (snd (env_save D s)) = g_kernel_state s"
proof -
  obtain b where "disk_only (s\<lparr>env_save_buf := b\<rparr>) (snd (env_save D s))" using disk_only_save by blast
  then show ?thesis by (auto simp: disk_only_def)
qed

text \<open>A result whose state is known to be the panic state.\<close>

definition panics :: "('d, 'z) machine_scheme option \<Rightarrow> bool" where
  "panics r \<longleftrightarrow> (\<exists>s. r = Some s \<and> g_kernel_state s = KERNEL_STATE_PANIC)"

lemma panics_bind: "panics m \<Longrightarrow> (\<And>s. g_kernel_state s = KERNEL_STATE_PANIC \<Longrightarrow> panics (f s)) \<Longrightarrow> panics (Option.bind m f)"
  by (auto simp: panics_def)

lemma panics_drawn: "drawn K s r \<Longrightarrow> g_kernel_state s = KERNEL_STATE_PANIC \<Longrightarrow> panics r"
  using drawn_fields [of K s r] by (auto simp: panics_def)

lemma panics_halt: "panics m \<Longrightarrow> \<exists>s'. Option.bind m cli_hlt = Some (Halt s') \<and> stopped s'"
  by (auto simp: panics_def cli_hlt_def stopped_def)

lemma kernel_panic_stops:
  assumes D: "console_dev D K"
  shows "\<exists>s'. kernel_panic D msg s = Some (Halt s') \<and> stopped s'"
proof -
  let ?s = "snd (env_save D (s\<lparr>g_kernel_state := KERNEL_STATE_PANIC\<rparr>))"
  have "drawn K ?s (do { s \<leftarrow> Some (vga_set_color VGA_COLOR_WHITE VGA_COLOR_RED ?s);
          s \<leftarrow> vga_println D (Some (LF # ''*** KERNEL PANIC ***'')) s;
          s \<leftarrow> (if msg \<noteq> None then vga_println D msg s else Some s);
          vga_println D (Some ''System halted.'') s })"
    using D by (intro drawn_intros)
  then have "panics (do { s \<leftarrow> Some (vga_set_color VGA_COLOR_WHITE VGA_COLOR_RED ?s);
          s \<leftarrow> vga_println D (Some (LF # ''*** KERNEL PANIC ***'')) s;
          s \<leftarrow> (if msg \<noteq> None then vga_println D msg s else Some s);
          vga_println D (Some ''System halted.'') s })" by (rule panics_drawn) (simp add: save_keeps_state)
  from panics_halt [OF this] show ?thesis unfolding kernel_panic_def Let_def Option.bind_assoc .
qed

lemma kernel_shutdown_stops:
  assumes D: "console_dev D K"
  shows "\<exists>s'. kernel_shutdown D s = Some (Halt s') \<and> stopped s'"
proof -
  let ?s = "s\<lparr>g_kernel_state := KERNEL_STATE_PANIC\<rparr>"
  have "drawn K ?s (do { s \<leftarrow> Some (vga_set_color VGA_COLOR_YELLOW VGA_COLOR_BLACK ?s); vga_println D (Some (LF # ''[Shutdown] Saving environment...'')) s })"
    using D by (intro drawn_intros)
  from drawn_fields [OF this] obtain t where t: "do { s \<leftarrow> Some (vga_set_color VGA_COLOR_YELLOW VGA_COLOR_BLACK ?s); vga_println D (Some (LF # ''[Shutdown] Saving environment...'')) s } = Some t"
    "g_kernel_state t = KERNEL_STATE_PANIC" by auto
  obtain r u where u: "env_save D t = (r, u)" by fastforce
  then have pu: "g_kernel_state u = KERNEL_STATE_PANIC" using save_keeps_state [of D t] t(2) by simp
  have "drawn K u (do { s \<leftarrow> (if r = 0 then vga_println D (Some ''[Shutdown] Environment saved to AIOS.ENV.'') u
        else vga_println D (Some ''[Shutdown] Save skipped (no disk or FAT12 error).'') u);
      vga_println D (Some ''[Shutdown] AI Aura OS halted. Safe to power off.'') s })"
    using D by (intro drawn_intros)
  from panics_halt [OF panics_drawn [OF this pu]]
  show ?thesis using t(1) u by (simp add: kernel_shutdown_def Let_def)
qed

text \<open>Capturing into a slot other than the live one and the boot snapshot.\<close>

lemma mirror_capture_keeps:
  assumes up: "parts T P A s" and A: "{Bus, Heap} \<subseteq> A" and slot: "slot \<in> {1, 2, 3}"
  shows "\<exists>s'. mirror_capture slot label fl s = Some (AURA_OK, s') \<and> mirror_verify slot s' = AURA_OK \<and>
    (slot \<noteq> 1 \<longrightarrow> parts T P A s') \<and> (slot = 1 \<and> Snaps \<in> A \<longrightarrow> parts T P (insert Bootsnap A) s') \<and> task_table s' = task_table s \<and> snap_slot s' = snap_slot s"
proof -
  obtain uf where st: "memory_stats s = Some uf" "snap_inv s" using parts_stats [OF up] A by blast
  have sl: "unat slot < 4" "unat slot \<noteq> 0" using slot by auto
  obtain s' l L t sn where s': "mirror_capture slot label fl s = Some (AURA_OK, s')" "length l = 20" "length (m_label L) = 20"
      "snapshots s' = (snapshots s)[0 := L, unat slot := stats s uf l fl (snapshot_checksum (stats s uf l fl 0))]"
      "synced ((snapshots s)[0 := L]) s t" "s' = t\<lparr>snapshots := sn\<rparr>"
    using mirror_capture_effect [OF st(2,1) sl(1), of label fl] by blast
  let ?n = "stats s uf l fl (snapshot_checksum (stats s uf l fl 0))"
  have len: "length (snapshots s) = 4" using st(2) by (simp add: snap_inv_def)
  have lab: "length ((snapshots s)[0 := L]) = 4" "\<forall>x \<in> set ((snapshots s)[0 := L]). length (m_label x) = 20"
    using st(2) s'(3) ball_list_update [of "snapshots s" "\<lambda>x. length (m_label x) = 20" L 0] by (simp_all add: snap_inv_def)
  have t: "parts T P A t" "task_table t = task_table s" "snapshots t = (snapshots s)[0 := L]" "snap_slot t = snap_slot s"
    using parts_synced [OF up s'(5) lab] synced_fields(1) [OF s'(5)] A by simp_all
  have sn: "sn = (snapshots s)[0 := L, unat slot := ?n]" using s'(4,6) by simp
  have at: "snapshots s' ! unat slot = ?n" using s'(4) sl len by simp
  have v: "mirror_verify slot s' = AURA_OK" using slot sl(1) at by (simp add: mirror_verify_def slot_bound)
  have inv: "snap_inv (t\<lparr>snapshots := sn, sync_count := sync_count t\<rparr>)"
    using lab s'(2) ball_list_update [OF lab(2), of ?n "unat slot"] by (simp add: sn snap_inv_def)
  have e: "s' = t\<lparr>snapshots := sn, sync_count := sync_count t\<rparr>" using s'(6) by simp
  have "parts T P A s'" if "slot \<noteq> 1"
    unfolding e using that slot by (intro parts_snapshots [OF t(1) inv]) (auto simp: sn t(3))
  moreover have "parts T P (insert Bootsnap A) s'" if s1: "slot = 1" "Snaps \<in> A"
  proof -
    have "parts T P ({Snaps, Bootsnap} \<union> A) s'"
    proof (rule parts_change [OF t(1)])
      fix p show "holds T P p s'" if "p \<in> {Snaps, Bootsnap}" using that inv v s1(1) unfolding e by auto
      show "same p t s'" if "p \<notin> {Snaps, Bootsnap}" using that unfolding e by (cases p) simp_all
    qed
    then show ?thesis using s1(2) by (simp add: insert_absorb insert_commute)
  qed
  ultimately show ?thesis using s'(1) v t(2,4) e by simp
qed

definition next_slot :: "('d, 'z) menu_st_scheme \<Rightarrow> u8" where
  "next_slot s = (if 4 \<le> snap_slot s then 2 else snap_slot s)"

lemma menu_snapshot_keeps:
  assumes D: "console_dev D K" and up: "parts T P UNIV s"
  shows "\<exists>s'. menu_snapshot D s = Some s' \<and> parts T P UNIV s' \<and> task_table s' = task_table s \<and>
    mirror_verify (next_slot s) s' = AURA_OK \<and> snap_slot s' = next_slot s + 1"
proof -
  let ?s = "if of_nat MIRROR_SLOTS \<le> snap_slot s then s\<lparr>snap_slot := 2\<rparr> else s"
  have sl: "snap_slot s \<in> {2, 3, 4}" using parts_holds [OF up, of Slot] by simp
  then have sl': "snap_slot ?s \<in> {2, 3}" by auto
  have slot: "parts T P UNIV (t\<lparr>snap_slot := x\<rparr>)" if "parts T P UNIV t" "x \<in> {2, 3, 4}" for t x
  proof -
    have "parts T P (insert Slot UNIV) (t\<lparr>snap_slot := x\<rparr>)"
    proof (rule parts_up [OF that(1)])
      fix p assume "p \<noteq> Slot" then show "same p t (t\<lparr>snap_slot := x\<rparr>)" by (cases p) simp_all
    qed (use that(2) in simp)
    then show ?thesis by simp
  qed
  have "parts T P UNIV ?s" using up slot [OF up, of 2] by simp
  then obtain t where t: "mirror_capture (snap_slot ?s) ''user-snap'' MIRROR_FLAG_ALL ?s = Some (AURA_OK, t)" "parts T P UNIV t" "task_table t = task_table s"
      "snap_slot t = snap_slot ?s" "mirror_verify (snap_slot ?s) t = AURA_OK"
    using mirror_capture_keeps [of T P UNIV ?s "snap_slot ?s" "''user-snap''" MIRROR_FLAG_ALL] sl' by auto
  have "drawn K t (do { t \<leftarrow> vga_print D (Some ''[Menu] Snapshot captured in slot '') t; t \<leftarrow> vga_print_dec D (ucast (snap_slot t)) t; vga_putchar D LF t })"
    using D by (intro drawn_intros)
  then obtain u where u: "do { t \<leftarrow> vga_print D (Some ''[Menu] Snapshot captured in slot '') t; t \<leftarrow> vga_print_dec D (ucast (snap_slot t)) t; vga_putchar D LF t } = Some u"
    "console_only K t u" unfolding drawn_def by blast
  have f: "task_table u = task_table t" "snap_slot u = snap_slot t" "snapshots u = snapshots t" using u(2) by (auto simp: console_only_def)
  have ns: "next_slot s = snap_slot ?s" by (simp add: next_slot_def)
  have "mirror_verify (next_slot s) (u\<lparr>snap_slot := snap_slot u + 1\<rparr>) = mirror_verify (next_slot s) t" by (rule mirror_verify_cong) (simp add: f(3))
  then have v: "mirror_verify (next_slot s) (u\<lparr>snap_slot := snap_slot u + 1\<rparr>) = AURA_OK" unfolding ns by (rule trans) (rule t(5))
  have "menu_snapshot D s = Some (u\<lparr>snap_slot := snap_slot u + 1\<rparr>)"
    unfolding menu_snapshot_def Let_def t(1) using u(1) by (simp only: bind.bind_lunit prod.case) (simp add: Option.bind_eq_Some_conv, blast)
  moreover have "parts T P UNIV (u\<lparr>snap_slot := snap_slot u + 1\<rparr>)" using sl' f(2) t(4) by (intro slot parts_draw [OF t(2) u(2)]) auto
  moreover have "snap_slot (u\<lparr>snap_slot := snap_slot u + 1\<rparr>) = next_slot s + 1" unfolding ns using f(2) t(4) by simp
  moreover have "task_table (u\<lparr>snap_slot := snap_slot u + 1\<rparr>) = task_table s" using f(1) t(3) by simp
  ultimately show ?thesis using v by blast
qed

lemma env_init_keeps:
  assumes up: "parts T P A s"
  shows "parts T P (insert Vars A) (env_init s) \<and> task_table (env_init s) = task_table s \<and> (\<forall>k. env_map (env_init s) k = boot_env k)"
proof -
  have "vars_ok (env_table s)" using parts_holds [OF up, of Vars] parts_sized [OF up, of Vars] by (cases "Vars \<in> A") simp_all
  then obtain t where t: "env_init s = s\<lparr>env_table := t\<rparr>" "env_inv (s\<lparr>env_table := t\<rparr>)" "\<forall>k. env_map (s\<lparr>env_table := t\<rparr>) k = boot_env k"
    using env_init_effect [of s] unfolding vars_ok_def by blast
  have "parts T P (insert Vars A) (env_init s)"
  proof (rule parts_up [OF up])
    fix p assume "p \<noteq> Vars" then show "same p s (env_init s)" unfolding t(1) by (cases p) simp_all
  qed (use t(2) in \<open>simp add: t(1) env_inv_def vars_ok_def\<close>)
  then show ?thesis using t(3) by (simp add: t(1))
qed

lemma drawn_keeps:
  assumes "drawn K s r" "parts T P A s" "Screen \<in> A"
  shows "\<exists>s'. r = Some s' \<and> parts T P A s' \<and> task_table s' = task_table s"
proof -
  obtain s' where s': "r = Some s'" "console_only K s s'" using assms(1) unfolding drawn_def by blast
  then have "task_table s' = task_table s" by (auto simp: console_only_def)
  then show ?thesis using s' parts_draw [OF assms(2) s'(2) assms(3)] by simp
qed

lemma menu_restore_keeps:
  assumes D: "console_dev D K" and up: "parts T P UNIV s"
  shows "\<exists>s'. menu_restore D s = Some s' \<and> parts T P UNIV s' \<and> task_table s' = task_table s \<and> (\<forall>k. env_map s' k = boot_env k)"
proof -
  obtain a where a: "vga_println D (Some ''[Menu] Restoring from boot snapshot (slot 1)...'') s = Some a" "parts T P UNIV a" "task_table a = task_table s"
    using drawn_keeps [OF drawn_draws [OF draws_println [OF D]] up] by blast
  have v: "mirror_verify 1 a = AURA_OK" using parts_holds [OF a(2), of Bootsnap] by simp
  then have m: "m_valid (snapshots a ! unat (1 :: u8))" by (simp add: mirror_verify_def split: if_splits)
  let ?b = "snd (eventbus_publish TOPIC_MIRROR_SYNC (ucast (1 :: u8) OR 0x80000000) a)"
  have b: "parts T P UNIV ?b" "task_table ?b = task_table s" using parts_publish [OF a(2)] a(3) by simp_all
  have "drawn K ?b (do { s \<leftarrow> vga_print D (Some ''[Mirror] Restore from slot '') ?b; s \<leftarrow> vga_print_dec D (ucast (1 :: u8)) s;
      s \<leftarrow> vga_print D (Some '': '') s; vga_println D (Some (m_label (snapshots s ! unat (1 :: u8)))) s })"
    using D by (intro drawn_intros)
  from drawn_keeps [OF this b(1)] obtain c where c: "do { s \<leftarrow> vga_print D (Some ''[Mirror] Restore from slot '') ?b; s \<leftarrow> vga_print_dec D (ucast (1 :: u8)) s;
      s \<leftarrow> vga_print D (Some '': '') s; vga_println D (Some (m_label (snapshots s ! unat (1 :: u8)))) s } = Some c"
      "parts T P UNIV c" "task_table c = task_table s" using b(2) by auto
  have e: "parts T P UNIV (env_init c)" "task_table (env_init c) = task_table s" "\<forall>k. env_map (env_init c) k = boot_env k" using env_init_keeps [OF c(2)] c(3) by simp_all
  have "drawn K (env_init c) (do { s \<leftarrow> Some (vga_set_color VGA_COLOR_LIGHT_GREEN VGA_COLOR_BLACK (env_init c)); s \<leftarrow> Some (vga_clear D s);
      s \<leftarrow> menu_draw_banner D s; vga_println D (Some ''[Mirror] System state restored. Resuming kernel loop.'') s })"
    using D by (intro drawn_intros)
  then obtain f where co: "console_only K (env_init c) f" and f: "do { s \<leftarrow> Some (vga_set_color VGA_COLOR_LIGHT_GREEN VGA_COLOR_BLACK (env_init c)); s \<leftarrow> Some (vga_clear D s);
      s \<leftarrow> menu_draw_banner D s; vga_println D (Some ''[Mirror] System state restored. Resuming kernel loop.'') s } = Some f" unfolding drawn_def by blast
  have pf: "parts T P UNIV f" by (rule parts_draw [OF e(1) co]) simp
  have tf: "task_table f = task_table s" "env_table f = env_table (env_init c)" using co e(2) by (auto simp: console_only_def)
  then have ef: "env_map f k = boot_env k" for k using e(3) by (simp add: env_map_def env_get_def)
  have "mirror_restore D 1 a = Some (AURA_OK, f)"
    using m v c(1) f unfolding mirror_restore_def Let_def by (simp add: slot_bound Option.bind_eq_Some_conv) metis
  then show ?thesis using a(1) pf tf(1) ef by (simp add: menu_restore_def)
qed

lemma menu_key_safe:
  fixes s :: "('d, 'z) menu_st_scheme"
  assumes D: "console_dev D K" and up: "parts T P UNIV s"
  shows "safely T P (task_table s) (menu_key D c s)"
proof -
  obtain bs where bs: "heap_rep s bs" using parts_holds [OF up, of Heap] by auto
  note dr = safely_drawn [OF up, where K = K]
  have q: "safely T P ts (and_then (kernel_shutdown D t) f)" for ts t and f :: "('d, 'z) menu_st_scheme \<Rightarrow> _"
    using kernel_shutdown_stops [OF D, of t] by (auto simp: safely_def)
  have k: "safely T P ts (and_then (kernel_panic D msg t) f)" for ts t msg and f :: "('d, 'z) menu_st_scheme \<Rightarrow> _"
    using kernel_panic_stops [OF D, of msg t] by (auto simp: safely_def)
  have safely_snap: "safely T P (task_table s) (map_option Ret (menu_snapshot D s))" using menu_snapshot_keeps [OF D up] by (intro safely_ret) blast
  have safely_rest: "safely T P (task_table s) (map_option Ret (menu_restore D s))" using menu_restore_keeps [OF D up] by (intro safely_ret) blast
  show ?thesis
    unfolding menu_key_def Let_def
    by (simp only: if_split, intro conjI impI)
      (rule dr [OF drawn_show_status [OF D bs]] dr [OF drawn_plugin_list [OF D]] dr [OF drawn_scheduler_list [OF D]]
        safely_snap dr [OF drawn_mirror_dump_all [OF D]] dr [OF drawn_menu_memory [OF D bs]]
        dr [OF drawn_env_dump [OF D]] dr [OF drawn_fs_list [OF D]] dr [OF drawn_loader_list [OF D]] dr [OF drawn_heartbeat [OF D]]
        safely_rest dr [OF drawn_menu_dump [OF D]] q k dr [OF drawn_show_options [OF D]])+
qed

text \<open>What each key does.\<close>

definition ret_drawn :: "('d \<Rightarrow> 'k) \<Rightarrow> ('d, 'z) menu_st_scheme \<Rightarrow> ('d, 'z) menu_st_scheme run_result option \<Rightarrow> bool" where
  "ret_drawn K s r \<longleftrightarrow> (\<exists>s'. r = Some (Ret s') \<and> console_only K s s')"

lemma ret_drawnI: "drawn K s r \<Longrightarrow> ret_drawn K s (map_option Ret r)"
  by (auto simp: drawn_def ret_drawn_def)

lemma menu_key_draws:
  assumes D: "console_dev D K" and bs: "heap_rep s bs" and c: "c \<notin> set ''4rRkKqQ''"
  shows "ret_drawn K s (menu_key D c s)"
proof -
  have n: "c \<noteq> CHR ''4''" "\<not> (c = CHR ''r'' \<or> c = CHR ''R'')" "\<not> (c = CHR ''k'' \<or> c = CHR ''K'')" "\<not> (c = CHR ''q'' \<or> c = CHR ''Q'')" using c by simp_all
  show ?thesis
    unfolding menu_key_def Let_def
    by (simp only: n if_False if_split, intro conjI impI)
      (rule ret_drawnI [OF drawn_show_status [OF D bs]] ret_drawnI [OF drawn_plugin_list [OF D]] ret_drawnI [OF drawn_scheduler_list [OF D]]
        ret_drawnI [OF drawn_mirror_dump_all [OF D]] ret_drawnI [OF drawn_menu_memory [OF D bs]]
        ret_drawnI [OF drawn_env_dump [OF D]] ret_drawnI [OF drawn_fs_list [OF D]] ret_drawnI [OF drawn_loader_list [OF D]] ret_drawnI [OF drawn_heartbeat [OF D]]
        ret_drawnI [OF drawn_menu_dump [OF D]] ret_drawnI [OF drawn_show_options [OF D]])+
qed

lemma menu_key_stops:
  assumes D: "console_dev D K" and c: "c \<in> set ''kKqQ''"
  shows "\<exists>s'. menu_key D c s = Some (Halt s') \<and> stopped s'"
  using c kernel_panic_stops [OF D, of "Some ''User-triggered test panic from main menu.''" s] kernel_shutdown_stops [OF D, of s]
  by (auto simp: menu_key_def Let_def)

lemma menu_tick_key:
  assumes "kb_inv s" "kb_contents s = c # cs" "c \<noteq> NUL"
  shows "menu_tick D s = menu_key D c (vga_set_color VGA_COLOR_LIGHT_GREEN VGA_COLOR_BLACK (snd (keyboard_getchar s)))"
proof -
  have "keyboard_getchar s = (c, snd (keyboard_getchar s))" using keyboard_getchar_law [OF assms(1,2)] by (metis prod.collapse)
  then show ?thesis using assms(3) by (simp add: menu_tick_def Let_def case_prod_beta') (metis fst_conv)
qed

lemma menu_tick_idle:
  assumes "kb_inv s" "kb_contents s = []"
  shows "menu_tick D s = Some (Ret s)"
proof -
  have "unat (kb_count s) = 0" using assms(2) length_ring_list [of "kb_buf s" "unat (kb_tail s)" "unat (kb_count s)"] by (simp add: kb_contents_def)
  then have "kb_count s = 0" by (simp add: word_unat_eq_iff)
  then show ?thesis by (simp add: menu_tick_def keyboard_getchar_def)
qed

lemma menu_tick_safe:
  assumes D: "console_dev D K" and up: "parts T P UNIV s"
  shows "safely T P (task_table s) (menu_tick D s)"
proof -
  obtain c t where ct: "keyboard_getchar s = (c, t)" by fastforce
  have k: "keyed s t" using keyed_getchar [of s] parts_holds [OF up, of Kbd] ct by simp
  have t: "parts T P UNIV t" "task_table t = task_table s" using parts_keyed [OF up k] keyed_tasks [OF k] by simp_all
  let ?u = "vga_set_color VGA_COLOR_LIGHT_GREEN VGA_COLOR_BLACK t"
  have u: "parts T P UNIV ?u" "task_table ?u = task_table s"
    using parts_draw [OF t(1) console_only_color] t(2) by (simp_all add: vga_set_color_def)
  show ?thesis
    unfolding menu_tick_def ct Let_def prod.case using t menu_key_safe [OF D u(1), of c] u(2) by (auto simp: safely_def)
qed

section \<open>All tasks\<close>

lemma task_dispatch_safe:
  assumes D: "machine_ok D" and up: "parts T P UNIV s"
  shows "safely T P (task_table s) (task_dispatch D h fn s)"
proof -
  have C: "console_dev D (\<lambda>_. ())" using D by (simp add: machine_ok_def)
  obtain scs d' where f: "kbd_feed D (dev s) scs d'" using D unfolding machine_ok_def by blast
  obtain k where k: "keyboard_poll D s = Some k" "keyed s k" using keyed_poll [OF f] by (elim exE conjE) (rule that)
  have kk: "parts T P UNIV t \<and> task_table t = task_table s" if "keyed s t" for t
    using parts_keyed [OF up that] keyed_tasks [OF that] by simp
  show ?thesis
  proof (cases fn)
    case Kernel_heartbeat
    then show ?thesis using heartbeat_keeps [OF up] by (simp add: safely_def) (simp add: kernel_heartbeat_def)
  next
    case Eventbus_process
    then show ?thesis using safely_ret [OF eventbus_process_keeps [OF up]] by simp
  next
    case Mirror_sync
    then show ?thesis using safely_ret [OF mirror_sync_keeps [OF up]] by simp
  next
    case Plugin_tick_all
    then show ?thesis using safely_ret [OF plugin_tick_keeps [OF C up]] by simp
  next
    case Keyboard_poll
    then show ?thesis using k(1) kk [OF k(2)] by (simp add: safely_def)
  next
    case Menu_tick
    then show ?thesis using menu_tick_safe [OF C up] by simp
  next
    case Serial_poll
    then show ?thesis using kk [OF keyed_serial_poll] by (simp add: safely_def)
  qed
qed

section \<open>The scheduler over tasks that keep an invariant\<close>

text \<open>\<open>I\<close> is an invariant of the tasks and of the scheduler's own accounting, \<open>H\<close> what holds when a task stops the processor.\<close>

locale task_system =
  fixes run :: "('d, 'z) task_run" and I :: "('d, 'z) sched_st_scheme \<Rightarrow> bool" and H :: "('d, 'z) sched_st_scheme \<Rightarrow> bool"
  assumes run_ok: "I s \<Longrightarrow> \<exists>r. run fn s = Some r \<and> (case r of Ret s' \<Rightarrow> I s' \<and> task_table s' = task_table s | Halt s' \<Rightarrow> H s')"
    and sched: "I s \<Longrightarrow> sched_inv s"
    and live: "I s \<Longrightarrow> i < 16 \<Longrightarrow> task_ok t \<Longrightarrow> tk_name t = tk_name (task_table s ! i) \<Longrightarrow> tk_fn t = tk_fn (task_table s ! i) \<Longrightarrow>
      tk_period t = tk_period (task_table s ! i) \<Longrightarrow> task_live t = task_live (task_table s ! i) \<Longrightarrow>
      I (s\<lparr>task_table := (task_table s)[i := t]\<rparr>)"
    and tick: "I s \<Longrightarrow> I (s\<lparr>sched_tick := n\<rparr>)"
    and publish: "I s \<Longrightarrow> I (snd (eventbus_publish tp x s))"
begin

definition ok :: "('d, 'z) sched_st_scheme run_result option \<Rightarrow> bool" where
  "ok r \<longleftrightarrow> (case r of None \<Rightarrow> False | Some (Ret s') \<Rightarrow> I s' | Some (Halt s') \<Rightarrow> H s')"

lemma ok_then: "ok m \<Longrightarrow> (\<And>s. I s \<Longrightarrow> ok (f s)) \<Longrightarrow> ok (and_then m f)"
  by (cases m; cases "the m") (simp_all add: ok_def)

lemma slot_ok: "I s \<Longrightarrow> i < 16 \<Longrightarrow> task_ok (task_table s ! i)" "I s \<Longrightarrow> length (task_table s) = 16"
  using sched by (simp_all add: sched_inv_def)

lemma reap_ok: "I s \<Longrightarrow> i < 16 \<Longrightarrow> I (reap_slot i s)"
  unfolding reap_slot_eq using slot_ok(1) [of s i] by (intro live) (auto simp: reaped_def task_live_def task_ok_def callable_def task_used_def)

lemma reap_all: "I s \<Longrightarrow> \<forall>i \<in> set is. i < 16 \<Longrightarrow> I (fold reap_slot is s)"
  by (induction "is" arbitrary: s) (auto intro: reap_ok)

lemma run_slot_ok:
  assumes I: "I s" and i: "i < 16"
  shows "ok (run_slot run i s)"
proof (cases "task_due (sched_tick s) (task_table s ! i)")
  case True
  let ?t = "(task_table s ! i)\<lparr>tk_state := TASK_STATE_RUNNING, tk_last_run := sched_tick s\<rparr>"
  let ?s = "s\<lparr>task_table := (task_table s)[i := ?t]\<rparr>"
  have c: "task_ok (task_table s ! i)" "length (task_table s) = 16" using slot_ok [OF I] i by blast+
  have s: "I ?s" using True c(1) by (intro live [OF I i]) (simp_all add: task_live_def task_due_def task_ok_def callable_def task_used_def)
  have at: "task_table ?s ! i = ?t" using c(2) i by simp
  obtain fn where fn: "tk_fn ?t = Some fn" using c(1) True by (auto simp: task_ok_def callable_def task_due_def)
  obtain r where r: "run fn ?s = Some r" "case r of Ret s' \<Rightarrow> I s' \<and> task_table s' = task_table ?s | Halt s' \<Rightarrow> H s'" using run_ok [OF s] by blast
  have "run_slot run i s = and_then (run fn ?s) (\<lambda>s. Some (Ret (set_task i (\<lambda>t. t\<lparr>tk_tick_count := tk_tick_count t + 1, tk_state := TASK_STATE_READY\<rparr>) s)))"
    using True fn c(2) i by (simp add: run_slot_def set_task_def Let_def)
  moreover have "I (set_task i (\<lambda>t. t\<lparr>tk_tick_count := tk_tick_count t + 1, tk_state := TASK_STATE_READY\<rparr>) s')" if "I s'" "task_table s' = task_table ?s" for s'
    unfolding set_task_def using that(2) at c(1) fn True by (intro live [OF that(1) i]) (simp_all add: task_live_def task_ok_def callable_def task_used_def task_due_def)
  ultimately show ?thesis using r by (cases r) (simp_all add: ok_def)
qed (simp add: run_slot_def ok_def I)

lemma run_slots_ok: "I s \<Longrightarrow> \<forall>i \<in> set is. i < 16 \<Longrightarrow> ok (run_slots run is s)"
proof (induction "is" arbitrary: s)
  case (Cons i "is")
  then show ?case by (auto intro!: ok_then run_slot_ok)
qed (simp add: ok_def)

lemma tick_ok:
  assumes I: "I s"
  shows "ok (scheduler_tick run s)"
proof -
  have "I (fold reap_slot [0..<16] (s\<lparr>sched_tick := sched_tick s + 1\<rparr>))" by (rule reap_all [OF tick [OF I]]) simp
  then have "ok (run_slots run [0..<16] (fold reap_slot [0..<16] (s\<lparr>sched_tick := sched_tick s + 1\<rparr>)))" by (rule run_slots_ok) simp
  then show ?thesis unfolding scheduler_tick_def Let_def by (rule ok_then) (simp add: ok_def publish)
qed

lemma ticks_ok: "I s \<Longrightarrow> ok (scheduler_ticks run n s)"
  by (induction n) (auto simp: ok_def [of "Some _"] intro: ok_then tick_ok)

end

text \<open>The tasks of the kernel and its invariant are such a system.\<close>

lemma task_view_update:
  "i < length ts \<Longrightarrow> tk_name t = tk_name (ts ! i) \<Longrightarrow> tk_fn t = tk_fn (ts ! i) \<Longrightarrow> tk_period t = tk_period (ts ! i) \<Longrightarrow>
   task_live t = task_live (ts ! i) \<Longrightarrow> task_view (ts[i := t]) = task_view ts"
  by (auto simp: task_view_def map_update intro!: list_update_same_conv [THEN iffD2])

lemma parts_task:
  assumes up: "parts T P A s" and A: "Tasks \<in> A" and i: "i < 16" and ok: "task_ok t"
    and t: "tk_name t = tk_name (task_table s ! i)" "tk_fn t = tk_fn (task_table s ! i)" "tk_period t = tk_period (task_table s ! i)"
      "task_live t = task_live (task_table s ! i)"
  shows "parts T P A (s\<lparr>task_table := (task_table s)[i := t]\<rparr>)"
proof -
  let ?s = "s\<lparr>task_table := (task_table s)[i := t]\<rparr>"
  have inv: "sched_inv s" "T (task_view (task_table s))" using parts_holds [OF up A] by simp_all
  then have "length (task_table s) = 16" by (simp add: sched_inv_def)
  then have "task_view (task_table ?s) = task_view (task_table s)" using t i by (simp add: task_view_update)
  moreover have "sched_inv ?s" using sched_inv_update [OF inv(1) i ok, of ?s] t(4) inv(1) by (simp add: sched_inv_def)
  ultimately have "parts T P (insert Tasks A) ?s"
  proof (intro parts_up [OF up])
    fix p assume "p \<noteq> Tasks" then show "same p s ?s" by (cases p) simp_all
  qed (use inv(2) in simp)
  then show ?thesis using A by (simp add: insert_absorb)
qed

interpretation kernel: task_system "task_dispatch D (h :: event_handler_t \<Rightarrow> aura_event_t \<Rightarrow> ('d, 'z) menu_st_scheme \<Rightarrow> _)" "\<lambda>s. machine_ok D \<and> parts T P UNIV s" stopped
proof
  fix s :: "('d, 'z) menu_st_scheme" and fn
  show "\<exists>r. task_dispatch D h fn s = Some r \<and> (case r of Ret s' \<Rightarrow> (machine_ok D \<and> parts T P UNIV s') \<and> task_table s' = task_table s | Halt s' \<Rightarrow> stopped s')"
    if "machine_ok D \<and> parts T P UNIV s"
    using that task_dispatch_safe [of D T P s h fn] by (auto simp: safely_def split: option.splits run_result.splits)
  show "sched_inv s" if "machine_ok D \<and> parts T P UNIV s" using that parts_holds [of T P UNIV s Tasks] by simp
  show "machine_ok D \<and> parts T P UNIV (s\<lparr>task_table := (task_table s)[i := t]\<rparr>)"
    if "machine_ok D \<and> parts T P UNIV s" "i < 16" "task_ok t" "tk_name t = tk_name (task_table s ! i)" "tk_fn t = tk_fn (task_table s ! i)"
      "tk_period t = tk_period (task_table s ! i)" "task_live t = task_live (task_table s ! i)" for i t
    using that parts_task [of T P UNIV s i t] by simp
  show "machine_ok D \<and> parts T P UNIV (s\<lparr>sched_tick := n\<rparr>)" if "machine_ok D \<and> parts T P UNIV s" for n
  proof -
    have "same p s (s\<lparr>sched_tick := n\<rparr>)" for p by (cases p) simp_all
    then show ?thesis using that parts_same by blast
  qed
  show "machine_ok D \<and> parts T P UNIV (snd (eventbus_publish tp x s))" if "machine_ok D \<and> parts T P UNIV s" for tp x
    using that parts_publish by blast
qed

end
