(* ===== verification/Kernel_Boot.thy ===== *)
theory Kernel_Boot
  imports Kernel_Tasks
begin

text \<open>
  The boot sequence brings up one part of the kernel after the other. Each initialiser makes the promise of
  its part true, whatever its static arrays held, and leaves the parts before it as they are.
\<close>

section \<open>Loops over a table\<close>

lemma fold_nth_update:
  "m \<le> length t \<Longrightarrow> fold (\<lambda>i t. t[i := f (t ! i)]) [0..<m] t = map f (take m t) @ drop m t"
proof (induction m)
  case (Suc m)
  then have "drop m t = t ! m # drop (Suc m) t" by (simp add: Cons_nth_drop_Suc)
  then show ?case using Suc by (simp add: nth_append list_update_append take_Suc_conv_app_nth)
qed simp

lemma fold_all: "n = length t \<Longrightarrow> fold (\<lambda>i t. t[i := f (t ! i)]) [0..<n] t = map f t"
  using fold_nth_update [of n t f] by simp

text \<open>The same loop on a field of a record.\<close>

lemma fold_field:
  assumes "\<And>i s. step i s = put ((get s)[i := f (get s ! i)]) s" "\<And>t s. get (put t s) = t" "\<And>t u s. put t (put u s) = put t s" "\<And>s. put (get s) s = s"
    and n: "length (get s) = n"
  shows "fold step [0..<n] s = put (map f (get s)) s"
proof -
  have "fold step is s = put (fold (\<lambda>i t. t[i := f (t ! i)]) is (get s)) s" for "is" s
  proof (induction "is" arbitrary: s)
    case (Cons i "is")
    then show ?case by (simp add: assms(1-3))
  qed (simp add: assms(4))
  then show ?thesis using fold_all [OF n [symmetric]] by simp
qed

section \<open>Initialisers\<close>

lemma eventbus_rows:
  assumes "length hs = 32" "\<forall>row \<in> set hs. length row = 8"
  shows "fold (\<lambda>t. fold (\<lambda>h. set_handler t h 0) [0..<8]) [0..<32] hs = replicate 32 (replicate 8 0)"
proof -
  have row: "fold (\<lambda>h. set_handler t h 0) js hs = hs[t := fold (\<lambda>h r. r[h := 0]) js (hs ! t)]" for t js and hs :: "event_handler_t list list"
  proof (induction js arbitrary: hs)
    case (Cons j js)
    then show ?case by (cases "t < length hs") (simp_all add: set_handler_def list_update_beyond)
  qed simp
  have "fold (\<lambda>t. fold (\<lambda>h. set_handler t h 0) [0..<8]) [0..<32] hs = map (fold (\<lambda>h r. r[h := 0]) [0..<8]) hs"
    unfolding row using assms(1) by (intro fold_all) simp
  also have "\<dots> = map (\<lambda>_. replicate 8 0) hs"
  proof (rule map_cong [OF refl])
    fix row assume "row \<in> set hs"
    then have "length row = 8" using assms(2) by simp
    then show "fold (\<lambda>h r. r[h := 0]) [0..<8] row = replicate 8 0" using fold_all [of 8 row "\<lambda>_. 0"] by (simp add: map_replicate_const del: upt_rec_numeral)
  qed
  finally show ?thesis using assms(1) by (simp add: map_replicate_const del: upt_rec_numeral)
qed

lemma plugin_init_eq:
  assumes "length (plugin_table s) = 16"
  shows "plugin_manager_init s = s\<lparr>plugin_table := map (\<lambda>p. p\<lparr>p_state := PLUGIN_STATE_UNLOADED, p_tick_count := 0, p_error_count := 0\<rparr>) (plugin_table s), plugin_count_val := 0\<rparr>"
proof -
  have "fold (\<lambda>i. set_slot i f) [0..<16] s = s\<lparr>plugin_table := map f (plugin_table s)\<rparr>" for f
    using assms by (intro fold_field [where get = plugin_table and put = "\<lambda>t s. s\<lparr>plugin_table := t\<rparr>"]) (simp_all add: set_slot_def)
  then show ?thesis unfolding plugin_manager_init_def by (simp del: upt_rec_numeral)
qed

lemma scheduler_init_eq:
  assumes "length (task_table s) = 16"
  shows "scheduler_init s = s\<lparr>task_table := map (\<lambda>t. t\<lparr>tk_state := TASK_STATE_EMPTY, tk_tick_count := 0\<rparr>) (task_table s), task_count_val := 0, sched_tick := 0\<rparr>"
proof -
  have "fold (\<lambda>i. set_task i f) [0..<16] s = s\<lparr>task_table := map f (task_table s)\<rparr>" for f
    using assms by (intro fold_field [where get = task_table and put = "\<lambda>t s. s\<lparr>task_table := t\<rparr>"]) (simp_all add: set_task_def)
  then show ?thesis unfolding scheduler_init_def by (simp del: upt_rec_numeral)
qed

lemma mirror_init_eq:
  assumes "length (snapshots s) = 4"
  shows "mirror_init s = s\<lparr>snapshots := map (\<lambda>n. n\<lparr>m_valid := False\<rparr>) (snapshots s), sync_count := 0\<rparr>"
proof -
  have "fold (\<lambda>i. set_snapshot i f) [0..<4] s = s\<lparr>snapshots := map f (snapshots s)\<rparr>" for f
    using assms by (intro fold_field [where get = snapshots and put = "\<lambda>t s. s\<lparr>snapshots := t\<rparr>"]) (simp_all add: set_snapshot_def)
  then show ?thesis unfolding mirror_init_def by (simp del: upt_rec_numeral)
qed

lemma fs_clear_eq:
  assumes "length (fs_table s) = 32"
  shows "fold (\<lambda>i. set_node i (\<lambda>n. n\<lparr>n_valid := False, n_size := 0\<rparr>)) [0..<32] s = s\<lparr>fs_table := map (\<lambda>n. n\<lparr>n_valid := False, n_size := 0\<rparr>) (fs_table s)\<rparr>"
proof -
  have "fold (\<lambda>i. set_node i f) [0..<32] s = s\<lparr>fs_table := map f (fs_table s)\<rparr>" for f
    using assms by (intro fold_field [where get = fs_table and put = "\<lambda>t s. s\<lparr>fs_table := t\<rparr>"]) (simp_all add: set_node_def)
  then show ?thesis .
qed

section \<open>Stages\<close>

text \<open>The parts in \<open>A\<close> are up; the scheduler has no task yet.\<close>

definition stage :: "(plugin_map \<Rightarrow> bool) \<Rightarrow> part set \<Rightarrow> ('d, 'z) menu_st_scheme \<Rightarrow> bool" where
  "stage P A s \<longleftrightarrow> parts any P A s \<and> (Tasks \<in> A \<longrightarrow> (\<forall>t \<in> set (task_table s). tk_state t = TASK_STATE_EMPTY))"

lemma stage_up:
  assumes "stage P A s" "holds any P c s'" "\<And>p. p \<noteq> c \<Longrightarrow> same p s s'" "c \<noteq> Tasks"
  shows "stage P (insert c A) s'"
proof -
  have "task_table s' = task_table s" using assms(3) [of Tasks] assms(4) by auto
  then show ?thesis using assms parts_up [of any P A s c s'] by (auto simp: stage_def)
qed

lemma stage_same: "stage P A s \<Longrightarrow> (\<And>p. same p s s') \<Longrightarrow> stage P A s'"
  using parts_same [of any P A s s'] by (auto simp: stage_def) (metis same.simps(6))

lemma stage_drawn:
  fixes f :: "('d, 'z) menu_st_scheme \<Rightarrow> _"
  assumes "\<And>s. drawn K s (f s)" "Screen \<in> A"
  shows "boots (stage P A) f (stage P A)"
  unfolding boots_def
proof (intro allI impI)
  fix s :: "('d, 'z) menu_st_scheme" assume s: "stage P A s"
  obtain s' where "f s = Some s'" "parts any P A s'" "task_table s' = task_table s"
    using drawn_keeps [OF assms(1) _ assms(2)] s unfolding stage_def by blast
  then show "\<exists>s'. f s = Some s' \<and> stage P A s'" using s by (simp add: stage_def)
qed

lemma stage_println: "console_dev D K \<Longrightarrow> Screen \<in> A \<Longrightarrow> boots (stage P A) (vga_println D msg) (stage P A)"
  by (rule stage_drawn [where K = K]) (rule drawn_draws [OF draws_println])

lemma stage_color: "Screen \<in> A \<Longrightarrow> boots (stage P A) (\<lambda>s. Some (vga_set_color fg bg s)) (stage P A)"
  by (rule stage_drawn [where K = "\<lambda>_. ()"]) (rule drawn_draws [OF draws_set_color])

lemma boots_up:
  assumes "\<And>s. stage P A s \<Longrightarrow> holds any P c (f s)" "\<And>s p. stage P A s \<Longrightarrow> p \<noteq> c \<Longrightarrow> same p s (f s)" "c \<noteq> Tasks"
  shows "boots (stage P A) (\<lambda>s. Some (f s)) (stage P (insert c A))"
  using assms stage_up by (intro boots_Some) blast

text \<open>The parts one by one, in the order of the boot sequence.\<close>

lemma boot_state: "boots (stage P {}) (\<lambda>s. Some (s\<lparr>g_kernel_state := k\<rparr>)) (stage P {})"
proof (rule boots_Some)
  fix s assume s: "stage P {} s"
  have "sized p (s\<lparr>g_kernel_state := k\<rparr>)" for p
  proof (cases "p = Running")
    case False
    then have "same p s (s\<lparr>g_kernel_state := k\<rparr>)" by (cases p) simp_all
    then show ?thesis using same_sized s by (auto simp: stage_def parts_def)
  qed simp
  then show "stage P {} (s\<lparr>g_kernel_state := k\<rparr>)" by (simp add: stage_def parts_def)
qed

lemma boot_vga:
  assumes D: "console_dev D K"
  shows "boots (stage P A) (\<lambda>s :: ('d, 'z) menu_st_scheme. Some (vga_init D s)) (stage P (insert Screen A))"
proof (rule boots_up)
  fix s :: "('d, 'z) menu_st_scheme"
  let ?s = "s\<lparr>vga_row := 0, vga_col := 0, vga_color := vga_make_color VGA_COLOR_LIGHT_GREEN VGA_COLOR_BLACK\<rparr>"
  have c: "console_only K ?s (vga_init D s)" "vga_ok ?s" using drawsD [OF draws_clear [OF D], of ?s] by (auto simp: vga_init_def vga_ok_def)
  then show "holds any P Screen (vga_init D s)" by (simp add: console_only_def)
  obtain m d r k x where e: "vga_init D s = s\<lparr>mem := m, dev := d, vga_row := r, vga_col := k, vga_color := x\<rparr>" using c(1) by (auto simp: console_only_def)
  have m: "\<And>a. a < VGA_BUFFER \<or> VGA_BUFFER + 4000 \<le> a \<Longrightarrow> mem (vga_init D s) a = mem s a" using c by (auto simp: console_only_def)
  fix p assume "p \<noteq> Screen"
  then show "same p s (vga_init D s)" using m by (cases p) (simp_all add: e)
qed simp

lemma boot_memory: "boots (stage P A) (\<lambda>s :: ('d, 'z) menu_st_scheme. Some (memory_init s)) (stage P (insert Heap A))"
proof (rule boots_up)
  fix s :: "('d, 'z) menu_st_scheme"
  show "holds any P Heap (memory_init s)" using memory_init_rep by auto
  fix p assume "p \<noteq> Heap"
  then show "same p s (memory_init s)" by (cases p) (simp_all add: memory_init_def memset_k_def Let_def)
qed simp

lemma boot_paging:
  assumes D: "console_dev D K" and A: "Screen \<in> A"
  shows "boots (stage P A) (paging_init D :: ('d, 'z) menu_st_scheme \<Rightarrow> _) (stage P A)"
  unfolding boots_def
proof (intro allI impI)
  fix s :: "('d, 'z) menu_st_scheme" assume s: "stage P A s"
  let ?u = "s\<lparr>mem := page_mem (mem s), cr3 := of_nat PDIR_ADDR, cr4 := cr4 s OR push_bit 4 1, cr0 := cr0 s OR push_bit 31 1\<rparr>"
  have run: "paging_init D s = vga_println D (Some ''[OK] Paging enabled (4 MB identity map, heap guard pages active)'') ?u"
    by (simp add: paging_init_def Let_def memset_k_def page_mem_def del: upt_rec_numeral)
  have "page_mem (mem s) k = mem s k" if "HEAP_START \<le> k" "k < HEAP_END" for k using that by (intro page_mem_frame) simp
  then have "same p s ?u" for p by (cases p) simp_all
  then have "stage P A ?u" using stage_same [OF s] by blast
  then show "\<exists>s'. paging_init D s = Some s' \<and> stage P A s'"
    unfolding run using stage_println [OF D A] unfolding boots_def by blast
qed

lemma boot_bus: 
  assumes "Bus \<notin> A"
  shows "boots (stage P A) (\<lambda>s :: ('d, 'z) menu_st_scheme. Some (eventbus_init s)) (stage P (insert Bus A))"
proof (rule boots_up)
  fix s :: "('d, 'z) menu_st_scheme" assume s: "stage P A s"
  then have "sized Bus s" using assms parts_sized unfolding stage_def by blast
  then show "holds any P Bus (eventbus_init s)" by (simp add: eventbus_init_def eventbus_rows bus_inv_def del: upt_rec_numeral)
  fix p assume "p \<noteq> Bus" then show "same p s (eventbus_init s)" by (cases p) (simp_all add: eventbus_init_def)
qed simp

lemma holds_plugins: "p \<noteq> Plugins \<Longrightarrow> holds T P p s = holds T P' p s"
  by (cases p) simp_all

lemma parts_plugins: "parts T P A s \<Longrightarrow> Plugins \<notin> A \<Longrightarrow> parts T P' A s"
  unfolding parts_def using holds_plugins [of _ T P s P'] by metis

definition no_plugin :: "plugin_map \<Rightarrow> bool" where
  "no_plugin v \<longleftrightarrow> (\<forall>k. v k = None)"

lemma boot_plugin_manager:
  assumes "Plugins \<notin> A"
  shows "boots (stage P A) (\<lambda>s :: ('d, 'z) menu_st_scheme. Some (plugin_manager_init s)) (stage no_plugin (insert Plugins A))"
proof (rule boots_Some)
  fix s :: "('d, 'z) menu_st_scheme" assume s: "stage P A s"
  let ?s = "plugin_manager_init s"
  let ?t = "map (\<lambda>p. p\<lparr>p_state := PLUGIN_STATE_UNLOADED, p_tick_count := 0, p_error_count := 0\<rparr>) (plugin_table s)"
  have len: "length (plugin_table s) = 16" using parts_sized [of any P A s Plugins] s assms by (simp add: stage_def)
  note e = plugin_init_eq [OF len]
  have un: "\<not> slot_loaded (?t ! i)" if "i < 16" for i using that len by (simp add: slot_loaded_def)
  then have ok: "plugins.names_ok ?t" using len by (simp add: plugins.names_ok_def)
  have "filter slot_loaded ?t = []" by (auto simp: slot_loaded_def)
  then have inv: "plugin_inv ?s" using ok len by (simp add: e plugin_inv_def)
  have "table_find slot_loaded (\<lambda>p. d_name (p_desc p)) 24 ?t (Some k) = None" for k
    unfolding plugins.find_None_iff [OF ok] using un len by simp
  then have "plugin_view ?s k = None" for k by (simp add: e plugin_view_def plugin_at_def plugins.entry_def)
  then have "holds any no_plugin Plugins ?s" using inv by (simp add: no_plugin_def)
  moreover have "stage no_plugin A s" using s assms parts_plugins [of any P A s no_plugin] by (simp add: stage_def)
  ultimately show "stage no_plugin (insert Plugins A) ?s"
  proof (intro stage_up)
    fix p assume "p \<noteq> Plugins" then show "same p s ?s" by (cases p) (simp_all add: e)
  qed simp_all
qed

lemma boot_mirror:
  assumes "Bootsnap \<notin> A"
  shows "boots (stage P A) (\<lambda>s :: ('d, 'z) menu_st_scheme. Some (mirror_init s)) (stage P (insert Snaps A))"
proof (rule boots_Some)
  fix s :: "('d, 'z) menu_st_scheme" assume s: "stage P A s"
  have inv: "snap_inv s" using parts_holds [of any P A s Snaps] parts_sized [of any P A s Snaps] s by (cases "Snaps \<in> A") (simp_all add: stage_def)
  then have e: "mirror_init s = s\<lparr>snapshots := map (\<lambda>n. n\<lparr>m_valid := False\<rparr>) (snapshots s), sync_count := 0\<rparr>" by (intro mirror_init_eq) (simp add: snap_inv_def)
  have h: "holds any P Snaps (mirror_init s)" using inv by (simp add: e snap_inv_def)
  have sm: "same p s (mirror_init s)" if "p \<notin> {Snaps, Bootsnap}" for p using that by (cases p) (simp_all add: e)
  have "parts any P (insert Snaps A) (mirror_init s)"
    unfolding parts_def
  proof
    fix p
    consider "p = Snaps" | "p = Bootsnap" | (other) "p \<notin> {Snaps, Bootsnap}" by blast
    then show "if p \<in> insert Snaps A then holds any P p (mirror_init s) else sized p (mirror_init s)"
    proof cases
      case other
      have "if p \<in> A then holds any P p s else sized p s" using s unfolding stage_def parts_def by blast
      then show ?thesis using other same_holds [OF sm [OF other]] same_sized [OF sm [OF other]] by (simp split: if_splits)
    qed (use h assms in simp_all)
  qed
  then show "stage P (insert Snaps A) (mirror_init s)" using s by (simp add: stage_def e)
qed

lemma boot_scheduler:
  assumes "Tasks \<notin> A"
  shows "boots (stage P A) (\<lambda>s :: ('d, 'z) menu_st_scheme. Some (scheduler_init s)) (stage P (insert Tasks A))"
proof (rule boots_Some)
  fix s :: "('d, 'z) menu_st_scheme" assume s: "stage P A s"
  have len: "length (task_table s) = 16" "\<forall>t \<in> set (task_table s). length (tk_name t) = 16"
    using parts_sized [of any P A s Tasks] s assms by (simp_all add: stage_def)
  note e = scheduler_init_eq [OF len(1)]
  let ?t = "map (\<lambda>t. t\<lparr>tk_state := TASK_STATE_EMPTY, tk_tick_count := 0\<rparr>) (task_table s)"
  have em: "\<forall>t \<in> set ?t. tk_state t = TASK_STATE_EMPTY" by simp
  have "filter task_live ?t = []" by (auto simp: task_live_def)
  then have "sched_inv (scheduler_init s)" using len by (simp add: e sched_inv_def task_ok_def callable_def task_used_def)
  then have "parts any P (insert Tasks A) (scheduler_init s)"
  proof (intro parts_up [of any P A s])
    fix p assume "p \<noteq> Tasks" then show "same p s (scheduler_init s)" by (cases p) (simp_all add: e)
  qed (use s in \<open>simp_all add: stage_def\<close>)
  then show "stage P (insert Tasks A) (scheduler_init s)" using em by (simp add: stage_def e)
qed

lemma boot_env: "boots (stage P A) (\<lambda>s :: ('d, 'z) menu_st_scheme. Some (env_init s)) (stage P (insert Vars A))"
  using env_init_keeps by (intro boots_Some) (auto simp: stage_def)

lemma boot_fs:
  assumes "Files \<notin> A"
  shows "boots (stage P A) (\<lambda>s :: ('d, 'z) menu_st_scheme. Some (fs_init s)) (stage P (insert Files A))"
proof (rule boots_up)
  fix s :: "('d, 'z) menu_st_scheme" assume s: "stage P A s"
  have len: "length (fs_table s) = 32" "\<forall>n \<in> set (fs_table s). length (n_name n) = 24 \<and> length (n_data n) = 512"
    using parts_sized [of any P A s Files] s assms by (simp_all add: stage_def)
  let ?u = "s\<lparr>fs_table := map (\<lambda>n. n\<lparr>n_valid := False, n_size := 0\<rparr>) (fs_table s)\<rparr>"
  have run: "fs_init s = snd (fs_create (Some ''/'') FS_TYPE_DIR ?u)" unfolding fs_init_def Let_def fs_clear_eq [OF len(1)] ..
  have "fs_inv ?u" using len by (auto simp: fs_inv_def node_ok_def nodes.names_ok_def)
  moreover have "length (cstr ''/'') < 24" by (simp add: cstr_def)
  ultimately show "holds any P Files (fs_init s)" using fs_create_effect [of ?u "''/''" FS_TYPE_DIR] unfolding run by auto
  obtain t where "fs_init s = ?u\<lparr>fs_table := t\<rparr>" unfolding run using fs_create_frame by blast
  then have e: "fs_init s = s\<lparr>fs_table := t\<rparr>" by simp
  fix p assume "p \<noteq> Files" then show "same p s (fs_init s)" by (cases p) (simp_all add: e)
qed simp

text \<open>The first stage.\<close>

lemma boot_core_up:
  assumes D: "console_dev D K"
  shows "boots (stage any {}) (boot_core D) (stage no_plugin {Screen, Heap, Bus, Plugins, Snaps, Tasks, Vars, Files})"
proof -
  note p = stage_println [OF D]
  have "boots (stage any {}) (boot_core D) (stage no_plugin (insert Files (insert Vars (insert Tasks (insert Snaps (insert Plugins (insert Bus (insert Heap {Screen}))))))))"
    unfolding boot_core_def
    by (rule boots_bind [OF boot_state] boots_bind [OF boot_vga [OF D]] boots_bind [OF stage_color] boots_bind [OF p] boots_bind [OF boot_memory] boots_bind [OF boot_paging [OF D]]
        boots_bind [OF boot_bus] boots_bind [OF boot_plugin_manager] boots_bind [OF boot_mirror] boots_bind [OF boot_scheduler] boots_bind [OF boot_env] boots_bind [OF boot_fs] p | simp)+
  then show ?thesis by (simp add: insert_commute)
qed

section \<open>Drivers\<close>

text \<open>What the initialisers of the interrupt hardware change.\<close>

definition irq_only :: "('d, 'z) idt_st_scheme \<Rightarrow> ('d, 'z) idt_st_scheme \<Rightarrow> bool" where
  "irq_only s t \<longleftrightarrow> (\<exists>d i f g h. t = s\<lparr>dev := d, idtr := i, int_flag := f, idt_table := g, irq_handlers := h\<rparr>)"

lemma irq_onlyI: "t = s\<lparr>dev := d, idtr := i, int_flag := f, idt_table := g, irq_handlers := h\<rparr> \<Longrightarrow> irq_only s t"
  unfolding irq_only_def by blast

lemma irq_only_refl [frame_intros]: "irq_only s s"
  by (rule irq_onlyI [where d = "dev s" and i = "idtr s" and f = "int_flag s" and g = "idt_table s" and h = "irq_handlers s"]) simp

lemma irq_only_trans:
  assumes "irq_only s t" "irq_only t u"
  shows "irq_only s u"
proof -
  obtain d i f g h d' i' f' g' h' where "t = s\<lparr>dev := d, idtr := i, int_flag := f, idt_table := g, irq_handlers := h\<rparr>"
      "u = t\<lparr>dev := d', idtr := i', int_flag := f', idt_table := g', irq_handlers := h'\<rparr>"
    using assms unfolding irq_only_def by blast
  then show ?thesis by (intro irq_onlyI [where d = d' and i = i' and f = f' and g = g' and h = h']) simp
qed

lemma irq_only_dev:
  assumes "irq_only s t" "dev_only t u"
  shows "irq_only s u"
proof -
  obtain d where "u = t\<lparr>dev := d\<rparr>" using assms(2) unfolding dev_only_def by blast
  then have "irq_only t u" by (intro irq_onlyI [where d = d and i = "idtr t" and f = "int_flag t" and g = "idt_table t" and h = "irq_handlers t"]) simp
  then show ?thesis by (rule irq_only_trans [OF assms(1)])
qed

lemma irq_only_fields [frame_intros]:
  "irq_only s t \<Longrightarrow> irq_only s (t\<lparr>idtr := i\<rparr>)" "irq_only s t \<Longrightarrow> irq_only s (t\<lparr>int_flag := f\<rparr>)"
  "irq_only s t \<Longrightarrow> irq_only s (t\<lparr>idt_table := g\<rparr>)" "irq_only s t \<Longrightarrow> irq_only s (t\<lparr>irq_handlers := h\<rparr>)"
proof -
  assume t: "irq_only s t"
  show "irq_only s (t\<lparr>idtr := i\<rparr>)"
    by (rule irq_only_trans [OF t], rule irq_onlyI [where d = "dev t" and i = i and f = "int_flag t" and g = "idt_table t" and h = "irq_handlers t"]) simp
  show "irq_only s (t\<lparr>int_flag := f\<rparr>)"
    by (rule irq_only_trans [OF t], rule irq_onlyI [where d = "dev t" and i = "idtr t" and f = f and g = "idt_table t" and h = "irq_handlers t"]) simp
  show "irq_only s (t\<lparr>idt_table := g\<rparr>)"
    by (rule irq_only_trans [OF t], rule irq_onlyI [where d = "dev t" and i = "idtr t" and f = "int_flag t" and g = g and h = "irq_handlers t"]) simp
  show "irq_only s (t\<lparr>irq_handlers := h\<rparr>)"
    by (rule irq_only_trans [OF t], rule irq_onlyI [where d = "dev t" and i = "idtr t" and f = "int_flag t" and g = "idt_table t" and h = h]) simp
qed

lemmas irq_only_ports [frame_intros] =
  irq_only_dev [OF _ dev_only_ports(1) [OF dev_only_refl]] irq_only_dev [OF _ dev_only_ports(3) [OF dev_only_refl]]

lemma irq_only_fold: "(\<And>x u. irq_only s u \<Longrightarrow> irq_only s (f x u)) \<Longrightarrow> irq_only s t \<Longrightarrow> irq_only s (fold f xs t)"
  by (induction xs arbitrary: t) simp_all

lemma irq_only_idt_init: "irq_only s (idt_init D isr irq base s)"
  unfolding idt_init_def pic_remap_def io_wait_def idt_set_gate_def frame_unfold by (intro frame_intros irq_only_fold)

lemma irq_only_register [frame_intros]: "irq_only s t \<Longrightarrow> irq_only s (irq_register_handler n h t)"
  unfolding irq_register_handler_def by (simp add: irq_only_fields)

lemma irq_only_unmask [frame_intros]: "irq_only s t \<Longrightarrow> irq_only s (irq_unmask D n t)"
  unfolding irq_unmask_def frame_unfold by (intro frame_intros)

lemma irq_only_pit_init: "irq_only s (pit_init D s)"
  unfolding pit_init_def frame_unfold by (intro frame_intros)

lemma same_irq: "irq_only s t \<Longrightarrow> p \<noteq> Irqs \<Longrightarrow> same p s t"
  by (cases p) (auto simp: irq_only_def)

lemma stage_irq:
  assumes s: "stage P A s" "Irqs \<notin> A" and t: "irq_only s t" "length (irq_handlers t) = 16"
  shows "stage P A t"
proof -
  have "if p \<in> A then holds any P p t else sized p t" for p
    using s t(2) same_irq [OF t(1), of p] same_holds [of p s t any P] same_sized [of p s t] unfolding stage_def parts_def by (cases "p = Irqs") (auto split: if_splits)
  moreover have "task_table t = task_table s" using t(1) by (auto simp: irq_only_def)
  ultimately show ?thesis using s(1) by (simp add: stage_def parts_def)
qed

lemma idt_init_handlers: "length (irq_handlers s) = 16 \<Longrightarrow> irq_handlers (idt_init D isr irq base s) = replicate 16 None"
proof -
  assume "length (irq_handlers s) = 16"
  then have "fold (\<lambda>i hs. hs[i := None]) [0..<16] (irq_handlers s) = replicate 16 None" by (rule clear_handlers)
  then show ?thesis
    by (simp add: idt_init_def Let_def outb_def pic_remap_fields fold_gate_fields del: upt_rec_numeral)
qed

lemma register_handlers:
  "irq_handlers (pit_init D s) = (irq_handlers s)[0 := Some Pit_irq_handler]" "irq_handlers (keyboard_init D s) = (irq_handlers s)[1 := Some irq_fn.Keyboard_poll]"
  by (simp_all add: pit_init_def keyboard_init_def irq_register_handler_def irq_unmask_def outb_def inb_def Let_def split_def)

text \<open>The keyboard is the last driver, so that with it the table of interrupt handlers is complete.\<close>

lemma keyboard_init_up:
  assumes s: "stage P A s" "Kbd \<notin> A" and h: "irq_handlers s = [Some Pit_irq_handler] @ replicate 15 None"
  shows "stage P (insert Irqs (insert Kbd A)) (keyboard_init D s)"
proof -
  let ?u = "s\<lparr>shift_held := False, caps_active := False, kb_head := 0, kb_tail := 0, kb_count := 0\<rparr>"
  have len: "length (kb_buf s) = 32" using parts_sized [of any P A s Kbd] s by (simp add: stage_def)
  have "irq_only ?u (keyboard_init D s)" unfolding keyboard_init_def Let_def by (intro frame_intros)
  then obtain d i f g h where e: "keyboard_init D s = ?u\<lparr>dev := d, idtr := i, int_flag := f, idt_table := g, irq_handlers := h\<rparr>" unfolding irq_only_def by blast
  have "irq_handlers (keyboard_init D s) = driver_handlers" unfolding register_handlers h by (simp add: driver_handlers_def numeral_eq_Suc)
  then have "parts any P ({Irqs, Kbd} \<union> A) (keyboard_init D s)"
  proof (intro parts_change)
    show "parts any P A s" using s by (simp add: stage_def)
    fix p assume "p \<notin> {Irqs, Kbd}" then show "same p s (keyboard_init D s)" by (cases p) (simp_all add: e)
  qed (use len in \<open>auto simp: e kb_inv_def\<close>)
  moreover have "task_table (keyboard_init D s) = task_table s" by (simp add: e)
  ultimately show ?thesis using s(1) by (simp add: stage_def)
qed

lemma boot_drivers_up:
  assumes D: "console_dev D K" and A: "Screen \<in> A" "Kbd \<notin> A" "Irqs \<notin> A"
  shows "boots (stage P A) (boot_drivers D L :: ('d, 'z) menu_st_scheme \<Rightarrow> _) (stage P (insert Irqs (insert Kbd A)))"
  unfolding boots_def
proof (intro allI impI)
  fix s :: "('d, 'z) menu_st_scheme" assume s: "stage P A s"
  have print: "\<exists>t. vga_println D msg u = Some t \<and> stage P B t \<and> irq_handlers t = irq_handlers u" if "stage P B u" "Screen \<in> B" for msg B u
  proof -
    obtain t where t: "vga_println D msg u = Some t" "console_only K u t" using drawsD [OF draws_println [OF D]] by blast
    then show ?thesis using stage_println [OF D that(2)] that(1) unfolding boots_def by (fastforce simp: console_only_def)
  qed
  have l: "length (irq_handlers s) = 16" using s A(3) parts_sized [of any P A s Irqs] by (simp add: stage_def)
  let ?a = "idt_init D (isr_stub L) (irq_stub L) (idt_base L) s"
  have a: "stage P A ?a" "irq_handlers ?a = replicate 16 None"
    using stage_irq [OF s A(3) irq_only_idt_init] idt_init_handlers [OF l] by simp_all
  obtain b where b: "vga_println D (Some ''[OK] IDT + PIC initialized'') ?a = Some b" "stage P A b" "irq_handlers b = replicate 16 None"
    using print [OF a(1) A(1)] a(2) by metis
  have p: "irq_handlers (pit_init D b) = [Some Pit_irq_handler] @ replicate 15 None" unfolding register_handlers b(3) by (simp add: numeral_eq_Suc)
  then have "stage P A (pit_init D b)" using stage_irq [OF b(2) A(3) irq_only_pit_init] by simp
  then obtain c where c: "vga_println D (Some ''[OK] PIT timer initialized'') (pit_init D b) = Some c" "stage P A c" "irq_handlers c = [Some Pit_irq_handler] @ replicate 15 None"
    using print [OF _ A(1)] p by metis
  obtain d where "vga_println D (Some ''[OK] Keyboard driver initialized'') (keyboard_init D c) = Some d" "stage P (insert Irqs (insert Kbd A)) d"
    using print [OF keyboard_init_up [OF c(2) A(2) c(3)]] A(1) by blast
  then show "\<exists>s'. boot_drivers D L s = Some s' \<and> stage P (insert Irqs (insert Kbd A)) s'" unfolding boot_drivers_def using b(1) c(1) by simp
qed

section \<open>The built-in tasks\<close>

abbreviation add_task :: "string \<times> task_fn \<times> u32 \<Rightarrow> ('d, 'z) sched_st_scheme \<Rightarrow> ('d, 'z) sched_st_scheme" where
  "add_task \<equiv> \<lambda>(name, fn, period) s. snd (scheduler_add_task (Some name) (Some fn) period s)"

definition fresh_task :: "string \<times> task_fn \<times> u32 \<Rightarrow> task_t \<Rightarrow> bool" where
  "fresh_task x t \<longleftrightarrow> (case x of (name, fn, period) \<Rightarrow>
     tk_fn t = Some fn \<and> tk_period t = period \<and> tk_state t = TASK_STATE_READY \<and> length (tk_name t) = 16 \<and> cstr (tk_name t) = take 15 (cstr name))"

lemma find_index_append: "\<forall>x \<in> set xs. \<not> P x \<Longrightarrow> P y \<Longrightarrow> find_index P (xs @ y # ys) = Some (length xs)"
  by (induction xs) simp_all

lemma add_tasks_effect:
  assumes "task_table s = ts @ es" "\<forall>t \<in> set ts. tk_state t \<noteq> TASK_STATE_EMPTY" "\<forall>t \<in> set es. tk_state t = TASK_STATE_EMPTY \<and> length (tk_name t) = 16"
    "length xs \<le> length es" "length ts + length es = 16" "task_count_val s = int (length ts)"
  shows "\<exists>us. fold add_task xs s = s\<lparr>task_table := ts @ us @ drop (length xs) es, task_count_val := int (length ts + length xs)\<rparr> \<and> list_all2 fresh_task xs us"
  using assms
proof (induction xs arbitrary: s ts es)
  case Nil
  then have "s = s\<lparr>task_table := ts @ es, task_count_val := int (length ts)\<rparr>" by simp
  then show ?case by (intro exI [of _ "[]"]) simp
next
  case (Cons x xs)
  obtain name fn period where x: "x = (name, fn, period)" by (cases x)
  obtain e es' where es: "es = e # es'" using Cons.prems(4) by (cases es) auto
  let ?e = "e\<lparr>tk_name := set_name (tk_name e) name 16, tk_fn := Some fn, tk_state := TASK_STATE_READY, tk_period := period, tk_last_run := 0, tk_tick_count := 0\<rparr>"
  let ?s = "s\<lparr>task_table := (ts @ [?e]) @ es', task_count_val := int (length ts) + 1\<rparr>"
  have fi: "find_index (\<lambda>t. tk_state t = TASK_STATE_EMPTY) (task_table s) = Some (length ts)"
    unfolding Cons.prems(1) es using Cons.prems(2,3) es by (intro find_index_append) auto
  have "add_task x s = ?s" unfolding x using fi Cons.prems(1,5,6) es by (simp add: scheduler_add_task_def set_task_def list_update_append)
  moreover obtain us where "fold add_task xs ?s = ?s\<lparr>task_table := (ts @ [?e]) @ us @ drop (length xs) es', task_count_val := int (length (ts @ [?e]) + length xs)\<rparr>"
      "list_all2 fresh_task xs us"
    using Cons.IH [of ?s "ts @ [?e]" es'] Cons.prems es by auto
  moreover have "fresh_task x ?e" using Cons.prems(3) es by (simp add: x fresh_task_def cstr_set_name)
  ultimately show ?case by (intro exI [of _ "?e # us"]) (simp add: es)
qed

text \<open>The seven tasks, by name, function and period; the other slots have no live task.\<close>

definition boot_tasks_ok :: "task_list \<Rightarrow> bool" where
  "boot_tasks_ok v \<longleftrightarrow> length v = 16 \<and> map (\<lambda>(n, f, p, l). (cstr n, f, p, l)) (take 7 v) = map (\<lambda>(n, f, p). (n, Some f, p, True)) boot_task_list \<and>
     (\<forall>x \<in> set (drop 7 v). \<not> snd (snd (snd x)))"

lemma fresh_task_view:
  assumes "fresh_task x t" "length (cstr (fst x)) < 16" "cstr (fst x) = fst x"
  shows "(cstr (tk_name t), tk_fn t, tk_period t, task_live t) = (case x of (n, f, p) \<Rightarrow> (n, Some f, p, True))" "task_ok t" "task_live t"
  using assms by (cases x, simp add: fresh_task_def task_live_def task_ok_def callable_def)+

lemma fresh_view:
  assumes "list_all2 fresh_task xs us" "\<forall>x \<in> set xs. length (cstr (fst x)) < 16 \<and> cstr (fst x) = fst x"
  shows "map (\<lambda>(n, f, p, l). (cstr n, f, p, l)) (task_view us) = map (\<lambda>(n, f, p). (n, Some f, p, True)) xs \<and> (\<forall>t \<in> set us. task_ok t \<and> task_live t)"
  using assms
proof (induction rule: list_all2_induct)
  case (Cons x xs u us)
  have x: "length (cstr (fst x)) < 16" "cstr (fst x) = fst x" and xs: "\<forall>x \<in> set xs. length (cstr (fst x)) < 16 \<and> cstr (fst x) = fst x"
    using Cons.prems [unfolded list.set ball_simps] by blast+
  have "task_view (u # us) = (tk_name u, tk_fn u, tk_period u, task_live u) # task_view us" by (simp add: task_view_def)
  then show ?case using fresh_task_view [OF Cons.hyps(1) x] Cons.IH [OF xs] by (simp only: list.map prod.case list.set ball_simps) simp
qed (simp add: task_view_def)

lemma boot_task_names: "length boot_task_list = 7" "\<forall>x \<in> set boot_task_list. length (cstr (fst x)) < 16 \<and> cstr (fst x) = fst x"
  by (simp_all add: boot_task_list_def cstr_def)

lemma holds_tasks: "p \<noteq> Tasks \<Longrightarrow> holds T P p s = holds T' P p s"
  by (cases p) simp_all

lemma boot_tasks_up:
  assumes D: "console_dev D K" and A: "Screen \<in> A" "Tasks \<in> A"
  shows "boots (stage P A) (boot_tasks D :: ('d, 'z) menu_st_scheme \<Rightarrow> _) (parts boot_tasks_ok P A)"
  unfolding boot_tasks_def
proof (rule boots_bind)
  show "boots (parts boot_tasks_ok P A) (vga_println D (Some ''[OK] Built-in tasks registered'')) (parts boot_tasks_ok P A)"
    by (rule boots_drawn [where K = K, OF drawn_draws [OF draws_println [OF D]] A(1)])
  show "boots (stage P A) (\<lambda>s :: ('d, 'z) menu_st_scheme. Some (fold add_task boot_task_list s)) (parts boot_tasks_ok P A)"
  proof (rule boots_Some)
    fix s :: "('d, 'z) menu_st_scheme" assume s: "stage P A s"
    have up: "parts any P A s" and em: "\<forall>t \<in> set (task_table s). tk_state t = TASK_STATE_EMPTY" using s A(2) by (simp_all add: stage_def)
    have inv: "sched_inv s" using parts_holds [OF up A(2)] by simp
    have len: "length (task_table s) = 16" "\<forall>t \<in> set (task_table s). length (tk_name t) = 16" "task_count_val s = 0"
      using inv em by (simp_all add: sched_inv_def task_ok_def task_live_def)
    obtain us where us: "fold add_task boot_task_list s = s\<lparr>task_table := us @ drop 7 (task_table s), task_count_val := 7\<rparr>" "list_all2 fresh_task boot_task_list us"
      using add_tasks_effect [of s "[]" "task_table s" boot_task_list] em len boot_task_names(1) by auto
    let ?s = "s\<lparr>task_table := us @ drop 7 (task_table s), task_count_val := 7\<rparr>"
    have l7: "length us = 7" using list_all2_lengthD [OF us(2)] boot_task_names(1) by simp
    note v = fresh_view [OF us(2) boot_task_names(2)]
    have dr: "\<not> task_live t \<and> task_ok t" if "t \<in> set (drop 7 (task_table s))" for t
      using in_set_dropD [OF that] em inv by (simp add: task_live_def sched_inv_def)
    then have "filter task_live (drop 7 (task_table s)) = []" by (simp add: filter_empty_conv)
    moreover have "filter task_live us = us" using v by simp
    ultimately have "sched_inv ?s" using v dr len(1) l7 by (auto simp: sched_inv_def)
    moreover have "boot_tasks_ok (task_view (task_table ?s))" using v dr l7 len(1) by (simp add: boot_tasks_ok_def task_view_def)
    ultimately have h: "holds boot_tasks_ok P Tasks ?s" by simp
    have "parts boot_tasks_ok P A ?s"
      unfolding parts_def
    proof
      fix p
      have "if p \<in> A then holds any P p s else sized p s" using up unfolding parts_def by blast
      moreover have "same p s ?s" if "p \<noteq> Tasks" using that by (cases p) simp_all
      ultimately show "if p \<in> A then holds boot_tasks_ok P p ?s else sized p ?s"
        using h A(2) same_holds [of p s ?s any P] same_sized [of p s ?s] holds_tasks [of p any P ?s boot_tasks_ok] by (cases "p = Tasks") (simp_all split: if_splits)
    qed
    then show "parts boot_tasks_ok P A (fold add_task boot_task_list s)" unfolding us(1) .
  qed
qed

section \<open>Modules and adapters\<close>

text \<open>The four plugins.\<close>

definition boot_plugins_ok :: "u32 \<Rightarrow> plugin_map \<Rightarrow> bool" where
  "boot_plugins_ok addr v \<longleftrightarrow> (\<forall>k. v k =
     (if cstr k = ''hello'' then Some (hello_desc, PLUGIN_STATE_ACTIVE)
      else if cstr k = ''aura_core'' then Some (core_desc, PLUGIN_STATE_ACTIVE)
      else if cstr k = ''serial-com1'' then Some (adapter_desc addr serial_adapter_0, PLUGIN_STATE_ACTIVE)
      else if cstr k = ''net'' then Some (net_desc, PLUGIN_STATE_ACTIVE) else None))"

lemma parts_target: "parts T P A s \<Longrightarrow> P' (plugin_view s) \<Longrightarrow> parts T P' A s"
  unfolding parts_def using holds_plugins [of _ T P s P'] by (metis holds.simps(5))

lemma drawn_plugins:
  assumes "console_only K s s'"
  shows "plugin_table s' = plugin_table s" "plugin_count_val s' = plugin_count_val s" "module_registry s' = module_registry s"
    "serial_adapter s' = serial_adapter s" "plugin_at s' k = plugin_at s k" "plugin_inv s' = plugin_inv s" "plugin_count s' = plugin_count s"
  using assms by (auto simp: console_only_def plugin_at_def plugin_inv_def plugin_count_def)

lemma boot_modules_up:
  assumes D: "console_dev D K" and A: "{Screen, Bus, Plugins} \<subseteq> A" "Mods \<notin> A"
  shows "boots (parts T no_plugin A) (boot_modules D L :: ('d, 'z) menu_st_scheme \<Rightarrow> _) (parts T (boot_plugins_ok (adapter_addr L)) (insert Mods A))"
  unfolding boots_def
proof (intro allI impI)
  fix s :: "('d, 'z) menu_st_scheme" assume s: "parts T no_plugin A s"
  have pl: "plugin_inv s" "no_plugin (plugin_view s)" using parts_holds [OF s, of Plugins] A(1) by simp_all
  then have none: "plugin_at s k = None" for k by (simp add: no_plugin_def plugin_view_def)
  obtain h c where md: "module_registry s = registry h c" "serial_adapter s = serial_adapter_0" using parts_sized [OF s A(2)] by auto
  obtain a where a: "loader_load_all D (loader_init s) = Some a" "calm s a" "plugin_inv a" "plugin_count a = 2" "module_registry a = registry True True"
      "serial_adapter a = serial_adapter_0"
      "\<And>k. plugin_view a k = (if cstr k = ''hello'' then Some (hello_desc, PLUGIN_STATE_ACTIVE)
        else if cstr k = ''aura_core'' then Some (core_desc, PLUGIN_STATE_ACTIVE) else None)"
    using load_all_effect [OF D pl(1) none md(1)] md(2) unfolding plugin_view_def by auto
  obtain b where b: "vga_println D (Some ''[OK] Modules loaded'') a = Some b" "console_only K a b" using drawsD [OF draws_println [OF D]] by blast
  note f = drawn_plugins [OF b(2)]
  have "plugin_view b k = plugin_view a k" for k by (simp add: plugin_view_def f(5))
  then have vb: "plugin_view b k = (if cstr k = ''hello'' then Some (hello_desc, PLUGIN_STATE_ACTIVE)
        else if cstr k = ''aura_core'' then Some (core_desc, PLUGIN_STATE_ACTIVE) else None)" for k by (simp only: a(7))
  have nb: "plugin_at b ''serial-com1'' = None" "plugin_at b ''net'' = None"
    using vb [of "''serial-com1''"] vb [of "''net''"] by (simp_all add: plugin_view_def)
  have pb: "plugin_inv b" "plugin_count b = 2" "serial_adapter b = serial_adapter_0" using f(4,6,7) a(3,4,6) by simp_all
  from adapters_effect [OF D pb nb, of "adapter_addr L"]
  obtain c d where cd: "adapter_serial_register D (adapter_addr L) b = Some c" "adapter_net_register D c = Some d" "calm b d" "plugin_inv d"
      "module_registry d = module_registry b"
      "\<And>k. plugin_view d k = (if cstr k = ''serial-com1'' then Some (adapter_desc (adapter_addr L) serial_adapter_0, PLUGIN_STATE_ACTIVE)
        else if cstr k = ''net'' then Some (net_desc, PLUGIN_STATE_ACTIVE) else plugin_view b k)"
    unfolding plugin_view_def by blast
  have "boot_plugins_ok (adapter_addr L) (plugin_view d)" unfolding boot_plugins_ok_def by (simp add: cd(6) vb)
  moreover have "calm s d" using calm_trans [OF a(2) calm_trans [OF calm_draw [OF b(2)] cd(3)]] .
  then have "parts T any (insert Mods A) d"
    using parts_calm [OF parts_target [OF s, of any], of d] A(1) cd(4,5) f(3) a(5) by (simp add: insert_absorb insert_commute)
  ultimately have d: "parts T (boot_plugins_ok (adapter_addr L)) (insert Mods A) d" using parts_target by blast
  obtain e where e: "vga_println D (Some ''[OK] Adapters registered'') d = Some e" "parts T (boot_plugins_ok (adapter_addr L)) (insert Mods A) e"
    using drawn_keeps [OF drawn_draws [OF draws_println [OF D]] d] A(1) by blast
  have "boot_modules D L s = Some e" unfolding boot_modules_def using a(1) b(1) cd(1,2) e(1) by simp
  then show "\<exists>s'. boot_modules D L s = Some s' \<and> parts T (boot_plugins_ok (adapter_addr L)) (insert Mods A) s'" using e(2) by blast
qed

section \<open>The disk and the menu\<close>

lemma parts_dev: "parts T P A s \<Longrightarrow> dev_only s t \<Longrightarrow> parts T P A t"
proof (erule parts_same)
  fix p assume "dev_only s t" then show "same p s t" by (cases p) (auto simp: dev_only_def)
qed

lemma parts_disk: "parts T P A s \<Longrightarrow> disk_only s t \<Longrightarrow> parts T P A t"
proof (erule parts_same)
  fix p assume "disk_only s t" then show "same p s t" by (cases p) (auto simp: disk_only_def)
qed

lemma parts_env_load:
  assumes up: "parts T P A s" and A: "Vars \<in> A"
  shows "parts T P A (snd (env_load D s))"
proof -
  have "vars_ok (env_table s)" using parts_holds [OF up A] by simp
  then obtain r u t b where e: "env_load D s = (r, u\<lparr>env_table := t, env_load_buf := b\<rparr>)" "disk_only s u" "vars_ok t" using env_load_frame by blast
  have "parts T P (insert Vars A) (u\<lparr>env_table := t, env_load_buf := b\<rparr>)"
  proof (rule parts_up [OF parts_disk [OF up e(2)]])
    fix p assume "p \<noteq> Vars" then show "same p u (u\<lparr>env_table := t, env_load_buf := b\<rparr>)" by (cases p) simp_all
  qed (use e(3) in simp)
  then show ?thesis using e(1) A by (simp add: insert_absorb)
qed

lemma boots_if: "boots (\<lambda>s. P s \<and> b s) f Q \<Longrightarrow> boots (\<lambda>s. P s \<and> \<not> b s) g Q \<Longrightarrow> boots P (\<lambda>s. if b s then f s else g s) Q"
  unfolding boots_def by auto

lemma println_parts: "console_dev D K \<Longrightarrow> Screen \<in> A \<Longrightarrow> parts T P A s \<Longrightarrow> \<exists>s'. vga_println D msg s = Some s' \<and> parts T P A s'"
  using drawn_keeps [OF drawn_draws [OF draws_println]] by blast

lemma boot_disk_up:
  assumes D: "console_dev D K" and A: "Screen \<in> A" "Vars \<in> A"
  shows "boots (parts T P A) (boot_disk D :: ('d, 'z) menu_st_scheme \<Rightarrow> _) (parts T P A)"
  unfolding boots_def
proof (intro allI impI)
  fix s :: "('d, 'z) menu_st_scheme" assume s: "parts T P A s"
  note pr = println_parts [OF D A(1), of T P]
  obtain r a where a: "ata_init D s = (r, a)" by fastforce
  have pa: "parts T P A a" using parts_dev [OF s dev_only_init [OF dev_only_refl], of D] a by simp
  show "\<exists>s'. boot_disk D s = Some s' \<and> parts T P A s'"
  proof (cases "r = AURA_OK")
    case False
    then show ?thesis using pr [OF pa] by (simp add: boot_disk_def a)
  next
    case ata: True
    obtain b where b: "vga_println D (Some ''[OK] ATA primary master detected'') a = Some b" "parts T P A b" using pr [OF pa] by blast
    obtain q c where c: "fat12_init D b = (q, c)" by fastforce
    have pc: "parts T P A c" using parts_disk [OF b(2) disk_only_fat12_init [OF disk_only_refl], of D] c by simp
    show ?thesis
    proof (cases "q = AURA_OK")
      case False
      then show ?thesis using pr [OF pc] ata b(1) by (simp add: boot_disk_def a c)
    next
      case True
      obtain e where e: "vga_println D (Some ''[OK] FAT12 volume mounted'') c = Some e" "parts T P A e" using pr [OF pc] by blast
      obtain n f where f: "env_load D e = (n, f)" by fastforce
      have "parts T P A f" using parts_env_load [OF e(2) A(2), of D] f by simp
      then show ?thesis using pr [of f] ata True b(1) e(1) by (simp add: boot_disk_def a c f)
    qed
  qed
qed

lemma boot_running:
  "boots (parts T P A) (\<lambda>s :: ('d, 'z) menu_st_scheme. Some (s\<lparr>g_kernel_state := KERNEL_STATE_RUN\<rparr>)) (parts T P (insert Running A))"
proof (rule boots_Some, erule parts_up)
  fix s :: "('d, 'z) menu_st_scheme" and p
  assume "p \<noteq> Running" then show "same p s (s\<lparr>g_kernel_state := KERNEL_STATE_RUN\<rparr>)" by (cases p) simp_all
qed simp

lemma parts_slot_up:
  assumes "parts T P A s"
  shows "parts T P (insert Slot A) s"
proof -
  have "holds T P Slot s" using parts_holds [OF assms, of Slot] parts_sized [OF assms, of Slot] by (cases "Slot \<in> A") simp_all
  moreover have "same p s s" for p by (cases p) simp_all
  ultimately show ?thesis using parts_up [OF assms] by blast
qed

lemma menu_run_up:
  assumes D: "console_dev D K" and A: "{Screen, Heap, Bus, Snaps} \<subseteq> A"
  shows "boots (parts T P A) (menu_run D :: ('d, 'z) menu_st_scheme \<Rightarrow> _) (parts T P (insert Bootsnap A))"
  unfolding boots_def
proof (intro allI impI)
  fix s :: "('d, 'z) menu_st_scheme" assume s: "parts T P A s"
  have S: "Screen \<in> A" using A by simp
  have "drawn K s (do { s \<leftarrow> Some (vga_clear D s); menu_draw_banner D s })" using D by (intro drawn_intros)
  from drawn_keeps [OF this s S] obtain a where a: "do { s \<leftarrow> Some (vga_clear D s); menu_draw_banner D s } = Some a" "parts T P A a" by blast
  obtain bs where bs: "heap_rep a bs" using parts_holds [OF a(2), of Heap] A by auto
  obtain b where b: "menu_show_status D a = Some b" "parts T P A b" using drawn_keeps [OF drawn_show_status [OF D bs] a(2) S] by blast
  obtain c where c: "menu_show_options D b = Some c" "parts T P A c" using drawn_keeps [OF drawn_show_options [OF D] b(2) S] by blast
  obtain d where d: "mirror_capture 1 ''boot-snapshot'' MIRROR_FLAG_ALL c = Some (AURA_OK, d)" "parts T P (insert Bootsnap A) d"
    using mirror_capture_keeps [OF c(2), of 1 "''boot-snapshot''" MIRROR_FLAG_ALL] A by auto
  have "drawn K d (do { s \<leftarrow> Some (vga_set_color VGA_COLOR_LIGHT_GREEN VGA_COLOR_BLACK d); vga_println D (Some (LF # ''[Aura] OS ready. Entering autonomous kernel loop...'')) s })"
    using D by (intro drawn_intros)
  from drawn_keeps [OF this d(2)] S obtain e where e: "do { s \<leftarrow> Some (vga_set_color VGA_COLOR_LIGHT_GREEN VGA_COLOR_BLACK d); vga_println D (Some (LF # ''[Aura] OS ready. Entering autonomous kernel loop...'')) s } = Some e"
      "parts T P (insert Bootsnap A) e" by blast
  have "menu_run D s = Some e" unfolding menu_run_def using a(1) b(1) c(1) d(1) e(1) by simp
  then show "\<exists>s'. menu_run D s = Some s' \<and> parts T P (insert Bootsnap A) s'" using e(2) by blast
qed

section \<open>The whole boot sequence\<close>

lemma all_parts: "insert Slot (insert Bootsnap (insert Running (insert Mods (insert Irqs (insert Kbd {Screen, Heap, Bus, Plugins, Snaps, Tasks, Vars, Files}))))) = UNIV"
  using part.exhaust by blast

lemma kernel_boot_up:
  assumes D: "console_dev D K"
  shows "boots (parts any any {}) (kernel_boot D L :: ('d, 'z) menu_st_scheme \<Rightarrow> _) (parts boot_tasks_ok (boot_plugins_ok (adapter_addr L)) UNIV)"
proof -
  let ?A = "insert Irqs (insert Kbd {Screen, Heap, Bus, Plugins, Snaps, Tasks, Vars, Files})"
  have st: "parts any any {} = (stage any {} :: ('d, 'z) menu_st_scheme \<Rightarrow> _)" by (simp add: fun_eq_iff stage_def)
  have "boots (parts any any {}) (kernel_boot D L :: ('d, 'z) menu_st_scheme \<Rightarrow> _) (parts boot_tasks_ok (boot_plugins_ok (adapter_addr L)) (insert Bootsnap (insert Running (insert Mods ?A))))"
    unfolding kernel_boot_def st
    by (rule boots_bind [OF boot_core_up [OF D]] boots_bind [OF boot_drivers_up [OF D]] boots_bind [OF boot_tasks_up [OF D]] boots_bind [OF boot_modules_up [OF D]]
        boots_bind [OF boot_disk_up [OF D]] boots_bind [OF boots_drawn [OF drawn_draws [OF draws_println [OF D]]]] boots_bind [OF boot_running] menu_run_up [OF D] | simp)+
  then show ?thesis unfolding boots_def all_parts [symmetric] using parts_slot_up by blast
qed

text \<open>The invariant of the kernel does not depend on which tasks and plugins there are.\<close>

lemma parts_any: "parts T P A s \<Longrightarrow> parts any any A s"
  unfolding parts_def using holds_plugins [of _ T P s any] holds_tasks [of _ T any s any] by (metis (full_types) holds.simps(5,6))

section \<open>The main loop\<close>

lemma scheduler_ticks_Suc: "scheduler_ticks run (Suc n) s = and_then (scheduler_tick run s) (scheduler_ticks run n)"
proof (induction n)
  case 0
  show ?case by (cases "scheduler_tick run s"; cases "the (scheduler_tick run s)") simp_all
next
  case (Suc n)
  have "scheduler_ticks run (Suc (Suc n)) s = and_then (and_then (scheduler_tick run s) (scheduler_ticks run n)) (scheduler_tick run)"
    using Suc by (simp only: scheduler_ticks.simps(2) [of run "Suc n" s])
  also have "\<dots> = and_then (scheduler_tick run s) (scheduler_ticks run (Suc n))"
    by (cases "scheduler_tick run s"; cases "the (scheduler_tick run s)") simp_all
  finally show ?case .
qed

text \<open>The loop ends exactly when one of the ticks stops the processor.\<close>

lemma kernel_loop_iff:
  fixes s :: "('d, 'z) sched_st_scheme"
  shows "kernel_loop run s = Some s' \<longleftrightarrow> (\<exists>n. scheduler_ticks run n s = Some (Halt s'))"
proof
  show "\<exists>n. scheduler_ticks run n s = Some (Halt s')" if l: "kernel_loop run s = Some s'"
  proof (rule kernel_loop.raw_induct [OF _ l, where P = "\<lambda>run s s'. \<exists>n. scheduler_ticks run n s = Some (Halt s')"])
    fix loop run and s s' :: "('d, 'z) sched_st_scheme"
    assume IH: "\<And>s b y. loop s b = Some y \<Longrightarrow> \<exists>n. scheduler_ticks s n b = Some (Halt y)"
      and "do { r \<leftarrow> scheduler_tick run s; case r of Halt s' \<Rightarrow> Some s' | Ret s' \<Rightarrow> loop run s' } = Some s'"
    then obtain r where r: "scheduler_tick run s = Some r" "(case r of Halt s' \<Rightarrow> Some s' | Ret s' \<Rightarrow> loop run s') = Some s'" by (auto simp: Option.bind_eq_Some_conv)
    show "\<exists>n. scheduler_ticks run n s = Some (Halt s')"
    proof (cases r)
      case (Ret u)
      then have "loop run u = Some s'" using r(2) by simp
      from IH [OF this] obtain n where "scheduler_ticks run n u = Some (Halt s')" ..
      then show ?thesis using r(1) Ret by (intro exI [of _ "Suc n"]) (simp only: scheduler_ticks_Suc, simp)
    next
      case (Halt u)
      then show ?thesis using r by (intro exI [of _ 1]) simp
    qed
  qed
  show "\<exists>n. scheduler_ticks run n s = Some (Halt s') \<Longrightarrow> kernel_loop run s = Some s'"
  proof (elim exE)
    fix n show "scheduler_ticks run n s = Some (Halt s') \<Longrightarrow> kernel_loop run s = Some s'"
    proof (induction n arbitrary: s)
      case (Suc n)
      then obtain r where r: "scheduler_tick run s = Some r" by (cases "scheduler_tick run s") (simp_all add: scheduler_ticks_Suc del: scheduler_ticks.simps)
      show ?case
      proof (cases r)
        case (Ret u)
        then have "scheduler_ticks run n u = Some (Halt s')" using Suc.prems r by (simp add: scheduler_ticks_Suc del: scheduler_ticks.simps)
        then show ?thesis using Suc.IH r Ret by (subst kernel_loop.simps) simp
      next
        case (Halt u)
        then show ?thesis using Suc.prems r by (subst kernel_loop.simps) (simp add: scheduler_ticks_Suc del: scheduler_ticks.simps)
      qed
    qed simp
  qed
qed

section \<open>An emulated machine\<close>

text \<open>A UART and a keyboard controller with the scancodes not read yet; no disk answers.\<close>

record pc =
  pc_uart :: uart_emu_st
  pc_keys :: "u8 list"

definition pc_emu :: "pc io_dev" where
  "pc_emu = \<lparr>in8 = (\<lambda>p d. if p = KBD_STATUS_PORT then (if pc_keys d = [] then 0 else 1, d)
       else if p = KBD_DATA_PORT then (case pc_keys d of [] \<Rightarrow> (0, d) | sc # scs \<Rightarrow> (sc, d\<lparr>pc_keys := scs\<rparr>))
       else (let (v, u) = in8 uart_emu p (pc_uart d) in (v, d\<lparr>pc_uart := u\<rparr>))),
     out8 = (\<lambda>p v d. d\<lparr>pc_uart := out8 uart_emu p v (pc_uart d)\<rparr>),
     in16 = (\<lambda>p d. (0, d)), out16 = (\<lambda>p v d. d)\<rparr>"

lemma pc_emu_live: "tx_live pc_emu d"
proof (induction "emu_busy (pc_uart d)" arbitrary: d)
  case 0
  then show ?case by (intro tx_live.ready) (simp add: pc_emu_def uart_emu_def)
next
  case (Suc n)
  let ?d = "d\<lparr>pc_uart := (pc_uart d)\<lparr>emu_busy := n\<rparr>\<rparr>"
  have e: "in8 pc_emu COM1_LSR d = (0, ?d)" using Suc.hyps(2) [symmetric] by (simp add: pc_emu_def uart_emu_def)
  have l: "tx_live pc_emu ?d" using Suc.hyps(1) [of ?d] by simp
  show ?case by (rule tx_live.poll) (simp add: e l)
qed

lemma pc_emu_feed: "\<exists>scs d'. kbd_feed pc_emu d scs d'"
proof (induction "pc_keys d" arbitrary: d)
  case Nil
  then have "kbd_feed pc_emu d [] d" by (intro kbd_feed.empty [where st = 0]) (simp_all add: pc_emu_def)
  then show ?case by blast
next
  case (Cons sc scs)
  let ?d = "d\<lparr>pc_keys := scs\<rparr>"
  obtain xs d' where "kbd_feed pc_emu ?d xs d'" using Cons(1) [of ?d] by auto
  then have "kbd_feed pc_emu d (sc # xs) d'"
    using Cons(2) by (intro kbd_feed.scancode [where st = 1 and ?d1.0 = d and ?d2.0 = ?d]) (simp_all add: pc_emu_def flip: Cons(2))
  then show ?case by blast
qed

lemma pc_emu_ok: "machine_ok pc_emu"
  unfolding machine_ok_def console_dev_def by (intro conjI allI impI pc_emu_live pc_emu_feed) simp_all

definition power_on :: "u8 list \<Rightarrow> pc menu_st" where
  "power_on scs = (blank_sched \<lparr>pc_uart = \<lparr>emu_dlab = False, emu_sent = [], emu_busy = 0\<rparr>, pc_keys = scs\<rparr>
     (fat_st_ext (replicate 512 0) (replicate 4608 0) False (env_st_ext (replicate 16 blank_var) (replicate 512 0) (replicate 512 0)
       (fs_st_ext (replicate 32 blank_node) (mirror_st_ext (replicate 4 blank_snapshot) 0
         (mod_st_ext 0 0 serial_adapter_0 module_registry_0 (menu_st_ext 2 ())))))))\<lparr>kb_buf := replicate 32 NUL, irq_handlers := replicate 16 None,
      idt_table := replicate 256 \<lparr>offset_lo = 0, selector = 0, zero = 0, type_attr = 0, offset_hi = 0\<rparr>\<rparr>"

lemma power_on_fields:
  "kb_buf (power_on scs) = replicate 32 NUL" "irq_handlers (power_on scs) = replicate 16 None" "queue (power_on scs) = replicate 64 \<lparr>e_topic = 0, e_data = 0, e_timestamp = 0\<rparr>"
  "handlers (power_on scs) = replicate 32 (replicate 8 0)" "plugin_table (power_on scs) = plugin_table demo_plugins"
  "task_table (power_on scs) = replicate 16 blank_task" "env_table (power_on scs) = replicate 16 blank_var" "fs_table (power_on scs) = replicate 32 blank_node"
  "snapshots (power_on scs) = replicate 4 blank_snapshot" "snap_slot (power_on scs) = 2" "module_registry (power_on scs) = module_registry_0"
  "serial_adapter (power_on scs) = serial_adapter_0"
  by (simp_all add: power_on_def blank_sched_def)

lemma power_on_static: "parts any any {} (power_on scs)"
proof -
  have "sized p (power_on scs)" for p
    using demo_plugins_inv(1)
    by (cases p) (simp_all add: power_on_fields plugin_inv_def vars_ok_def var_ok_def blank_var_def blank_node_def snap_inv_def blank_snapshot_def blank_task_def registry_0, blast)
  then show ?thesis by (simp add: parts_def)
qed

definition demo_link :: link_map where
  "demo_link = \<lparr>isr_stub = (\<lambda>n. 0x11000 + of_nat n * 16), irq_stub = (\<lambda>n. 0x12000 + of_nat n * 16), idt_base = 0x13000, adapter_addr = 0x14000\<rparr>"

text \<open>The emulated machine after the boot sequence, with one key in the keyboard buffer.\<close>

definition demo_kernel :: "char \<Rightarrow> pc menu_st" where
  "demo_kernel c = (the (kernel_boot pc_emu demo_link (power_on [])))\<lparr>kb_buf := c # replicate 31 NUL, kb_head := 1, kb_tail := 0, kb_count := 1\<rparr>"

lemma demo_kernel_inv: "kernel_inv (demo_kernel c)" "kb_contents (demo_kernel c) = [c]"
proof -
  have "console_dev pc_emu (\<lambda>_. ())" using pc_emu_ok by (simp add: machine_ok_def)
  then obtain b where b: "kernel_boot pc_emu demo_link (power_on []) = Some b" "parts boot_tasks_ok (boot_plugins_ok (adapter_addr demo_link)) UNIV b"
    using kernel_boot_up [of pc_emu _ demo_link] power_on_static unfolding boots_def by blast
  have e: "demo_kernel c = b\<lparr>kb_buf := c # replicate 31 NUL, kb_head := 1, kb_tail := 0, kb_count := 1\<rparr>" by (simp add: demo_kernel_def b(1))
  have "holds boot_tasks_ok (boot_plugins_ok (adapter_addr demo_link)) Kbd (demo_kernel c)" by (simp add: e kb_inv_def)
  then have "parts boot_tasks_ok (boot_plugins_ok (adapter_addr demo_link)) (insert Kbd UNIV) (demo_kernel c)"
  proof (rule parts_up [OF b(2)])
    fix p assume "p \<noteq> Kbd" then show "same p b (demo_kernel c)" by (cases p) (simp_all add: e)
  qed
  then show "kernel_inv (demo_kernel c)" using parts_any by (simp add: kernel_inv_def)
  show "kb_contents (demo_kernel c) = [c]" by (simp add: e kb_contents_def ring_list_def)
qed

end
