(* ===== verification/Kernel_Interrupts.thy ===== *)
theory Kernel_Interrupts
  imports Kernel_Boot
begin

text \<open>
  Interrupts while the kernel runs. \<open>irq_run\<close> lets the scheduler call a task after any sequence of hardware
  interrupts has been taken, each through \<^verbatim>\<open>irq_dispatch\<close> and the handler the drivers have registered. Which
  lines are raised before which call is a parameter. \<open>kernel_reach\<close> are the states the main loop can be in, with interrupts
  between the ticks and, differently in each tick, between the tasks. The tasks with interrupts in between are again a system
  of tasks that keep the invariant of the kernel. That an interrupt gives the interrupted code its registers back
  is shown in \<open>Interrupt_Entry\<close>; an interrupt in the middle of a task is not interleaved with its steps.
\<close>

primrec take_irqs :: "'d io_dev \<Rightarrow> nat list \<Rightarrow> ('d, 'z) kbd_st_scheme \<Rightarrow> ('d, 'z) kbd_st_scheme option" where
  "take_irqs D [] s = Some s"
| "take_irqs D (n # ns) s = do { s \<leftarrow> irq_dispatch D (irq_call D) (of_nat (32 + n)) s; take_irqs D ns s }"

definition irq_run ::
    "'d io_dev \<Rightarrow> (event_handler_t \<Rightarrow> aura_event_t \<Rightarrow> ('d, 'z) menu_st_scheme \<Rightarrow> ('d, 'z) menu_st_scheme option) \<Rightarrow>
     (task_fn \<Rightarrow> ('d, 'z) menu_st_scheme \<Rightarrow> nat list) \<Rightarrow>
     task_fn \<Rightarrow> ('d, 'z) menu_st_scheme \<Rightarrow> ('d, 'z) menu_st_scheme run_result option" where
  "irq_run D h lines fn s =
     and_then (map_option Ret (take_irqs D (if int_flag s then filter (\<lambda>n. n < 16) (lines fn s) else []) s)) (task_dispatch D h fn)"

section \<open>An interrupt keeps the invariant\<close>

lemma dev_only_upd: "dev_only s (s\<lparr>dev := d\<rparr>)"
  unfolding dev_only_def by blast

lemma eoi_dev: "\<exists>d. irq_send_eoi D n s = s\<lparr>dev := d\<rparr>"
  by (auto simp: irq_send_eoi_def Let_def outb_def)

lemma irq_effect_keeps:
  assumes up: "parts T P UNIV s"
  shows "parts T P UNIV (irq_effect D scs d' n s) \<and> task_table (irq_effect D scs d' n s) = task_table s"
proof -
  let ?t = "if n = 0 then pit_irq_handler s else if n = 1 then (fold kb_scancode scs s)\<lparr>dev := d'\<rparr> else s"
  have k: "keyed s (fold kb_scancode scs s)" by (rule keyed_fold_scancode)
  have "pit_irq_handler s = kernel_heartbeat s" by (simp add: pit_irq_handler_def kernel_heartbeat_def)
  then have "parts T P UNIV ?t" "task_table ?t = task_table s"
    using heartbeat_keeps [OF up] parts_dev [OF parts_keyed [OF up k] dev_only_upd] keyed_tasks [OF k] up by (auto simp: kernel_heartbeat_def)
  moreover have "\<exists>d. irq_effect D scs d' n s = ?t\<lparr>dev := d\<rparr>" by (simp only: irq_effect_def eoi_dev)
  then obtain d where "irq_effect D scs d' n s = ?t\<lparr>dev := d\<rparr>" ..
  ultimately show ?thesis using parts_dev [of T P UNIV ?t, OF _ dev_only_upd [of ?t d]] by simp
qed

lemma take_irqs_keeps:
  assumes D: "machine_ok D" and up: "parts T P UNIV s" and ns: "\<forall>n \<in> set ns. n < 16"
  shows "\<exists>s'. take_irqs D ns s = Some s' \<and> parts T P UNIV s' \<and> task_table s' = task_table s"
  using up ns
proof (induction ns arbitrary: s)
  case (Cons n ns)
  obtain scs d' where f: "kbd_feed D (dev s) scs d'" using D unfolding machine_ok_def by blast
  have "irq_handlers s = driver_handlers" using parts_holds [OF Cons.prems(1), of Irqs] by simp
  then have "irq_dispatch D (irq_call D) (of_nat (32 + n)) s = Some (irq_effect D scs d' n s)"
    using Cons.prems(2) by (intro irq_dispatch_effect [OF f]) simp_all
  then show ?case using Cons.IH [of "irq_effect D scs d' n s"] irq_effect_keeps [OF Cons.prems(1), of D scs d' n] Cons.prems(2) by simp
qed simp

lemma irq_run_safe:
  assumes D: "machine_ok D" and up: "parts T P UNIV s"
  shows "safely T P (task_table s) (irq_run D h lines fn s)"
proof -
  obtain s' where s': "take_irqs D (if int_flag s then filter (\<lambda>n. n < 16) (lines fn s) else []) s = Some s'" "parts T P UNIV s'" "task_table s' = task_table s"
    using take_irqs_keeps [OF D up, of "if int_flag s then filter (\<lambda>n. n < 16) (lines fn s) else []"] by auto
  have "safely T P (task_table s') (task_dispatch D h fn s')" by (rule task_dispatch_safe [OF D s'(2)])
  then show ?thesis using s'(1,3) by (simp add: irq_run_def)
qed

interpretation irq_kernel: task_system "irq_run D (h :: event_handler_t \<Rightarrow> aura_event_t \<Rightarrow> ('d, 'z) menu_st_scheme \<Rightarrow> _) lines" "\<lambda>s. machine_ok D \<and> parts T P UNIV s" stopped
proof
  fix s :: "('d, 'z) menu_st_scheme" and fn
  assume I: "machine_ok D \<and> parts T P UNIV s"
  show "\<exists>r. irq_run D h lines fn s = Some r \<and> (case r of Ret s' \<Rightarrow> (machine_ok D \<and> parts T P UNIV s') \<and> task_table s' = task_table s | Halt s' \<Rightarrow> stopped s')"
    using I irq_run_safe [of D T P s h lines fn] by (auto simp: safely_def split: option.splits run_result.splits)
  show "sched_inv s" using I by (rule kernel.sched)
  show "machine_ok D \<and> parts T P UNIV (s\<lparr>task_table := (task_table s)[i := t]\<rparr>)"
    if "i < 16" "task_ok t" "tk_name t = tk_name (task_table s ! i)" "tk_fn t = tk_fn (task_table s ! i)"
      "tk_period t = tk_period (task_table s ! i)" "task_live t = task_live (task_table s ! i)" for i t
    using that by (rule kernel.live [OF I])
  show "machine_ok D \<and> parts T P UNIV (s\<lparr>sched_tick := n\<rparr>)" for n by (rule kernel.tick [OF I])
  show "machine_ok D \<and> parts T P UNIV (snd (eventbus_publish tp x s))" for tp x by (rule kernel.publish [OF I])
qed

section \<open>The states of the main loop\<close>

inductive kernel_reach ::
    "'d io_dev \<Rightarrow> (event_handler_t \<Rightarrow> aura_event_t \<Rightarrow> ('d, 'z) menu_st_scheme \<Rightarrow> ('d, 'z) menu_st_scheme option) \<Rightarrow>
     ('d, 'z) menu_st_scheme \<Rightarrow> ('d, 'z) menu_st_scheme \<Rightarrow> bool" for D h b where
  start: "kernel_reach D h b b"
| irq: "kernel_reach D h b s \<Longrightarrow> int_flag s \<Longrightarrow> n < 16 \<Longrightarrow> irq_dispatch D (irq_call D) (of_nat (32 + n)) s = Some s' \<Longrightarrow> kernel_reach D h b s'"
| tick: "kernel_reach D h b s \<Longrightarrow> scheduler_tick (irq_run D h lines) s = Some (Ret s') \<Longrightarrow> kernel_reach D h b s'"

lemma irq_returns:
  assumes D: "machine_ok D" and up: "parts T P UNIV s" and n: "n < 16"
  shows "\<exists>s'. irq_dispatch D (irq_call D) (of_nat (32 + n)) s = Some s' \<and> parts T P UNIV s'"
  using take_irqs_keeps [OF D up, of "[n]"] n by (auto simp: bind_eq_Some_conv)

lemma kernel_reach_parts:
  assumes D: "machine_ok D" and b: "parts T P UNIV b"
  shows "kernel_reach D h b s \<Longrightarrow> parts T P UNIV s"
proof (induction rule: kernel_reach.induct)
  case start
  show ?case by (rule b)
next
  case (irq s n s')
  then show ?case using irq_returns [OF D irq.IH irq.hyps(3)] by auto
next
  case (tick s lines s')
  then show ?case using irq_kernel.tick_ok [of D T P s h lines, unfolded irq_kernel.ok_def] D by simp
qed

lemma kernel_reach_tick:
  assumes D: "machine_ok D" and up: "parts T P UNIV t" and t: "kernel_reach D h b t"
  shows "\<exists>r. scheduler_tick (irq_run D h lines) t = Some r \<and> (case r of Ret t' \<Rightarrow> kernel_reach D h b t' | Halt t' \<Rightarrow> stopped t')"
proof -
  have ok: "case scheduler_tick (irq_run D h lines) t of None \<Rightarrow> False | Some (Ret s') \<Rightarrow> machine_ok D \<and> parts T P UNIV s' | Some (Halt s') \<Rightarrow> stopped s'"
    using irq_kernel.tick_ok [of D T P t h lines] D up unfolding irq_kernel.ok_def by blast
  then obtain r where r: "scheduler_tick (irq_run D h lines) t = Some r" by (cases "scheduler_tick (irq_run D h lines) t") simp_all
  then show ?thesis using ok kernel_reach.tick [OF t, of lines] by (cases r) simp_all
qed

end
