(* ===== verification/Spec2Isabelle.thy ===== *)
theory Spec2Isabelle
  imports Memory_Safety Env_Persistence Kernel_Interrupts
begin

text \<open>
  A verification of the kernel of AI Aura OS, a freestanding kernel for the i386 written in C. This theory imports the whole development and
  holds the properties of the kernel as a whole.

  \<^bold>\<open>The program.\<close> \<^verbatim>\<open>kernel_main\<close> initialises one subsystem after the other (console, heap, paging, event bus, plugin manager, mirror,
  scheduler, environment, virtual files, interrupts, timer, keyboard), registers seven built-in tasks, loads the modules and adapters as plugins, mounts
  the disk if there is one, captures a boot snapshot and then calls \<^verbatim>\<open>scheduler_tick\<close> for ever. Everything else happens in tasks: the
  heartbeat, the delivery of events, the mirror, the plugins, keyboard and serial input, and the menu, whose keys
  show tables, capture and restore snapshots or stop the machine. Timer and keyboard interrupts arrive in between. Components call each other directly, share the console
  and two globals, and announce what they do on the event bus.

  \<^bold>\<open>The model.\<close> One record holds the state of the machine and all static variables. It is extensible and has a layer per component, in the order
  \<open>machine\<close>, \<open>heap_st\<close>, \<open>vga_st\<close>, \<open>idt_st\<close>, \<open>kbd_st\<close>, \<open>bus_st\<close>, \<open>plugin_st\<close>, \<open>sched_st\<close>, \<open>fat_st\<close>, \<open>env_st\<close>, \<open>fs_st\<close>, \<open>mirror_st\<close>, \<open>mod_st\<close>,
  \<open>menu_st\<close>; an operation is defined on the layers it uses. Integers have their C width, arrays are lists of their declared length, C strings are character lists with
  a terminator. The heap, the page tables, the text screen and the interrupt stack are bytes of physical memory. A C function has the same name here. A function
  pointer is a constructor of a datatype, or an address where the source compares addresses, and what it points to is given by a dispatch function (\<open>plugin_dispatch\<close>,
  \<open>task_dispatch\<close>, \<open>irq_call\<close>) or, for event handlers, of which the repository subscribes none, by a parameter.
  A result of type \<open>option\<close> is \<open>None\<close> for a run that never returns; \<open>run_result\<close> separates a return from \<^verbatim>\<open>cli; hlt\<close>.

  The hardware is a parameter \<open>D\<close> that says how a device state answers port accesses. What the code relies on is stated as predicates
  (\<open>uart_ok\<close>, \<open>tx_live\<close>, \<open>console_dev\<close>, \<open>kbd_feed\<close>, \<open>pic_ok\<close>, \<open>pit_ok\<close>, \<open>ata_ok\<close>, \<open>drive_good\<close>, \<open>machine_ok\<close>), and each is shown to hold of an emulation
  (\<open>uart_emu\<close>, \<open>kbd_emu\<close>, \<open>pic_emu\<close>, \<open>pit_emu\<close>, \<open>ata_emu\<close>, \<open>pc_emu\<close>). The addresses the linker chooses are the fields of \<open>link_map\<close>.

  \<^bold>\<open>The theories\<close>, with the sources they model and what they show.
  \<^item> \<open>Prelude\<close>: machine integers, lemma collections, C strings. \<open>Kernel_Types\<close> (\<^verbatim>\<open>kernel.h\<close>): status codes, kernel states, halting.
  \<^item> \<open>Kstring\<close> (\<^verbatim>\<open>kstring.c\<close>): the loops against reference functions. \<open>Machine\<close> (\<^verbatim>\<open>io.h\<close>, \<^verbatim>\<open>memset_k\<close> and \<^verbatim>\<open>memcpy_k\<close>): memory, ports, control registers.
  \<^item> \<open>Memory_Manager\<close> (\<^verbatim>\<open>memory.c\<close>): the linked blocks in memory refine a list of block sizes. \<open>Memory_Safety\<close>: the contract \<open>allocator\<close>
    of its clients, interpreted as \<open>kheap\<close>; allocation and release are safe in every reachable heap, which is an inductive set.
  \<^item> \<open>Serial_Port\<close>, \<open>Vga\<close> (\<^verbatim>\<open>vga.c\<close>): the screen refines an abstract terminal; formatted output; the serial mirror. \<open>Console\<close>: what drawing leaves alone.
  \<^item> \<open>Paging\<close> (\<^verbatim>\<open>paging.c\<close>): the address translation set up. \<open>Idt\<close>, \<open>Pit\<close> (\<^verbatim>\<open>idt.c\<close>, \<^verbatim>\<open>pit.c\<close>): gates, masks, timer. \<open>Interrupt_Entry\<close>: the assembly stubs and trampolines
    as instructions on registers and stack; an interrupt is invisible to the code it interrupts, an exception is reported and stops.
  \<^item> \<open>Ring_Buffer\<close>: the contract \<open>bounded_queue\<close> of \<open>Keyboard\<close> (\<^verbatim>\<open>keyboard.c\<close>, interpreted as \<open>kb_queue\<close>) and \<open>Eventbus\<close> (\<^verbatim>\<open>eventbus.c\<close>, \<open>bus_queue\<close>).
  \<^item> \<open>Name_Table\<close>: the contract \<open>name_table\<close> of tables searched by name, interpreted for \<open>Plugin\<close> (\<^verbatim>\<open>plugin.c\<close>, \<open>plugins\<close>), \<open>Env\<close> (\<^verbatim>\<open>env.c\<close>, \<open>vars\<close>) and \<open>Fs\<close> (\<^verbatim>\<open>fs.c\<close>, \<open>nodes\<close>).
    \<open>Plugin\<close>: the life cycle and the tick of plugins, in terms of the callbacks they run.
  \<^item> \<open>Scheduler\<close> (\<^verbatim>\<open>scheduler.c\<close>): a tick calls the due tasks in order; exact periods across the wrap-around of the counter.
  \<^item> \<open>Ata\<close> (\<^verbatim>\<open>ata.c\<close>): the contract \<open>block_device\<close>, interpreted as \<open>ata\<close>; time-outs. \<open>Fat12\<close> (\<^verbatim>\<open>fat12.c\<close>): files round trip and do not disturb each other.
    \<open>Env_Persistence\<close>: the environment survives a restart.
  \<^item> \<open>Mirror\<close> (\<^verbatim>\<open>mirror.c\<close>): captures verify, changes are detected. \<open>Modules\<close> (\<^verbatim>\<open>loader.c\<close>, \<^verbatim>\<open>mod_hello.c\<close>, \<^verbatim>\<open>aura_core.c\<close>, the adapters): loading and registration, and the exact effect of every plugin callback.
  \<^item> \<open>Menu\<close> (\<^verbatim>\<open>menu.c\<close>), \<open>Kernel_Main\<close> (\<^verbatim>\<open>kernel.c\<close>): the remaining operations, the boot sequence and the main loop.
  \<^item> \<open>Disk_Frame\<close>: what the disk code can change on any device, even a broken one. \<open>Kernel_Invariant\<close>: the invariant of the kernel, a predicate for each part, and how operations keep it.
    \<open>Kernel_Tasks\<close>: every task keeps it or stops the processor; the locale \<open>task_system\<close>, interpreted as \<open>kernel\<close>. \<open>Kernel_Boot\<close>: the boot sequence establishes it.
    \<open>Kernel_Interrupts\<close>: interrupts between the calls of tasks keep it; \<open>task_system\<close> interpreted as \<open>irq_kernel\<close>; the reachable states of the main loop as an inductive predicate.

  \<^bold>\<open>Loops and bounds.\<close> Loops over arrays are recursions on the list of indices. The loops on a device register, \<open>serial_tx_wait\<close> and \<open>keyboard_poll\<close>, the drain loop \<open>eventbus_process\<close>, the heap
  walks and the main loop are partial functions in \<open>option\<close>; that they return is proved from the hypotheses on the hardware or the shape of the heap. The polls of \<^verbatim>\<open>ata.c\<close> are bounded in the source (1048576
  polls), and so is the model. Nothing else is cut off.

  \<^bold>\<open>Not modelled.\<close> \<^verbatim>\<open>bootloader/boot.asm\<close> (16-bit assembly before the C program), the Makefile and the linker script. An interrupt is taken between two calls of tasks and not in the
  middle of one, so races between a handler and the task it interrupts are outside the theorems; the source has such a race in the keyboard ring. The stack frames of compiled C code are not part of memory. Headers that
  only declare functions have no counterpart.
\<close>

section \<open>Lemmas for the properties of the whole kernel\<close>

lemma parts_views: "parts T P UNIV s \<Longrightarrow> kernel_inv s \<and> T (task_view (task_table s)) \<and> P (plugin_view s)"
  using parts_any [of T P UNIV s] parts_holds [of T P UNIV s Tasks] parts_holds [of T P UNIV s Plugins] by (simp add: kernel_inv_def)

lemma boot_task_count:
  assumes inv: "sched_inv s" and v: "boot_tasks_ok (task_view (task_table s))"
  shows "scheduler_task_count s = 7"
proof -
  let ?l = "\<lambda>v :: string \<times> task_fn option \<times> u32 \<times> bool. snd (snd (snd v))"
  have "map (\<lambda>t. ?l (cstr (tk_name t), tk_fn t, tk_period t, task_live t)) (take 7 (task_table s)) = map ?l (map (\<lambda>(n, f, p, l). (cstr n, f, p, l)) (take 7 (task_view (task_table s))))"
    by (simp add: task_view_def take_map)
  also have "\<dots> = map (\<lambda>_. True) boot_task_list" using v unfolding boot_tasks_ok_def by (auto simp: comp_def case_prod_beta')
  finally have t: "map task_live (take 7 (task_table s)) = replicate 7 True" by (simp add: boot_task_names(1) map_replicate_const)
  then have "\<forall>t \<in> set (take 7 (task_table s)). task_live t" by (metis in_set_replicate list.set_map imageI)
  moreover have "\<forall>t \<in> set (drop 7 (task_table s)). \<not> task_live t" using v unfolding boot_tasks_ok_def task_view_def drop_map by auto
  ultimately have "filter task_live (take 7 (task_table s) @ drop 7 (task_table s)) = take 7 (task_table s)" by (simp only: filter_append) simp
  then have "length (filter task_live (task_table s)) = 7" using inv by (simp add: sched_inv_def)
  then show ?thesis using inv by (simp add: sched_inv_def scheduler_task_count_def)
qed

section \<open>Properties of the whole kernel\<close>

text \<open>C1: from static variables of the declared sizes, of which those with a static initialiser that the boot relies on are as it
  leaves them (the entries of the module registry, the serial adapter, a user's snapshot slot in range, strings terminated in the
  tables of the environment and the snapshots) and the others are arbitrary, the boot sequence returns with every part of the kernel in
  order: the cursor on the screen, the heap laid out, an empty bus without subscribers, consistent plugin, task, environment,
  file and snapshot tables, a verified boot snapshot, the timer and the keyboard as the only interrupt handlers, the kernel state RUN. Exactly the seven built-in tasks are registered,
  with their functions and periods, and exactly the four plugins of the repository, all ACTIVE.\<close>

theorem kernel_boot_correct:
  assumes "console_dev D K" "parts any any {} s"
  shows "\<exists>s'. kernel_boot D L s = Some s' \<and> kernel_inv s' \<and> g_kernel_state s' = KERNEL_STATE_RUN \<and> mirror_verify 1 s' = AURA_OK \<and>
    irq_handlers s' = driver_handlers \<and> scheduler_task_count s' = 7 \<and> boot_tasks_ok (task_view (task_table s')) \<and> boot_plugins_ok (adapter_addr L) (plugin_view s')"
proof -
  obtain s' where s': "kernel_boot D L s = Some s'" "parts boot_tasks_ok (boot_plugins_ok (adapter_addr L)) UNIV s'"
    using kernel_boot_up [OF assms(1), of L] assms(2) unfolding boots_def by blast
  note v = parts_views [OF s'(2)] and h = parts_holds [OF s'(2) UNIV_I]
  have "scheduler_task_count s' = 7" using h [of Tasks] by (intro boot_task_count) simp_all
  then show ?thesis using s'(1) v h [of Running] h [of Bootsnap] h [of Irqs] by simp
qed

theorem kernel_boot_correct_witness:
  "\<exists>s'. kernel_boot pc_emu demo_link (power_on [0x1E, 0x10]) = Some s' \<and>
    scheduler_task_count s' = 7 \<and> g_kernel_state s' = KERNEL_STATE_RUN"
proof -
  have "console_dev pc_emu (\<lambda>_. ())" using pc_emu_ok by (simp add: machine_ok_def)
  from kernel_boot_correct [OF this power_on_static] show ?thesis by blast
qed

text \<open>C2: the kernel never gets stuck. After the boot sequence every number of scheduler ticks returns: either the main loop is still running,
  with all parts of the kernel in order and the built-in tasks and plugins as they were registered, or a task has stopped
  the processor in the state PANIC with interrupts disabled. The main loop ends exactly in the second case, and never otherwise.\<close>

theorem kernel_never_stuck:
  assumes "machine_ok D" "parts any any {} s"
  shows "\<exists>b. kernel_boot D L s = Some b \<and>
    (\<forall>n. (\<exists>s'. scheduler_ticks (task_dispatch D h) n b = Some (Ret s') \<and> kernel_inv s' \<and> boot_tasks_ok (task_view (task_table s')) \<and>
              boot_plugins_ok (adapter_addr L) (plugin_view s')) \<or>
         (\<exists>s'. scheduler_ticks (task_dispatch D h) n b = Some (Halt s') \<and> kernel_main D L h s = Some s' \<and> stopped s')) \<and>
    (\<forall>s'. kernel_main D L h s = Some s' \<longrightarrow> (\<exists>n. scheduler_ticks (task_dispatch D h) n b = Some (Halt s')))"
proof -
  have D: "console_dev D (\<lambda>_. ())" using assms(1) by (simp add: machine_ok_def)
  obtain b where b: "kernel_boot D L s = Some b" "parts boot_tasks_ok (boot_plugins_ok (adapter_addr L)) UNIV b"
    using kernel_boot_up [OF D, of L] assms(2) unfolding boots_def by blast
  have main: "kernel_main D L h s = Some s' \<longleftrightarrow> (\<exists>n. scheduler_ticks (task_dispatch D h) n b = Some (Halt s'))" for s'
    by (simp add: kernel_main_def b(1) kernel_loop_iff)
  have "(\<exists>s'. scheduler_ticks (task_dispatch D h) n b = Some (Ret s') \<and> kernel_inv s' \<and> boot_tasks_ok (task_view (task_table s')) \<and>
              boot_plugins_ok (adapter_addr L) (plugin_view s')) \<or>
         (\<exists>s'. scheduler_ticks (task_dispatch D h) n b = Some (Halt s') \<and> kernel_main D L h s = Some s' \<and> stopped s')" for n
  proof -
    have ok: "kernel.ok D boot_tasks_ok (boot_plugins_ok (adapter_addr L)) (scheduler_ticks (task_dispatch D h) n b)"
      using kernel.ticks_ok [of D boot_tasks_ok _ b h n] assms(1) b(2) by blast
    show ?thesis
    proof (cases "scheduler_ticks (task_dispatch D h) n b")
      case None
      then show ?thesis using ok by (simp add: kernel.ok_def)
    next
      case (Some r)
      then show ?thesis using ok parts_views main by (cases r) (auto simp: kernel.ok_def)
    qed
  qed
  then show ?thesis using b(1) main by blast
qed

theorem kernel_never_stuck_witness:
  "\<exists>b r. kernel_boot pc_emu demo_link (power_on [0x1E, 0x10]) = Some b \<and>
     scheduler_ticks (task_dispatch pc_emu (\<lambda>_ _. Some)) 1000 b = Some r"
  using kernel_never_stuck [OF pc_emu_ok power_on_static, of demo_link
      "[0x1E, 0x10]" "\<lambda>_ _. Some"] by blast

text \<open>C3: interrupts do not disturb the running kernel. In every state the main loop can be in after the boot sequence, with any hardware
  interrupts between the ticks and, within a tick, between the calls of tasks, the kernel is in order, with the built-in
  tasks, the plugins and the interrupt handlers as they were registered. From such a state every interrupt is
  handled, and the next tick returns whatever interrupts it meets: into such a state again, or a task has stopped the processor in the state
  PANIC with interrupts disabled.\<close>

theorem kernel_interrupts_safe:
  assumes "machine_ok D" "parts any any {} s"
  shows "\<exists>b. kernel_boot D L s = Some b \<and>
    (\<forall>t. kernel_reach D h b t \<longrightarrow>
       kernel_inv t \<and> boot_tasks_ok (task_view (task_table t)) \<and> boot_plugins_ok (adapter_addr L) (plugin_view t) \<and> irq_handlers t = driver_handlers \<and>
       (\<forall>n < 16. \<exists>t'. irq_dispatch D (irq_call D) (of_nat (32 + n)) t = Some t') \<and>
       (\<forall>lines. \<exists>r. scheduler_tick (irq_run D h lines) t = Some r \<and> (case r of Ret t' \<Rightarrow> kernel_reach D h b t' | Halt t' \<Rightarrow> stopped t')))"
proof -
  have D: "console_dev D (\<lambda>_. ())" using assms(1) by (simp add: machine_ok_def)
  obtain b where b: "kernel_boot D L s = Some b" "parts boot_tasks_ok (boot_plugins_ok (adapter_addr L)) UNIV b"
    using kernel_boot_up [OF D, of L] assms(2) unfolding boots_def by blast
  note up = kernel_reach_parts [OF assms(1) b(2), of h]
  have "irq_handlers t = driver_handlers" if "kernel_reach D h b t" for t using parts_holds [OF up [OF that], of Irqs] by simp
  then show ?thesis using b(1) parts_views [OF up] irq_returns [OF assms(1) up] kernel_reach_tick [OF assms(1) up] by blast
qed

theorem kernel_interrupts_safe_witness:
  "\<exists>b r. kernel_boot pc_emu demo_link (power_on [0x1E, 0x10]) = Some b \<and>
     scheduler_tick (irq_run pc_emu (\<lambda>_ _. Some) (\<lambda>_ _. [0, 1, 14])) b = Some r"
proof -
  obtain b where b: "kernel_boot pc_emu demo_link (power_on [0x1E, 0x10]) = Some b"
      "\<forall>t. kernel_reach pc_emu (\<lambda>_ _. Some) b t \<longrightarrow> (\<exists>r. scheduler_tick (irq_run pc_emu (\<lambda>_ _. Some) (\<lambda>_ _. [0, 1, 14])) t = Some r)"
    using kernel_interrupts_safe [OF pc_emu_ok power_on_static, of demo_link "[0x1E, 0x10]" "\<lambda>_ _. Some"] by blast
  then show ?thesis using kernel_reach.start by blast
qed

text \<open>C5: the menu on a kernel in order. Without a key nothing happens. The keys k and q stop the processor in the state PANIC with interrupts
  disabled. After every other key the kernel is in order and the task table is the same: 4 captures a snapshot that verifies
  into the next user slot (2 or 3, in turn), r sets the environment back to its boot defaults, and all others only draw.\<close>

theorem menu_tick_correct:
  assumes D: "console_dev D K" and inv: "kernel_inv s"
  shows "(kb_contents s = [] \<longrightarrow> menu_tick D s = Some (Ret s)) \<and>
    (\<forall>c cs. kb_contents s = c # cs \<and> c \<noteq> NUL \<longrightarrow>
      (if c \<in> set ''kKqQ'' then \<exists>s'. menu_tick D s = Some (Halt s') \<and> stopped s'
       else \<exists>s'. menu_tick D s = Some (Ret s') \<and> kernel_inv s' \<and> task_table s' = task_table s \<and>
         (if c = CHR ''4'' then next_slot s \<in> {2, 3} \<and> mirror_verify (next_slot s) s' = AURA_OK \<and> snap_slot s' = next_slot s + 1
          else if c \<in> set ''rR'' then \<forall>k. env_map s' k = boot_env k
          else console_only K (snd (keyboard_getchar s)) s')))"
proof (intro conjI impI allI)
  have up: "parts any any UNIV s" using inv by (simp add: kernel_inv_def)
  have kb: "kb_inv s" using parts_holds [OF up, of Kbd] by simp
  show "kb_contents s = [] \<Longrightarrow> menu_tick D s = Some (Ret s)" by (rule menu_tick_idle [OF kb])
  fix c cs assume key: "kb_contents s = c # cs \<and> c \<noteq> NUL"
  let ?g = "snd (keyboard_getchar s)"
  let ?t = "vga_set_color VGA_COLOR_LIGHT_GREEN VGA_COLOR_BLACK ?g"
  have run: "menu_tick D s = menu_key D c ?t" using key by (intro menu_tick_key [OF kb]) simp_all
  have co: "console_only K ?g ?t" by (rule console_only_color)
  have k: "keyed s ?g" by (rule keyed_getchar [OF kb])
  have t: "parts any any UNIV ?t" using parts_draw [OF parts_keyed [OF up k] co] by simp
  have ft: "task_table ?t = task_table s" "next_slot ?t = next_slot s"
    using k by (auto simp: keyed_def vga_set_color_def next_slot_def)
  obtain bs where bs: "heap_rep ?t bs" using parts_holds [OF t, of Heap] by auto
  have ns: "next_slot s \<in> {2, 3}" using parts_holds [OF up, of Slot] by (auto simp: next_slot_def)
  consider (stop) "c \<in> set ''kKqQ''" | (snap) "c = CHR ''4''" | (restore) "c \<in> set ''rR''" | (draw) "c \<notin> set ''4rRkKqQ''" by auto
  then show "if c \<in> set ''kKqQ'' then \<exists>s'. menu_tick D s = Some (Halt s') \<and> stopped s'
       else \<exists>s'. menu_tick D s = Some (Ret s') \<and> kernel_inv s' \<and> task_table s' = task_table s \<and>
         (if c = CHR ''4'' then next_slot s \<in> {2, 3} \<and> mirror_verify (next_slot s) s' = AURA_OK \<and> snap_slot s' = next_slot s + 1
          else if c \<in> set ''rR'' then \<forall>k. env_map s' k = boot_env k
          else console_only K (snd (keyboard_getchar s)) s')"
  proof cases
    case stop
    then show ?thesis using menu_key_stops [OF D stop, of ?t] unfolding run by simp
  next
    case snap
    have "menu_key D c ?t = map_option Ret (menu_snapshot D ?t)" by (simp add: menu_key_def Let_def snap)
    then show ?thesis using menu_snapshot_keeps [OF D t] ft ns snap unfolding run kernel_inv_def by auto
  next
    case restore
    then have "menu_key D c ?t = map_option Ret (menu_restore D ?t)" by (auto simp: menu_key_def Let_def)
    then show ?thesis using menu_restore_keeps [OF D t] ft(1) restore unfolding run kernel_inv_def by auto
  next
    case draw
    obtain s' where s': "menu_key D c ?t = Some (Ret s')" "console_only K ?t s'" using menu_key_draws [OF D bs draw] unfolding ret_drawn_def by blast
    have "kernel_inv s'" using parts_draw [OF t s'(2)] by (simp add: kernel_inv_def)
    moreover have "task_table s' = task_table s" using s'(2) ft(1) by (auto simp: console_only_def)
    ultimately show ?thesis using draw s'(1) console_only_trans [OF co s'(2)] unfolding run by auto
  qed
qed

theorem menu_tick_correct_witness:
  "(\<exists>s'. menu_tick pc_emu (demo_kernel (CHR ''q'')) = Some (Halt s') \<and> stopped s') \<and>
   (\<exists>s'. menu_tick pc_emu (demo_kernel (CHR ''R'')) = Some (Ret s') \<and> env_map s' ''OS_NAME'' = Some ''AI Aura OS'')"
proof
  have D: "console_dev pc_emu (\<lambda>_. ())" using pc_emu_ok by (simp add: machine_ok_def)
  show "\<exists>s'. menu_tick pc_emu (demo_kernel (CHR ''q'')) = Some (Halt s') \<and> stopped s'"
    using menu_tick_correct [OF D demo_kernel_inv(1), of "CHR ''q''"] demo_kernel_inv(2) [of "CHR ''q''"] by simp
  have b: "boot_env ''OS_NAME'' = Some ''AI Aura OS''" by (simp add: boot_env_def cstr_def)
  show "\<exists>s'. menu_tick pc_emu (demo_kernel (CHR ''R'')) = Some (Ret s') \<and> env_map s' ''OS_NAME'' = Some ''AI Aura OS''"
    using menu_tick_correct [OF D demo_kernel_inv(1), of "CHR ''R''"] demo_kernel_inv(2) [of "CHR ''R''"] b by auto
qed

end
